(* ===== verification/Chat_Prelude.thy ===== *)
theory Chat_Prelude
  imports Main "HOL-Library.Word" "HOL-Library.Monad_Syntax"
begin

text \<open>
  Shared vocabulary of the chat development.

  \<^item> Machine types of the C sources: bytes, 16-bit ports, \<open>size_t\<close> and addresses.
  \<^item> C arrays with checked access. The result type is \<open>option\<close>: \<open>None\<close> stands for
    undefined behaviour (an access out of bounds, a dereference of a pointer that does not
    point to a live object) and, for loops, for not returning. A theorem that an operation
    equals \<open>Some r\<close> therefore states memory safety and termination together with the value.
  \<^item> C strings, as the bytes before the terminating NUL.
  \<^item> A typed store with \<open>malloc\<close> and \<open>free\<close>. Whether an allocation succeeds is decided by
    an oracle in the store, so that statements for every oracle cover every pattern of
    allocation failures. Addresses are never reused; a dangling address is not live.
\<close>

section \<open>Machine types\<close>

type_synonym byte = "8 word"
type_synonym u16 = "16 word"
type_synonym u32 = "32 word"
type_synonym size_t = "64 word"
type_synonym cstring = "byte list"
type_synonym addr = nat

abbreviation (input) NULL :: addr where
  "NULL \<equiv> 0"

named_theorems chat_defs \<open>definitions of straight-line code, unfolded together\<close>
named_theorems array_simps \<open>access to C arrays that stays in bounds\<close>
named_theorems store_simps \<open>allocation, release and access of a typed store\<close>

section \<open>C arrays\<close>

definition rd :: "'a list \<Rightarrow> nat \<Rightarrow> 'a option" where
  "rd b i = (if i < length b then Some (b ! i) else None)"

definition wr :: "'a list \<Rightarrow> nat \<Rightarrow> 'a \<Rightarrow> 'a list option" where
  "wr b i v = (if i < length b then Some (b[i := v]) else None)"

text \<open>\<open>memcpy (dst + d) (src + s) n\<close>: both ranges have to lie inside their arrays.\<close>

definition memcpy :: "'a list \<Rightarrow> nat \<Rightarrow> 'a list \<Rightarrow> nat \<Rightarrow> nat \<Rightarrow> 'a list option" where
  "memcpy dst d src s n =
     (if d + n \<le> length dst \<and> s + n \<le> length src
      then Some (take d dst @ take n (drop s src) @ drop (d + n) dst) else None)"

lemma rd_in [array_simps]: "i < length b \<Longrightarrow> rd b i = Some (b ! i)"
  by (simp add: rd_def)

lemma wr_in [array_simps]: "i < length b \<Longrightarrow> wr b i v = Some (b[i := v])"
  by (simp add: wr_def)

lemma memcpy_in [array_simps]:
  "d + n \<le> length dst \<Longrightarrow> s + n \<le> length src \<Longrightarrow>
   memcpy dst d src s n = Some (take d dst @ take n (drop s src) @ drop (d + n) dst)"
  by (simp add: memcpy_def)

lemma rd_Some_iff: "rd b i = Some v \<longleftrightarrow> i < length b \<and> v = b ! i"
  by (auto simp: rd_def)

lemma wr_Some_iff: "wr b i v = Some b' \<longleftrightarrow> i < length b \<and> b' = b[i := v]"
  by (auto simp: wr_def)

lemma length_memcpy: "memcpy dst d src s n = Some r \<Longrightarrow> length r = length dst"
  by (auto simp: memcpy_def split: if_splits)

text \<open>A buffer whose leading part is known: the shape every encoder leaves behind.\<close>

lemma list_update_prefix [simp]:
  "length xs = n \<Longrightarrow> (xs @ y # ys)[n := v] = xs @ v # ys"
  by (auto simp: list_update_append)

lemma take_nth_drop_Cons: "i < length b \<Longrightarrow> drop i b = b ! i # drop (Suc i) b"
  by (simp add: Cons_nth_drop_Suc)

section \<open>C strings\<close>

definition wf_cstring :: "cstring \<Rightarrow> bool" where
  "wf_cstring s \<longleftrightarrow> 0 \<notin> set s"

text \<open>Reading a \<open>char\<close> array as a string: undefined when no NUL lies inside the array.\<close>

definition cstr :: "byte list \<Rightarrow> cstring option" where
  "cstr b = (if 0 \<in> set b then Some (takeWhile (\<lambda>c. c \<noteq> 0) b) else None)"

definition bytes_of :: "string \<Rightarrow> cstring" where
  "bytes_of s = map of_char s"

text \<open>
  \<open>strcpy\<close> into an array of \<open>cap\<close> bytes, and \<open>strncpy\<close> of at most \<open>n\<close> bytes followed by a
  terminating NUL at index \<open>n\<close>; both give the string the array then holds.
\<close>

definition strcpy :: "nat \<Rightarrow> cstring \<Rightarrow> cstring option" where
  "strcpy cap s = (if length s < cap then Some s else None)"

definition strncpy :: "nat \<Rightarrow> cstring \<Rightarrow> cstring" where
  "strncpy n s = take n s"

lemma cstr_terminated: "wf_cstring s \<Longrightarrow> cstr (s @ 0 # r) = Some s"
  by (auto simp: cstr_def wf_cstring_def takeWhile_append takeWhile_eq_all_conv)

lemma cstr_prefix: "cstr (s @ 0 # r) = Some (takeWhile (\<lambda>c. c \<noteq> 0) s)"
  by (induction s) (auto simp: cstr_def)

lemma wf_cstring_takeWhile [simp]: "wf_cstring (takeWhile (\<lambda>c. c \<noteq> 0) s)"
  by (auto simp: wf_cstring_def dest: set_takeWhileD)

lemma wf_cstring_Nil [simp]: "wf_cstring []"
  by (simp add: wf_cstring_def)

lemma wf_cstring_take [simp]: "wf_cstring s \<Longrightarrow> wf_cstring (take n s)"
  by (auto simp: wf_cstring_def dest: in_set_takeD)

lemma strncpy_short [simp]: "length s \<le> n \<Longrightarrow> strncpy n s = s"
  by (simp add: strncpy_def)

section \<open>Bytes and naturals\<close>

lemma unat_of_nat_byte [simp]: "n < 256 \<Longrightarrow> unat (word_of_nat n :: byte) = n"
  by (simp add: unat_of_nat take_bit_eq_mod)

lemma unat_byte_lt [simp]: "unat (b :: byte) < 256"
  using unsigned_less [of b, where 'a = nat] by simp

lemma unat_byte_le [simp]: "unat (b :: byte) \<le> 255"
  using unat_byte_lt [of b] by linarith

section \<open>Decimal notation\<close>

text \<open>The conversion \<open>%d\<close> of \<open>printf\<close>, for numbers that are not negative and for all.\<close>

fun dec :: "nat \<Rightarrow> cstring" where
  "dec n = (if n < 10 then [word_of_nat (48 + n)] else dec (n div 10) @ [word_of_nat (48 + n mod 10)])"

declare dec.simps [simp del]

definition dec_int :: "int \<Rightarrow> cstring" where
  "dec_int i = (if i < 0 then 45 # dec (nat (- i)) else dec (nat i))"

definition undec :: "cstring \<Rightarrow> nat" where
  "undec s = foldl (\<lambda>v c. 10 * v + (unat c - 48)) 0 s"

lemma undec_dec: "undec (dec n) = n"
proof (induction n rule: dec.induct)
  case (1 n)
  show ?case
  proof (cases "n < 10")
    case True
    then show ?thesis by (simp add: dec.simps [of n] undec_def del: of_nat_add)
  next
    case False
    with 1 have "undec (dec (n div 10)) = n div 10" by simp
    with False show ?thesis by (simp add: dec.simps [of n] undec_def del: of_nat_add)
  qed
qed

lemma length_dec: "n < 1000 \<Longrightarrow> length (dec n) \<le> 3"
  by (simp add: dec.simps [of n] dec.simps [of "n div 10"] dec.simps [of "n div 10 div 10"])

lemma length_dec_less: "n < 10 ^ k \<Longrightarrow> 0 < k \<Longrightarrow> length (dec n) \<le> k"
proof (induction n arbitrary: k rule: dec.induct)
  case (1 n)
  show ?case
  proof (cases "n < 10")
    case True
    then show ?thesis using 1(3) by (simp add: dec.simps [of n])
  next
    case False
    then obtain j where k: "k = Suc j" "0 < j" using 1(2,3) by (cases k; cases "k - 1") auto
    then have "n div 10 < 10 ^ j" using 1(2) by (simp add: less_mult_imp_div_less)
    then show ?thesis using 1(1) [of j] False k by (simp add: dec.simps [of n])
  qed
qed

section \<open>A typed store\<close>

record 'a store =
  mem :: "addr \<Rightarrow> 'a option"
  brk :: addr
  alloc_ok :: "nat \<Rightarrow> bool"

definition empty_store :: "(nat \<Rightarrow> bool) \<Rightarrow> 'a store" where
  "empty_store ok = \<lparr>mem = (\<lambda>_. None), brk = 1, alloc_ok = ok\<rparr>"

text \<open>
  \<open>malloc\<close> followed by the initialisation of the new object. The address is the next one;
  the oracle, asked at that address, says whether the allocation succeeds.
\<close>

definition malloc :: "'a store \<Rightarrow> 'a \<Rightarrow> addr \<times> 'a store" where
  "malloc s v =
     (if alloc_ok s (brk s)
      then (brk s, s\<lparr>mem := (mem s)(brk s := Some v), brk := Suc (brk s)\<rparr>)
      else (NULL, s\<lparr>brk := Suc (brk s)\<rparr>))"

definition free :: "'a store \<Rightarrow> addr \<Rightarrow> 'a store option" where
  "free s a =
     (if a = NULL then Some s
      else if mem s a = None then None
      else Some (s\<lparr>mem := (mem s)(a := None)\<rparr>))"

definition deref :: "'a store \<Rightarrow> addr \<Rightarrow> 'a option" where
  "deref s a = mem s a"

definition put :: "'a store \<Rightarrow> addr \<Rightarrow> 'a \<Rightarrow> 'a store option" where
  "put s a v = (if mem s a = None then None else Some (s\<lparr>mem := (mem s)(a := Some v)\<rparr>))"

text \<open>Live objects have non-null addresses below the next one to be given out.\<close>

definition store_wf :: "'a store \<Rightarrow> bool" where
  "store_wf s \<longleftrightarrow> 0 < brk s \<and> (\<forall>a. mem s a \<noteq> None \<longrightarrow> a \<noteq> NULL \<and> a < brk s)"

lemma store_wf_empty [simp]: "store_wf (empty_store ok)"
  by (simp add: store_wf_def empty_store_def)

lemma store_wf_NULL: "store_wf s \<Longrightarrow> mem s NULL = None"
  by (auto simp: store_wf_def)

lemma store_wf_live: "store_wf s \<Longrightarrow> mem s a = Some v \<Longrightarrow> a \<noteq> NULL"
  by (auto simp: store_wf_def)

lemma store_wf_malloc: "store_wf s \<Longrightarrow> malloc s v = (a, s') \<Longrightarrow> store_wf s'"
  by (auto simp: store_wf_def malloc_def less_Suc_eq split: if_splits)

lemma store_wf_free: "store_wf s \<Longrightarrow> free s a = Some s' \<Longrightarrow> store_wf s'"
  by (auto simp: store_wf_def free_def split: if_splits)

lemma store_wf_put: "store_wf s \<Longrightarrow> put s a v = Some s' \<Longrightarrow> store_wf s'"
  by (auto simp: store_wf_def put_def split: if_splits)

text \<open>An allocation either fails and changes no object or gives an address that was not live.\<close>

lemma malloc_cases:
  assumes "store_wf s" and "malloc s v = (a, s')"
  obtains (fails) "a = NULL" "mem s' = mem s" "alloc_ok s' = alloc_ok s"
  | (fresh) "a \<noteq> NULL" "mem s a = None" "mem s' = (mem s)(a := Some v)" "alloc_ok s' = alloc_ok s"
proof (cases "alloc_ok s (brk s)")
  case True
  have "mem s (brk s) = None"
    using assms(1) by (cases "mem s (brk s)") (auto simp: store_wf_def)
  then show thesis
    using assms True fresh by (auto simp: malloc_def store_wf_def)
next
  case False
  then show thesis
    using assms fails by (auto simp: malloc_def)
qed

lemma malloc_ok:
  "store_wf s \<Longrightarrow> (\<And>n. alloc_ok s n) \<Longrightarrow> malloc s v = (a, s') \<Longrightarrow> a \<noteq> NULL"
  by (auto simp: malloc_def store_wf_def)

lemma malloc_alloc_ok: "malloc s v = (a, s') \<Longrightarrow> alloc_ok s' = alloc_ok s"
  by (auto simp: malloc_def split: if_splits)

lemma free_alloc_ok: "free s a = Some s' \<Longrightarrow> alloc_ok s' = alloc_ok s"
  by (auto simp: free_def split: if_splits)

lemma put_alloc_ok: "put s a v = Some s' \<Longrightarrow> alloc_ok s' = alloc_ok s"
  by (auto simp: put_def split: if_splits)

lemma free_live [store_simps]:
  "mem s a = Some v \<Longrightarrow> a \<noteq> NULL \<Longrightarrow> free s a = Some (s\<lparr>mem := (mem s)(a := None)\<rparr>)"
  by (simp add: free_def)

lemma put_live [store_simps]:
  "mem s a = Some v \<Longrightarrow> put s a w = Some (s\<lparr>mem := (mem s)(a := Some w)\<rparr>)"
  by (simp add: put_def)

lemma deref_live [store_simps]: "mem s a = Some v \<Longrightarrow> deref s a = Some v"
  by (simp add: deref_def)

text \<open>Filling in an object just after its allocation is like allocating it with its final contents.\<close>

lemma malloc_put:
  assumes "store_wf s" "malloc s v = (a, s1)" "a \<noteq> NULL"
  shows "\<exists>s2. put s1 a w = Some s2 \<and> malloc s w = (a, s2)"
  using assms by (auto simp: malloc_def put_def split: if_splits)

text \<open>A store without some objects: what is left when all of them have been freed.\<close>

definition without :: "'a store \<Rightarrow> addr set \<Rightarrow> 'a store" where
  "without s X = s\<lparr>mem := (\<lambda>a. if a \<in> X then None else mem s a)\<rparr>"

lemma without_simps [simp]:
  "mem (without s X) a = (if a \<in> X then None else mem s a)" "without s {} = s"
  "without (without s X) Y = without s (X \<union> Y)" "store_wf s \<Longrightarrow> store_wf (without s X)"
  "brk (without s X) = brk s" "alloc_ok (without s X) = alloc_ok s"
  by (auto simp: without_def store_wf_def fun_eq_iff)

fun free_all :: "'a store \<Rightarrow> addr list \<Rightarrow> 'a store option" where
  "free_all s [] = Some s"
| "free_all s (a # as) = do { s \<leftarrow> free s a; free_all s as }"

lemma free_all_live:
  "\<forall>a \<in> set as. a \<noteq> NULL \<and> mem s a \<noteq> None \<Longrightarrow> distinct as \<Longrightarrow> free_all s as = Some (without s (set as))"
proof (induction as arbitrary: s)
  case (Cons a as)
  have "free s a = Some (without s {a})"
    using Cons.prems by (auto simp: free_def without_def fun_upd_def)
  moreover have "free_all (without s {a}) as = Some (without (without s {a}) (set as))"
    using Cons.prems by (intro Cons.IH) auto
  ultimately show ?case by simp
qed simp

text \<open>The images of the objects in a store, when one is added or replaced.\<close>

lemma objects_image: "{f v |b v. m b = Some v} = f ` ran m"
  by (auto simp: ran_def)

lemma image_ran_add: "m a = None \<Longrightarrow> f ` ran (m(a \<mapsto> v)) = insert (f v) (f ` ran m)"
  by (simp add: ran_map_upd)

lemma image_ran_update:
  assumes "m a = Some v" "f v' = f v"
  shows "f ` ran (m(a \<mapsto> v')) = f ` ran m"
proof -
  have "(\<lambda>b. map_option f ((m(a \<mapsto> v')) b)) = (\<lambda>b. map_option f (m b))" using assms by auto
  then show ?thesis by (metis ran_map_option)
qed

section \<open>Descriptors\<close>

text \<open>A descriptor above all that are open is fresh.\<close>

lemma fold_max: "b \<le> fold max es b" "x \<in> set es \<Longrightarrow> x \<le> fold max es (b :: int)"
proof (induction es arbitrary: b)
  case (Cons y es)
  { case 1 show ?case using Cons.IH(1) [of "max y b"] by simp
  next
    case 2 then show ?case using Cons.IH(1) [of "max y b"] Cons.IH(2) [of "max y b"] by auto }
qed simp_all

lemma fresh_fd: "fold max fds 2 + 1 \<notin> set fds" "0 \<le> fold max fds 2 + (1 :: int)" "\<not> fold max fds 2 + (1 :: int) < 0"
  using fold_max(1) [of 2 fds] fold_max(2) [of "fold max fds 2 + 1" fds 2] by auto

section \<open>Callbacks\<close>

text \<open>A callback on strings with a state of the caller, \<open>None\<close> when the pointer is NULL, and its calls on each string of a list.\<close>

type_synonym 's leave_cb = "(cstring \<Rightarrow> 's \<Rightarrow> 's option) option"

fun leave_all :: "'s leave_cb \<Rightarrow> cstring list \<Rightarrow> 's \<Rightarrow> 's option" where
  "leave_all cb [] c = Some c"
| "leave_all cb (g # gs) c = do { c \<leftarrow> (case cb of None \<Rightarrow> Some c | Some f \<Rightarrow> f g c); leave_all cb gs c }"

end
