(* ===== verification/Protocol.thy ===== *)
theory Protocol
  imports Chat_Prelude
begin

unbundle bit_operations_syntax

text \<open>
  The TLV codec of \<^verbatim>\<open>shared/protocol.h\<close> and \<^verbatim>\<open>shared/protocol.c\<close>.

  A buffer is the list of its bytes; pointer arguments are \<open>option\<close>s, \<open>None\<close> being NULL.
  Encoders and decoders return the C result together with the buffers they wrote, inside
  \<open>option\<close>: \<open>None\<close> is an access outside a buffer. \<open>buf_len\<close> is separate from the buffer, as
  in the code. All sizes the codec computes are at most 2 + 255, so naturals represent
  \<open>size_t\<close> exactly here.

  The lemmas relate each decoder to a reference parser over the received frame, show that it
  stays inside its buffers on every input, and that it inverts the encoder.
\<close>

section \<open>Opcodes and status codes\<close>

text \<open>
  A C enum holds any value that is cast to it; a byte that is no enumerator is kept as
  \<open>OP_OTHER\<close> or \<open>ST_OTHER\<close>.
\<close>

datatype ChatOpcode =
    OP_REG_REQ | OP_REG_REP | OP_LOGIN_REQ | OP_LOGIN_REP | OP_LOGOUT_REQ | OP_LOGOUT_REP
  | OP_CREATE_GROUP_REQ | OP_CREATE_GROUP_REP | OP_JOIN_GROUP_REQ | OP_JOIN_GROUP_REP
  | OP_LEAVE_GROUP_REQ | OP_LEAVE_GROUP_REP | OP_OTHER byte

datatype ChatStatus =
    ST_OK | ST_ERR_USER_EXISTS | ST_ERR_USER_NOT_FOUND | ST_ERR_BAD_PASSWORD
  | ST_ERR_ALREADY_LOGGED_IN | ST_ERR_NOT_LOGGED_IN | ST_ERR_GROUP_EXISTS
  | ST_ERR_GROUP_NOT_FOUND | ST_ERR_ALREADY_IN_GROUP | ST_ERR_NOT_IN_GROUP
  | ST_ERR_SERVER_FULL | ST_ERR_PROTOCOL | ST_OTHER byte

fun op_byte :: "ChatOpcode \<Rightarrow> byte" where
  "op_byte OP_REG_REQ = 0x01"
| "op_byte OP_REG_REP = 0x02"
| "op_byte OP_LOGIN_REQ = 0x03"
| "op_byte OP_LOGIN_REP = 0x04"
| "op_byte OP_LOGOUT_REQ = 0x05"
| "op_byte OP_LOGOUT_REP = 0x06"
| "op_byte OP_CREATE_GROUP_REQ = 0x07"
| "op_byte OP_CREATE_GROUP_REP = 0x08"
| "op_byte OP_JOIN_GROUP_REQ = 0x09"
| "op_byte OP_JOIN_GROUP_REP = 0x0A"
| "op_byte OP_LEAVE_GROUP_REQ = 0x0B"
| "op_byte OP_LEAVE_GROUP_REP = 0x0C"
| "op_byte (OP_OTHER b) = b"

fun st_byte :: "ChatStatus \<Rightarrow> byte" where
  "st_byte ST_OK = 0x00"
| "st_byte ST_ERR_USER_EXISTS = 0x01"
| "st_byte ST_ERR_USER_NOT_FOUND = 0x02"
| "st_byte ST_ERR_BAD_PASSWORD = 0x03"
| "st_byte ST_ERR_ALREADY_LOGGED_IN = 0x04"
| "st_byte ST_ERR_NOT_LOGGED_IN = 0x05"
| "st_byte ST_ERR_GROUP_EXISTS = 0x06"
| "st_byte ST_ERR_GROUP_NOT_FOUND = 0x07"
| "st_byte ST_ERR_ALREADY_IN_GROUP = 0x08"
| "st_byte ST_ERR_NOT_IN_GROUP = 0x09"
| "st_byte ST_ERR_SERVER_FULL = 0x0A"
| "st_byte ST_ERR_PROTOCOL = 0xFF"
| "st_byte (ST_OTHER b) = b"

text \<open>The casts \<open>(ChatOpcode)b\<close> and \<open>(ChatStatus)b\<close> of a received byte.\<close>

definition opcodes :: "ChatOpcode list" where
  "opcodes = [OP_REG_REQ, OP_REG_REP, OP_LOGIN_REQ, OP_LOGIN_REP, OP_LOGOUT_REQ, OP_LOGOUT_REP,
     OP_CREATE_GROUP_REQ, OP_CREATE_GROUP_REP, OP_JOIN_GROUP_REQ, OP_JOIN_GROUP_REP,
     OP_LEAVE_GROUP_REQ, OP_LEAVE_GROUP_REP]"

definition statuses :: "ChatStatus list" where
  "statuses = [ST_OK, ST_ERR_USER_EXISTS, ST_ERR_USER_NOT_FOUND, ST_ERR_BAD_PASSWORD,
     ST_ERR_ALREADY_LOGGED_IN, ST_ERR_NOT_LOGGED_IN, ST_ERR_GROUP_EXISTS,
     ST_ERR_GROUP_NOT_FOUND, ST_ERR_ALREADY_IN_GROUP, ST_ERR_NOT_IN_GROUP,
     ST_ERR_SERVER_FULL, ST_ERR_PROTOCOL]"

definition opcode_of :: "byte \<Rightarrow> ChatOpcode" where
  "opcode_of b = (case find (\<lambda>c. op_byte c = b) opcodes of Some c \<Rightarrow> c | None \<Rightarrow> OP_OTHER b)"

definition status_of :: "byte \<Rightarrow> ChatStatus" where
  "status_of b = (case find (\<lambda>c. st_byte c = b) statuses of Some c \<Rightarrow> c | None \<Rightarrow> ST_OTHER b)"

section \<open>Sizes\<close>

definition CHAT_MAX_PAYLOAD :: nat where "CHAT_MAX_PAYLOAD = 255"
definition CHAT_MAX_MSG_SIZE :: nat where "CHAT_MAX_MSG_SIZE = 2 + CHAT_MAX_PAYLOAD"
definition CHAT_MAX_USERNAME_LEN :: nat where "CHAT_MAX_USERNAME_LEN = 32"
definition CHAT_MAX_PASSWORD_LEN :: nat where "CHAT_MAX_PASSWORD_LEN = 32"
definition CHAT_MAX_GROUPNAME_LEN :: nat where "CHAT_MAX_GROUPNAME_LEN = 32"
definition CHAT_MAX_IP_STR_LEN :: nat where "CHAT_MAX_IP_STR_LEN = 16"
definition CHAT_MCAST_BASE_PORT :: u16 where "CHAT_MCAST_BASE_PORT = 6000"
definition CHAT_TCP_PORT :: u16 where "CHAT_TCP_PORT = 5000"

lemmas size_defs [chat_defs] =
  CHAT_MAX_PAYLOAD_def CHAT_MAX_MSG_SIZE_def CHAT_MAX_USERNAME_LEN_def
  CHAT_MAX_PASSWORD_LEN_def CHAT_MAX_GROUPNAME_LEN_def CHAT_MAX_IP_STR_LEN_def

section \<open>Encoders and decoders\<close>

definition chat_peek_header ::
  "byte list option \<Rightarrow> nat \<Rightarrow> byte option \<Rightarrow> byte option \<Rightarrow> (int \<times> byte option \<times> byte option) option"
where
  "chat_peek_header buf buf_len out_type out_len =
     (if buf = None \<or> out_type = None \<or> out_len = None \<or> buf_len < 2
      then Some (-1, out_type, out_len)
      else do {
        t \<leftarrow> rd (the buf) 0;
        l \<leftarrow> rd (the buf) 1;
        Some (0, Some t, Some l)
      })"

definition chat_encode_user_pass_req ::
  "byte list option \<Rightarrow> ChatOpcode \<Rightarrow> cstring option \<Rightarrow> cstring option \<Rightarrow> (int \<times> byte list option) option"
where
  "chat_encode_user_pass_req buf op user pass =
     (if buf = None \<or> user = None \<or> pass = None then Some (-1, buf)
      else let ulen = length (the user); plen = length (the pass)
      in if ulen > CHAT_MAX_USERNAME_LEN \<or> plen > CHAT_MAX_PASSWORD_LEN then Some (-1, buf)
      else let payload = 1 + ulen + 1 + plen
      in if payload > CHAT_MAX_PAYLOAD then Some (-1, buf)
      else do {
        b \<leftarrow> wr (the buf) 0 (op_byte op);
        b \<leftarrow> wr b 1 (word_of_nat payload);
        b \<leftarrow> wr b 2 (word_of_nat ulen);
        b \<leftarrow> memcpy b 3 (the user) 0 ulen;
        b \<leftarrow> wr b (3 + ulen) (word_of_nat plen);
        b \<leftarrow> memcpy b (4 + ulen) (the pass) 0 plen;
        Some (int (2 + payload), Some b)
      })"

definition chat_decode_user_pass ::
  "byte list option \<Rightarrow> nat \<Rightarrow> byte list option \<Rightarrow> byte list option \<Rightarrow>
   (int \<times> byte list option \<times> byte list option) option"
where
  "chat_decode_user_pass buf buf_len out_user out_pass =
     (if buf = None \<or> out_user = None \<or> out_pass = None \<or> buf_len < 2
      then Some (-1, out_user, out_pass)
      else do {
        pl \<leftarrow> rd (the buf) 1;
        let payload = unat pl;
        if 2 + payload > buf_len then Some (-1, out_user, out_pass)
        else do {
          let pos = 2;
          if pos \<ge> buf_len then Some (-1, out_user, out_pass)
          else do {
            ul \<leftarrow> rd (the buf) pos;
            let ulen = unat ul;
            let pos = pos + 1;
            if ulen > CHAT_MAX_USERNAME_LEN \<or> pos + ulen > buf_len
            then Some (-1, out_user, out_pass)
            else do {
              u \<leftarrow> memcpy (the out_user) 0 (the buf) pos ulen;
              u \<leftarrow> wr u ulen 0;
              let pos = pos + ulen;
              if pos \<ge> buf_len then Some (-1, Some u, out_pass)
              else do {
                p_l \<leftarrow> rd (the buf) pos;
                let plen = unat p_l;
                let pos = pos + 1;
                if plen > CHAT_MAX_PASSWORD_LEN \<or> pos + plen > buf_len
                then Some (-1, Some u, out_pass)
                else do {
                  p \<leftarrow> memcpy (the out_pass) 0 (the buf) pos plen;
                  p \<leftarrow> wr p plen 0;
                  Some (0, Some u, Some p)
                }}}}}})"

definition chat_encode_status_rep ::
  "byte list option \<Rightarrow> ChatOpcode \<Rightarrow> ChatStatus \<Rightarrow> (int \<times> byte list option) option"
where
  "chat_encode_status_rep buf op status =
     (if buf = None then Some (-1, buf)
      else do {
        b \<leftarrow> wr (the buf) 0 (op_byte op);
        b \<leftarrow> wr b 1 1;
        b \<leftarrow> wr b 2 (st_byte status);
        Some (3, Some b)
      })"

definition chat_decode_status_rep ::
  "byte list option \<Rightarrow> nat \<Rightarrow> ChatStatus option \<Rightarrow> (int \<times> ChatStatus option) option"
where
  "chat_decode_status_rep buf buf_len out_status =
     (if buf = None \<or> out_status = None \<or> buf_len < 3 then Some (-1, out_status)
      else do {
        l \<leftarrow> rd (the buf) 1;
        if l \<noteq> 1 then Some (-1, out_status)
        else do {
          c \<leftarrow> rd (the buf) 2;
          Some (0, Some (status_of c))
        }})"

definition chat_encode_groupname_req ::
  "byte list option \<Rightarrow> ChatOpcode \<Rightarrow> cstring option \<Rightarrow> (int \<times> byte list option) option"
where
  "chat_encode_groupname_req buf op grp =
     (if buf = None \<or> grp = None then Some (-1, buf)
      else let glen = length (the grp)
      in if glen > CHAT_MAX_GROUPNAME_LEN then Some (-1, buf)
      else let payload = 1 + glen
      in if payload > CHAT_MAX_PAYLOAD then Some (-1, buf)
      else do {
        b \<leftarrow> wr (the buf) 0 (op_byte op);
        b \<leftarrow> wr b 1 (word_of_nat payload);
        b \<leftarrow> wr b 2 (word_of_nat glen);
        b \<leftarrow> memcpy b 3 (the grp) 0 glen;
        Some (int (2 + payload), Some b)
      })"

definition chat_decode_groupname ::
  "byte list option \<Rightarrow> nat \<Rightarrow> byte list option \<Rightarrow> (int \<times> byte list option) option"
where
  "chat_decode_groupname buf buf_len out_group =
     (if buf = None \<or> out_group = None \<or> buf_len < 2 then Some (-1, out_group)
      else do {
        pl \<leftarrow> rd (the buf) 1;
        let payload = unat pl;
        if 2 + payload > buf_len then Some (-1, out_group)
        else if payload < 1 then Some (-1, out_group)
        else do {
          gl \<leftarrow> rd (the buf) 2;
          let glen = unat gl;
          if glen > CHAT_MAX_GROUPNAME_LEN \<or> 3 + glen > buf_len then Some (-1, out_group)
          else do {
            g \<leftarrow> memcpy (the out_group) 0 (the buf) 3 glen;
            g \<leftarrow> wr g glen 0;
            Some (0, Some g)
          }}})"

definition chat_encode_logout_req :: "byte list option \<Rightarrow> (int \<times> byte list option) option" where
  "chat_encode_logout_req buf =
     (if buf = None then Some (-1, buf)
      else do {
        b \<leftarrow> wr (the buf) 0 (op_byte OP_LOGOUT_REQ);
        b \<leftarrow> wr b 1 0;
        Some (2, Some b)
      })"

definition chat_encode_group_rep_ok ::
  "byte list option \<Rightarrow> ChatOpcode \<Rightarrow> cstring option \<Rightarrow> u16 \<Rightarrow> (int \<times> byte list option) option"
where
  "chat_encode_group_rep_ok buf op mcast_ip mcast_port =
     (if buf = None \<or> mcast_ip = None then Some (-1, buf)
      else let iplen = length (the mcast_ip)
      in if iplen \<ge> CHAT_MAX_IP_STR_LEN then Some (-1, buf)
      else let payload = 1 + (1 + iplen) + (1 + 2)
      in if payload > CHAT_MAX_PAYLOAD then Some (-1, buf)
      else do {
        b \<leftarrow> wr (the buf) 0 (op_byte op);
        b \<leftarrow> wr b 1 (word_of_nat payload);
        b \<leftarrow> wr b 2 (st_byte ST_OK);
        b \<leftarrow> wr b 3 (word_of_nat iplen);
        b \<leftarrow> memcpy b 4 (the mcast_ip) 0 iplen;
        b \<leftarrow> wr b (4 + iplen) 2;
        b \<leftarrow> wr b (5 + iplen) (ucast (drop_bit 8 mcast_port));
        b \<leftarrow> wr b (6 + iplen) (ucast (mcast_port AND 0xFF));
        Some (int (2 + payload), Some b)
      })"

definition chat_decode_group_rep_ok ::
  "byte list option \<Rightarrow> nat \<Rightarrow> ChatStatus option \<Rightarrow> byte list option \<Rightarrow> u16 option \<Rightarrow>
   (int \<times> ChatStatus option \<times> byte list option \<times> u16 option) option"
where
  "chat_decode_group_rep_ok buf buf_len out_status out_ip out_port =
     (if buf = None \<or> out_status = None \<or> out_ip = None \<or> out_port = None \<or> buf_len < 3
      then Some (-1, out_status, out_ip, out_port)
      else do {
        pl \<leftarrow> rd (the buf) 1;
        let payload = unat pl;
        if 2 + payload > buf_len \<or> payload < 1 then Some (-1, out_status, out_ip, out_port)
        else do {
          c \<leftarrow> rd (the buf) 2;
          let st = status_of c;
          if st \<noteq> ST_OK \<or> payload = 1
          then do {
            ip \<leftarrow> wr (the out_ip) 0 0;
            Some (0, Some st, Some ip, Some 0)
          }
          else do {
            let pos = 3;
            if pos \<ge> buf_len then Some (-1, Some st, out_ip, out_port)
            else do {
              il \<leftarrow> rd (the buf) pos;
              let iplen = unat il;
              let pos = pos + 1;
              if iplen \<ge> CHAT_MAX_IP_STR_LEN \<or> pos + iplen > buf_len
              then Some (-1, Some st, out_ip, out_port)
              else do {
                ip \<leftarrow> memcpy (the out_ip) 0 (the buf) pos iplen;
                ip \<leftarrow> wr ip iplen 0;
                let pos = pos + iplen;
                if pos \<ge> buf_len then Some (-1, Some st, Some ip, out_port)
                else do {
                  p_l \<leftarrow> rd (the buf) pos;
                  let portlen = unat p_l;
                  let pos = pos + 1;
                  if portlen \<noteq> 2 \<or> pos + 2 > buf_len then Some (-1, Some st, Some ip, out_port)
                  else do {
                    hi \<leftarrow> rd (the buf) pos;
                    lo \<leftarrow> rd (the buf) (pos + 1);
                    Some (0, Some st, Some ip, Some (push_bit 8 (ucast hi) OR ucast lo))
                  }}}}}}})"

section \<open>Reference parsers\<close>

text \<open>A length-prefixed field at the front of the bytes, and what follows it.\<close>

definition take_field :: "nat \<Rightarrow> byte list \<Rightarrow> (byte list \<times> byte list) option" where
  "take_field mx bs =
     (case bs of [] \<Rightarrow> None
      | l # r \<Rightarrow> if unat l > mx \<or> unat l > length r then None
                 else Some (take (unat l) r, drop (unat l) r))"

definition frame_ok :: "byte list \<Rightarrow> bool" where
  "frame_ok fr \<longleftrightarrow> 2 \<le> length fr \<and> 2 + unat (fr ! 1) \<le> length fr"

definition parse_user_pass :: "byte list \<Rightarrow> (byte list \<times> byte list) option" where
  "parse_user_pass fr =
     (if frame_ok fr then do {
        (u, r) \<leftarrow> take_field CHAT_MAX_USERNAME_LEN (drop 2 fr);
        (p, _) \<leftarrow> take_field CHAT_MAX_PASSWORD_LEN r;
        Some (u, p)
      } else None)"

definition parse_groupname :: "byte list \<Rightarrow> byte list option" where
  "parse_groupname fr =
     (if frame_ok fr \<and> fr ! 1 \<noteq> 0
      then map_option fst (take_field CHAT_MAX_GROUPNAME_LEN (drop 2 fr)) else None)"

definition parse_group_rep :: "byte list \<Rightarrow> (ChatStatus \<times> byte list \<times> u16) option" where
  "parse_group_rep fr =
     (if \<not> (frame_ok fr \<and> 3 \<le> length fr \<and> fr ! 1 \<noteq> 0) then None
      else if fr ! 2 \<noteq> 0 \<or> fr ! 1 = 1 then Some (status_of (fr ! 2), [], 0)
      else do {
        (ip, r) \<leftarrow> take_field (CHAT_MAX_IP_STR_LEN - 1) (drop 3 fr);
        (pt, _) \<leftarrow> take_field 2 r;
        if length pt = 2 then Some (ST_OK, ip, push_bit 8 (ucast (pt ! 0)) OR ucast (pt ! 1))
        else None
      })"

section \<open>Shared lemmas of the codec\<close>

lemma memcpy_field [array_simps]:
  "pos + k \<le> length b \<Longrightarrow> k < length ob \<Longrightarrow>
   memcpy ob 0 b pos k = Some (take k (drop pos b) @ drop k ob)"
  by (simp add: memcpy_def)

lemma update_field [array_simps]:
  "length f = k \<Longrightarrow> k < length ob \<Longrightarrow> (f @ drop k ob)[k := v] = f @ v # drop (Suc k) ob"
  by (simp add: list_update_append take_nth_drop_Cons)

lemma take_field_window:
  assumes "n \<le> length b"
  shows "take_field mx (drop pos (take n b)) =
    (if n \<le> pos then None
     else if unat (b ! pos) > mx \<or> n < pos + 1 + unat (b ! pos) then None
     else Some (take (unat (b ! pos)) (drop (pos + 1) b), drop (pos + 1 + unat (b ! pos)) (take n b)))"
proof (cases "pos < n")
  case True
  have "drop pos (take n b) = b ! pos # drop (pos + 1) (take n b)"
    using True assms by (simp add: take_nth_drop_Cons)
  then show ?thesis
    using True assms by (auto simp: take_field_def take_drop min_def ac_simps)
qed (simp add: take_field_def)

lemma take_field_length: "take_field mx bs = Some (f, r) \<Longrightarrow> length f \<le> mx"
  by (auto simp: take_field_def split: list.splits if_splits)

lemma frame_ok_take: "n \<le> length b \<Longrightarrow>
  frame_ok (take n b) \<longleftrightarrow> 2 \<le> n \<and> 2 + unat (b ! 1) \<le> n"
  by (cases "2 \<le> n") (simp_all add: frame_ok_def)

lemma status_of_st_byte: "s \<in> set statuses \<Longrightarrow> status_of (st_byte s) = s"
  by (auto simp: status_of_def statuses_def)

lemma opcode_of_op_byte: "c \<in> set opcodes \<Longrightarrow> opcode_of (op_byte c) = c"
  by (auto simp: opcode_of_def opcodes_def)

lemma st_byte_status_of: "st_byte (status_of b) = b"
  by (auto simp: status_of_def find_Some_iff split: option.splits)

lemma op_byte_opcode_of: "op_byte (opcode_of b) = b"
  by (auto simp: opcode_of_def find_Some_iff split: option.splits)

lemma status_of_eq_OK: "status_of b = ST_OK \<longleftrightarrow> b = 0"
  using st_byte_status_of [of b] by (auto simp: status_of_def statuses_def)

lemma unat_byte_0_iff: "unat (b :: byte) < 1 \<longleftrightarrow> b = 0"
  by (simp add: unat_eq_0)

lemma unat_byte_1_iff: "unat (b :: byte) = 1 \<longleftrightarrow> b = 1"
  by (metis unat_1 word_unat_eq_iff)

section \<open>What the encoders write\<close>

text \<open>
  A buffer whose front has been written, a length-prefixed field, and a whole frame.
\<close>

definition built :: "byte list \<Rightarrow> byte list \<Rightarrow> byte list" where
  "built pre buf = pre @ drop (length pre) buf"

definition field :: "byte list \<Rightarrow> byte list" where
  "field f = word_of_nat (length f) # f"

definition frame :: "ChatOpcode \<Rightarrow> byte list \<Rightarrow> byte list" where
  "frame op payload = op_byte op # word_of_nat (length payload) # payload"

lemma wr_first: "k \<le> length buf \<Longrightarrow> 0 < k \<Longrightarrow> wr buf 0 v = Some (built [v] buf)"
  by (cases buf) (simp_all add: wr_def built_def)

lemma wr_built: "length pre = k \<Longrightarrow> k < length buf \<Longrightarrow> wr (built pre buf) k v = Some (built (pre @ [v]) buf)"
  by (simp add: built_def wr_def update_field)

lemma memcpy_built:
  "length pre = k \<Longrightarrow> k + n \<le> length buf \<Longrightarrow> length src = n \<Longrightarrow>
   memcpy (built pre buf) k src 0 n = Some (built (pre @ src) buf)"
  by (simp add: built_def memcpy_def add.commute)

lemma take_built [simp]: "n = length pre \<Longrightarrow> take n (built pre buf) = pre"
  by (simp add: built_def)

lemma length_built: "length pre \<le> length buf \<Longrightarrow> length (built pre buf) = length buf"
  by (simp add: built_def)

lemma length_field [simp]: "length (field f) = Suc (length f)"
  by (simp add: field_def)

lemma length_frame [simp]: "length (frame op p) = 2 + length p"
  by (simp add: frame_def)

lemma encode_user_pass_layout:
  assumes "CHAT_MAX_MSG_SIZE \<le> length buf"
    and "length u \<le> CHAT_MAX_USERNAME_LEN" "length p \<le> CHAT_MAX_PASSWORD_LEN"
  shows "chat_encode_user_pass_req (Some buf) op (Some u) (Some p) =
    Some (int (length (frame op (field u @ field p))), Some (built (frame op (field u @ field p)) buf))"
  using assms wr_first [of CHAT_MAX_MSG_SIZE buf]
  by (simp add: chat_encode_user_pass_req_def Let_def size_defs wr_built memcpy_built frame_def field_def)

lemma encode_groupname_layout:
  assumes "CHAT_MAX_MSG_SIZE \<le> length buf" and "length g \<le> CHAT_MAX_GROUPNAME_LEN"
  shows "chat_encode_groupname_req (Some buf) op (Some g) =
    Some (int (length (frame op (field g))), Some (built (frame op (field g)) buf))"
  using assms wr_first [of CHAT_MAX_MSG_SIZE buf]
  by (simp add: chat_encode_groupname_req_def Let_def size_defs wr_built memcpy_built frame_def field_def)

lemma encode_status_layout:
  assumes "CHAT_MAX_MSG_SIZE \<le> length buf"
  shows "chat_encode_status_rep (Some buf) op st = Some (3, Some (built (frame op [st_byte st]) buf))"
  using assms wr_first [of CHAT_MAX_MSG_SIZE buf]
  by (simp add: chat_encode_status_rep_def size_defs wr_built memcpy_built frame_def)

lemma encode_logout_layout:
  assumes "CHAT_MAX_MSG_SIZE \<le> length buf"
  shows "chat_encode_logout_req (Some buf) = Some (2, Some (built (frame OP_LOGOUT_REQ []) buf))"
  using assms wr_first [of CHAT_MAX_MSG_SIZE buf]
  by (simp add: chat_encode_logout_req_def size_defs wr_built memcpy_built frame_def)

definition port_bytes :: "u16 \<Rightarrow> byte list" where
  "port_bytes p = [ucast (drop_bit 8 p), ucast (p AND 0xFF)]"

lemma encode_group_rep_layout:
  assumes "CHAT_MAX_MSG_SIZE \<le> length buf" and "length ip < CHAT_MAX_IP_STR_LEN"
  shows "chat_encode_group_rep_ok (Some buf) op (Some ip) port =
    (let fr = frame op (st_byte ST_OK # field ip @ field (port_bytes port))
     in Some (int (length fr), Some (built fr buf)))"
  using assms wr_first [of CHAT_MAX_MSG_SIZE buf]
  by (simp add: chat_encode_group_rep_ok_def Let_def size_defs wr_built memcpy_built frame_def field_def port_bytes_def)

lemma port_bytes_join:
  "(push_bit 8 (ucast (ucast (drop_bit 8 p) :: byte)) OR ucast (ucast (p AND 0xFF) :: byte) :: u16) = p"
proof -
  have "p AND 0xFF = take_bit 8 p"
    by (simp add: take_bit_eq_mask mask_eq_exp_minus_1)
  then show ?thesis
    by (intro bit_word_eqI) (auto simp: bit_simps)
qed

lemma word_of_nat_byte_eq: "n < 256 \<Longrightarrow> m < 256 \<Longrightarrow> (word_of_nat n :: byte) = word_of_nat m \<longleftrightarrow> n = m"
  by (metis unat_of_nat_byte)

lemma byte_length_0: "n < 256 \<Longrightarrow> (word_of_nat n :: byte) = 0 \<longleftrightarrow> n = 0"
  using word_of_nat_byte_eq [of n 0] by simp

lemma byte_length_1: "n < 256 \<Longrightarrow> (word_of_nat n :: byte) = 1 \<longleftrightarrow> n = 1"
  using word_of_nat_byte_eq [of n 1] by simp

lemma frame_parts:
  "frame op pl ! 0 = op_byte op" "frame op pl ! Suc 0 = word_of_nat (length pl)"
  "frame op (c # r) ! 2 = c"
  "drop 2 (frame op pl) = pl" "drop 3 (frame op (c # r)) = r"
  by (simp_all add: frame_def)

lemma frame_ok_frame: "length pl < 256 \<Longrightarrow> frame_ok (frame op pl)"
  by (simp add: frame_ok_def frame_def)

lemma take_field_field:
  assumes "length f \<le> mx" "mx < 256"
  shows "take_field mx (field f @ r) = Some (f, r)" "take_field mx (field f) = Some (f, [])"
  using assms by (simp_all add: take_field_def field_def)

lemmas parse_frame_simps =
  frame_ok_frame frame_parts take_field_field byte_length_0 byte_length_1 size_defs

lemma parse_user_pass_frame:
  "length u \<le> CHAT_MAX_USERNAME_LEN \<Longrightarrow> length p \<le> CHAT_MAX_PASSWORD_LEN \<Longrightarrow>
   parse_user_pass (frame op (field u @ field p)) = Some (u, p)"
  by (simp add: parse_user_pass_def parse_frame_simps)

lemma parse_groupname_frame:
  "length g \<le> CHAT_MAX_GROUPNAME_LEN \<Longrightarrow> parse_groupname (frame op (field g)) = Some g"
  by (simp add: parse_groupname_def parse_frame_simps del: of_nat_Suc)

lemma parse_group_rep_frame:
  "length ip < CHAT_MAX_IP_STR_LEN \<Longrightarrow>
   parse_group_rep (frame op (st_byte ST_OK # field ip @ field (port_bytes port))) = Some (ST_OK, ip, port)"
  by (simp add: parse_group_rep_def parse_frame_simps port_bytes_def port_bytes_join del: of_nat_Suc of_nat_add)

lemma parse_group_rep_status:
  "st \<in> set statuses \<Longrightarrow> parse_group_rep (frame op [st_byte st]) = Some (st, [], 0)"
  by (simp add: parse_group_rep_def parse_frame_simps status_of_st_byte)
section \<open>The decoders compute the reference parsers\<close>

lemma decode_user_pass_ref:
  assumes "n \<le> length b" "CHAT_MAX_USERNAME_LEN < length ou" "CHAT_MAX_PASSWORD_LEN < length op"
  shows "case parse_user_pass (take n b) of
      Some (u, p) \<Rightarrow> chat_decode_user_pass (Some b) n (Some ou) (Some op) =
        Some (0, Some (u @ 0 # drop (Suc (length u)) ou), Some (p @ 0 # drop (Suc (length p)) op))
    | None \<Rightarrow> \<exists>ou'. length ou' = length ou \<and>
        chat_decode_user_pass (Some b) n (Some ou) (Some op) = Some (-1, Some ou', Some op)"
  using assms
  by (auto simp: parse_user_pass_def frame_ok_take take_field_window chat_decode_user_pass_def Let_def array_simps size_defs)

lemma decode_groupname_ref:
  assumes "n \<le> length b" "CHAT_MAX_GROUPNAME_LEN < length og"
  shows "chat_decode_groupname (Some b) n (Some og) =
    (case parse_groupname (take n b) of
      Some g \<Rightarrow> Some (0, Some (g @ 0 # drop (Suc (length g)) og))
    | None \<Rightarrow> Some (-1, Some og))"
proof -
  have "b ! 1 \<noteq> 0 \<longleftrightarrow> 0 < unat (b ! 1)"
    by (simp add: unat_gt_0)
  with assms show ?thesis
  by (auto simp: parse_groupname_def frame_ok_take take_field_window chat_decode_groupname_def Let_def array_simps size_defs)
qed

lemma decode_group_rep_ref:
  assumes "n \<le> length b" "CHAT_MAX_IP_STR_LEN \<le> length oi"
  shows "case parse_group_rep (take n b) of
      Some (st, ip, port) \<Rightarrow> chat_decode_group_rep_ok (Some b) n (Some st0) (Some oi) (Some pt0) =
         Some (0, Some st, Some (ip @ 0 # drop (Suc (length ip)) oi), Some port)
    | None \<Rightarrow> \<exists>st' oi'. length oi' = length oi \<and>
        chat_decode_group_rep_ok (Some b) n (Some st0) (Some oi) (Some pt0) =
         Some (-1, Some st', Some oi', Some pt0)"
proof -
  have pos: "b ! 1 \<noteq> 0 \<longleftrightarrow> 0 < unat (b ! 1)"
    by (simp add: unat_gt_0)
  have one: "unat (b ! 1) = 1 \<longleftrightarrow> b ! 1 = 1"
    by (rule unat_byte_1_iff)
  have oi: "oi[0 := 0] = 0 # drop 1 oi" "0 < length oi"
    using assms(2) by (cases oi; simp add: size_defs)+
  from assms pos one oi show ?thesis
    by (auto simp: parse_group_rep_def frame_ok_take take_field_window chat_decode_group_rep_ok_def
        Let_def array_simps size_defs status_of_eq_OK)
qed
section \<open>Safety on every input\<close>

lemma rd_take: "i < n \<Longrightarrow> rd (take n b) i = rd b i"
  by (auto simp: rd_def)

lemma memcpy_take: "s + k \<le> n \<Longrightarrow> memcpy d p (take n b) s k = memcpy d p b s k"
  by (auto simp: memcpy_def take_drop min_def)

lemma decoders_window:
  "chat_decode_user_pass (Some (take n b)) n ou pw = chat_decode_user_pass (Some b) n ou pw"
  "chat_decode_groupname (Some (take n b)) n og = chat_decode_groupname (Some b) n og"
  "chat_decode_status_rep (Some (take n b)) n st = chat_decode_status_rep (Some b) n st"
  "chat_decode_group_rep_ok (Some (take n b)) n st oi pt = chat_decode_group_rep_ok (Some b) n st oi pt"
  by (auto simp: chat_decode_user_pass_def chat_decode_groupname_def chat_decode_status_rep_def
      chat_decode_group_rep_ok_def Let_def rd_take memcpy_take intro!: Option.bind_cong)

lemma parse_lengths:
  "parse_user_pass fr = Some (u, p) \<Longrightarrow> length u \<le> CHAT_MAX_USERNAME_LEN"
  "parse_user_pass fr = Some (u, p) \<Longrightarrow> length p \<le> CHAT_MAX_PASSWORD_LEN"
  "parse_groupname fr = Some g \<Longrightarrow> length g \<le> CHAT_MAX_GROUPNAME_LEN"
  by (auto simp: parse_user_pass_def parse_groupname_def split: if_splits Option.bind_splits
      intro: take_field_length)

lemma parse_group_rep_length:
  "parse_group_rep fr = Some (st, ip, pt) \<Longrightarrow> length ip < CHAT_MAX_IP_STR_LEN"
  by (auto simp: parse_group_rep_def size_defs split: if_splits Option.bind_splits
      dest!: take_field_length)

text \<open>
  C32: on every byte sequence the four decoders stay inside their buffers, return 0 or -1, and do
  not depend on bytes at or after \<open>buf_len\<close>: run on the buffer cut at \<open>buf_len\<close>, where reading
  further would fail, they give the same result.
\<close>

theorem decoders_safe:
  assumes "n \<le> length b" and "CHAT_MAX_USERNAME_LEN < length ou" and "CHAT_MAX_PASSWORD_LEN < length pw"
    and "CHAT_MAX_GROUPNAME_LEN < length og" and "CHAT_MAX_IP_STR_LEN \<le> length oi"
  shows "(\<exists>r ou' pw'. chat_decode_user_pass (Some (take n b)) n (Some ou) (Some pw) = Some (r, Some ou', Some pw') \<and>
        chat_decode_user_pass (Some b) n (Some ou) (Some pw) = Some (r, Some ou', Some pw') \<and>
        r \<in> {0, -1} \<and> length ou' = length ou \<and> length pw' = length pw) \<and>
    (\<exists>r og'. chat_decode_groupname (Some (take n b)) n (Some og) = Some (r, Some og') \<and>
        chat_decode_groupname (Some b) n (Some og) = Some (r, Some og') \<and>
        r \<in> {0, -1} \<and> length og' = length og) \<and>
    (\<exists>r st'. chat_decode_status_rep (Some (take n b)) n (Some st) = Some (r, Some st') \<and>
        chat_decode_status_rep (Some b) n (Some st) = Some (r, Some st') \<and> r \<in> {0, -1}) \<and>
    (\<exists>r st' oi' pt'. chat_decode_group_rep_ok (Some (take n b)) n (Some st) (Some oi) (Some pt) =
          Some (r, Some st', Some oi', Some pt') \<and>
        chat_decode_group_rep_ok (Some b) n (Some st) (Some oi) (Some pt) =
          Some (r, Some st', Some oi', Some pt') \<and> r \<in> {0, -1} \<and> length oi' = length oi)"
    (is "?up \<and> ?gn \<and> ?st \<and> ?gr")
proof (intro conjI)
  show ?up
  proof (cases "parse_user_pass (take n b)")
    case None
    then show ?thesis using decode_user_pass_ref [OF assms(1-3)] by (auto simp: decoders_window)
  next
    case (Some a)
    then show ?thesis using decode_user_pass_ref [OF assms(1-3)] assms(2,3)
      by (cases a) (auto simp: decoders_window dest: parse_lengths)
  qed
  show ?gn
  proof (cases "parse_groupname (take n b)")
    case None
    then show ?thesis using decode_groupname_ref [OF assms(1,4)] by (simp add: decoders_window)
  next
    case (Some g)
    then show ?thesis using decode_groupname_ref [OF assms(1,4)] assms(4) parse_lengths(3) [OF Some]
      by (simp add: decoders_window)
  qed
  show ?st
    using assms(1) by (auto simp: decoders_window chat_decode_status_rep_def array_simps)
  show ?gr
  proof (cases "parse_group_rep (take n b)")
    case None
    then show ?thesis using decode_group_rep_ref [OF assms(1,5), of st pt] by (auto simp: decoders_window)
  next
    case (Some a)
    then show ?thesis using decode_group_rep_ref [OF assms(1,5), of st pt] assms(5)
      by (cases a) (auto simp: decoders_window dest: parse_group_rep_length)
  qed
qed

theorem decoders_safe_witness:
  "(\<exists>r ou' pw'. chat_decode_user_pass (Some (take 10 [1, 8, 200, 0, 0, 0, 0, 0, 0, 0, 7])) 10
          (Some (replicate 33 0)) (Some (replicate 33 0)) = Some (r, Some ou', Some pw') \<and>
        chat_decode_user_pass (Some [1, 8, 200, 0, 0, 0, 0, 0, 0, 0, 7]) 10
          (Some (replicate 33 0)) (Some (replicate 33 0)) = Some (r, Some ou', Some pw') \<and>
        r \<in> {0, -1} \<and> length ou' = length (replicate 33 (0::byte)) \<and>
        length pw' = length (replicate 33 (0::byte)))"
  using decoders_safe [of 10 "[1, 8, 200, 0, 0, 0, 0, 0, 0, 0, 7]" "replicate 33 0" "replicate 33 0"
      "replicate 33 0" "replicate 16 0" ST_OK 0]
  by (simp add: size_defs)


section \<open>Round trips\<close>

lemma decode_status_frame:
  "CHAT_MAX_MSG_SIZE \<le> length buf \<Longrightarrow> st \<in> set statuses \<Longrightarrow>
   chat_decode_status_rep (Some (built (frame op [st_byte st]) buf)) 3 (Some st0) = Some (0, Some st)"
  by (simp add: chat_decode_status_rep_def rd_def built_def frame_def status_of_st_byte)

text \<open>
  C33: a REG or LOGIN request that is encoded and then decoded gives back the user name and the
  password, for all strings that fit the protocol's limits.
\<close>

theorem user_pass_roundtrip:
  assumes "wf_cstring u" "length u \<le> CHAT_MAX_USERNAME_LEN"
    and "wf_cstring p" "length p \<le> CHAT_MAX_PASSWORD_LEN"
    and "CHAT_MAX_MSG_SIZE \<le> length buf"
    and "CHAT_MAX_USERNAME_LEN < length ou" "CHAT_MAX_PASSWORD_LEN < length pw"
  shows "\<exists>n buf' ou' pw'.
      chat_encode_user_pass_req (Some buf) op (Some u) (Some p) = Some (int n, Some buf') \<and>
      n \<le> CHAT_MAX_MSG_SIZE \<and>
      chat_decode_user_pass (Some buf') n (Some ou) (Some pw) = Some (0, Some ou', Some pw') \<and>
      cstr ou' = Some u \<and> cstr pw' = Some p"
proof -
  let ?fr = "frame op (field u @ field p)"
  have "length ?fr \<le> length (built ?fr buf)" "length ?fr \<le> CHAT_MAX_MSG_SIZE"
    using assms by (auto simp: length_built size_defs)
  then show ?thesis
    using assms decode_user_pass_ref [of "length ?fr" "built ?fr buf" ou pw]
    by (auto simp: encode_user_pass_layout parse_user_pass_frame cstr_terminated simp del: length_frame)
qed

theorem user_pass_roundtrip_witness:
  "\<exists>n buf' ou' pw'.
      chat_encode_user_pass_req (Some (replicate 257 0)) OP_REG_REQ (Some (bytes_of ''alice'')) (Some (bytes_of ''s3cret''))
        = Some (int n, Some buf') \<and>
      n \<le> CHAT_MAX_MSG_SIZE \<and>
      chat_decode_user_pass (Some buf') n (Some (replicate 33 0)) (Some (replicate 33 0)) = Some (0, Some ou', Some pw') \<and>
      cstr ou' = Some (bytes_of ''alice'') \<and> cstr pw' = Some (bytes_of ''s3cret'')"
  by (rule user_pass_roundtrip) (simp_all add: size_defs wf_cstring_def bytes_of_def)

text \<open>
  A CREATE, JOIN or LEAVE request that is encoded and then decoded gives back the group name.
\<close>

theorem groupname_roundtrip:
  assumes "wf_cstring g" "length g \<le> CHAT_MAX_GROUPNAME_LEN"
    and "CHAT_MAX_MSG_SIZE \<le> length buf" "CHAT_MAX_GROUPNAME_LEN < length og"
  shows "\<exists>n buf' og'.
      chat_encode_groupname_req (Some buf) op (Some g) = Some (int n, Some buf') \<and>
      n \<le> CHAT_MAX_MSG_SIZE \<and>
      chat_decode_groupname (Some buf') n (Some og) = Some (0, Some og') \<and> cstr og' = Some g"
proof -
  let ?fr = "frame op (field g)"
  have "length ?fr \<le> length (built ?fr buf)" "length ?fr \<le> CHAT_MAX_MSG_SIZE"
    using assms by (auto simp: length_built size_defs)
  then show ?thesis
    using assms decode_groupname_ref [of "length ?fr" "built ?fr buf" og]
    by (auto simp: encode_groupname_layout parse_groupname_frame cstr_terminated simp del: length_frame)
qed

text \<open>
  A success reply to CREATE or JOIN carries the multicast address and the 16-bit port in
  big-endian order; decoding it gives back both, with status OK.
\<close>

theorem group_rep_roundtrip:
  assumes "wf_cstring ip" "length ip < CHAT_MAX_IP_STR_LEN"
    and "CHAT_MAX_MSG_SIZE \<le> length buf" "CHAT_MAX_IP_STR_LEN \<le> length oi"
  shows "\<exists>n buf' oi'.
      chat_encode_group_rep_ok (Some buf) op (Some ip) port = Some (int n, Some buf') \<and>
      n \<le> CHAT_MAX_MSG_SIZE \<and>
      chat_decode_group_rep_ok (Some buf') n (Some st0) (Some oi) (Some port0) =
        Some (0, Some ST_OK, Some oi', Some port) \<and> cstr oi' = Some ip"
proof -
  let ?fr = "frame op (st_byte ST_OK # field ip @ field (port_bytes port))"
  have "length ?fr \<le> length (built ?fr buf)" "length ?fr \<le> CHAT_MAX_MSG_SIZE"
    using assms by (auto simp: length_built size_defs port_bytes_def)
  then show ?thesis
    using assms decode_group_rep_ref [of "length ?fr" "built ?fr buf" oi st0 port0]
    by (auto simp: encode_group_rep_layout parse_group_rep_frame cstr_terminated Let_def
        simp del: length_frame st_byte.simps)
qed

text \<open>
  A status reply is the three bytes opcode, 1, status: the status is the whole payload,
  with no length byte of its own. Both reply decoders accept it and return the status; the
  decoder for group replies then yields the empty address and port 0.
\<close>

theorem status_rep_roundtrip:
  assumes "st \<in> set statuses" "CHAT_MAX_MSG_SIZE \<le> length buf" "CHAT_MAX_IP_STR_LEN \<le> length oi"
  shows "\<exists>buf'. chat_encode_status_rep (Some buf) op st = Some (3, Some buf') \<and>
      take 3 buf' = [op_byte op, 1, st_byte st] \<and>
      chat_decode_status_rep (Some buf') 3 (Some st0) = Some (0, Some st) \<and>
      chat_decode_group_rep_ok (Some buf') 3 (Some st0) (Some oi) (Some port0) =
        Some (0, Some st, Some (0 # drop 1 oi), Some 0)"
proof -
  let ?fr = "frame op [st_byte st]"
  have "3 \<le> length (built ?fr buf)" "take 3 (built ?fr buf) = ?fr"
    using assms by (auto simp: length_built size_defs)
  then show ?thesis
    using assms decode_group_rep_ref [of 3 "built ?fr buf" oi st0 port0] 
    by (auto simp: encode_status_layout parse_group_rep_status decode_status_frame) (simp add: frame_def)
qed
end
