(* ===== verification/Gen_Queue.thy ===== *)
theory Gen_Queue
  imports Chat_Prelude
begin

text \<open>
  The generic queue of \<^verbatim>\<open>shared/adt/genqueue.h\<close> and \<^verbatim>\<open>shared/adt/genqueue.c\<close>: a circular
  buffer of \<open>void*\<close> items with head and tail indices and a magic number.

  A queue pointer is a \<open>Queue option\<close>, \<open>None\<close> being NULL; items are addresses. The indices stay
  below \<open>m_size\<close>, which is less than \<open>2 ^ 64\<close>, so naturals represent them exactly; the byte count
  of the allocation in \<open>QueueCreate\<close> is where \<open>size_t\<close> can wrap around, and it is written out.

  The locale \<open>bounded_queue\<close> is the contract a client relies on: a FIFO list of bounded length.
  It is interpreted on the circular buffer.
\<close>

section \<open>The data structure\<close>

datatype QueueResult =
    QUEUE_SUCCESS | QUEUE_UNINITIALIZED_ERROR | QUEUE_OVERFLOW_ERROR
  | QUEUE_DATA_NOT_FOUND_ERROR | QUEUE_DATA_UNINITIALIZED_ERROR

definition QUEUE_MAGIC_NUMBER :: u32 where
  "QUEUE_MAGIC_NUMBER = 0xBEEFCAFE"

record Queue =
  m_items :: "addr list"
  m_size :: nat
  m_head :: nat
  m_tail :: nat
  m_numOfElements :: nat
  m_magic :: u32

text \<open>
  \<open>al 0\<close> and \<open>al 1\<close> say whether the two allocations succeed. The array has as many slots as
  the requested number of bytes, \<open>_size * sizeof(void*)\<close> modulo \<open>2 ^ 64\<close>, holds.
\<close>

definition QueueCreate :: "(nat \<Rightarrow> bool) \<Rightarrow> nat \<Rightarrow> Queue option" where
  "QueueCreate al sz =
     (if sz = 0 then None
      else if \<not> al 0 then None
      else if \<not> al 1 then None
      else Some \<lparr>m_items = replicate ((sz * 8) mod 2 ^ 64 div 8) NULL, m_size = sz,
                 m_head = 0, m_tail = 0, m_numOfElements = 0, m_magic = QUEUE_MAGIC_NUMBER\<rparr>)"

text \<open>
  The loop of \<open>QueueDestroy\<close> over the remaining elements; the result is the sequence of items
  handed to the destroy callback.
\<close>

fun destroy_items :: "nat \<Rightarrow> addr list \<Rightarrow> nat \<Rightarrow> nat \<Rightarrow> addr list option" where
  "destroy_items 0 items sz idx = Some []"
| "destroy_items (Suc k) items sz idx = do {
     x \<leftarrow> rd items idx;
     xs \<leftarrow> destroy_items k items sz ((idx + 1) mod sz);
     Some (x # xs)
   }"

text \<open>
  The outer \<open>option\<close> of the argument is the pointer to the queue pointer. Afterwards the queue
  pointer is NULL, unless the call was refused.
\<close>

definition QueueDestroy :: "Queue option option \<Rightarrow> bool \<Rightarrow> (addr list \<times> Queue option option) option" where
  "QueueDestroy q itemDestroy =
     (case q of None \<Rightarrow> Some ([], q)
      | Some None \<Rightarrow> Some ([], q)
      | Some (Some qu) \<Rightarrow>
          if m_magic qu \<noteq> QUEUE_MAGIC_NUMBER then Some ([], q)
          else do {
            xs \<leftarrow> (if itemDestroy then destroy_items (m_numOfElements qu) (m_items qu) (m_size qu) (m_head qu)
                  else Some []);
            Some (xs, Some None)
          })"

definition QueueInsert :: "Queue option \<Rightarrow> addr \<Rightarrow> (QueueResult \<times> Queue option) option" where
  "QueueInsert q item =
     (case q of None \<Rightarrow> Some (QUEUE_UNINITIALIZED_ERROR, q)
      | Some qu \<Rightarrow>
          if m_magic qu \<noteq> QUEUE_MAGIC_NUMBER then Some (QUEUE_UNINITIALIZED_ERROR, q)
          else if item = NULL then Some (QUEUE_DATA_UNINITIALIZED_ERROR, q)
          else if m_numOfElements qu = m_size qu then Some (QUEUE_OVERFLOW_ERROR, q)
          else do {
            items \<leftarrow> wr (m_items qu) (m_tail qu) item;
            Some (QUEUE_SUCCESS,
              Some (qu\<lparr>m_items := items, m_tail := (m_tail qu + 1) mod m_size qu,
                       m_numOfElements := m_numOfElements qu + 1\<rparr>))
          })"

text \<open>The out parameter \<open>_item\<close> is \<open>None\<close> when the pointer is NULL.\<close>

definition QueueRemove :: "Queue option \<Rightarrow> addr option \<Rightarrow> (QueueResult \<times> addr option \<times> Queue option) option" where
  "QueueRemove q item =
     (case q of None \<Rightarrow> Some (QUEUE_UNINITIALIZED_ERROR, item, q)
      | Some qu \<Rightarrow>
          if m_magic qu \<noteq> QUEUE_MAGIC_NUMBER then Some (QUEUE_UNINITIALIZED_ERROR, item, q)
          else if item = None then Some (QUEUE_DATA_UNINITIALIZED_ERROR, item, q)
          else if m_numOfElements qu = 0 then Some (QUEUE_DATA_NOT_FOUND_ERROR, item, q)
          else do {
            x \<leftarrow> rd (m_items qu) (m_head qu);
            Some (QUEUE_SUCCESS, Some x,
              Some (qu\<lparr>m_head := (m_head qu + 1) mod m_size qu,
                       m_numOfElements := m_numOfElements qu - 1\<rparr>))
          })"

definition QueueIsEmpty :: "Queue option \<Rightarrow> nat" where
  "QueueIsEmpty q =
     (case q of None \<Rightarrow> 1
      | Some qu \<Rightarrow> if m_magic qu \<noteq> QUEUE_MAGIC_NUMBER then 1
                   else if m_numOfElements qu = 0 then 1 else 0)"

text \<open>The loop of \<open>QueueForEach\<close>: the action threads a context and stops the loop by returning 0.\<close>

fun each_items ::
  "nat \<Rightarrow> addr list \<Rightarrow> nat \<Rightarrow> nat \<Rightarrow> (addr \<Rightarrow> 's \<Rightarrow> int \<times> 's) \<Rightarrow> 's \<Rightarrow> nat \<Rightarrow> (nat \<times> 's) option"
where
  "each_items 0 items sz idx act ctx count = Some (count, ctx)"
| "each_items (Suc k) items sz idx act ctx count = do {
     x \<leftarrow> rd items idx;
     let (r, ctx') = act x ctx;
     if r = 0 then Some (count + 1, ctx')
     else each_items k items sz ((idx + 1) mod sz) act ctx' (count + 1)
   }"

definition QueueForEach ::
  "Queue option \<Rightarrow> (addr \<Rightarrow> 's \<Rightarrow> int \<times> 's) option \<Rightarrow> 's \<Rightarrow> (nat \<times> 's) option"
where
  "QueueForEach q act ctx =
     (case q of None \<Rightarrow> Some (0, ctx)
      | Some qu \<Rightarrow>
          if m_magic qu \<noteq> QUEUE_MAGIC_NUMBER \<or> act = None then Some (0, ctx)
          else each_items (m_numOfElements qu) (m_items qu) (m_size qu) (m_head qu) (the act) ctx 0)"

section \<open>Abstraction and invariant\<close>

text \<open>The elements from the head on, and what every operation keeps true of the indices.\<close>

definition q_list :: "Queue \<Rightarrow> addr list" where
  "q_list q = map (\<lambda>i. m_items q ! ((m_head q + i) mod m_size q)) [0..<m_numOfElements q]"

definition q_inv :: "Queue \<Rightarrow> bool" where
  "q_inv q \<longleftrightarrow> 0 < m_size q \<and> length (m_items q) = m_size q \<and> m_head q < m_size q \<and>
     m_tail q = (m_head q + m_numOfElements q) mod m_size q \<and> m_numOfElements q \<le> m_size q \<and>
     m_magic q = QUEUE_MAGIC_NUMBER \<and> NULL \<notin> set (q_list q)"

lemma length_q_list [simp]: "length (q_list q) = m_numOfElements q"
  by (simp add: q_list_def)

lemma q_list_nth: "i < m_numOfElements q \<Longrightarrow> q_list q ! i = m_items q ! ((m_head q + i) mod m_size q)"
  by (simp add: q_list_def)

lemma ring_index_neq:
  fixes h :: nat
  assumes "i < n" "n < s"
  shows "(h + i) mod s \<noteq> (h + n) mod s"
proof
  assume "(h + i) mod s = (h + n) mod s"
  then have "s dvd (h + n) - (h + i)"
    using assms(1) by (metis add_le_cancel_left less_imp_le mod_eq_dvd_iff_nat)
  then show False
    using assms by (auto dest: dvd_imp_le)
qed

lemma q_create:
  assumes "0 < n" "n < 2 ^ 61" "al 0" "al 1"
  obtains q where "QueueCreate al n = Some q" "q_inv q" "q_list q = []" "m_size q = n"
proof -
  have "(n * 8) mod 2 ^ 64 div 8 = n"
    using assms(2) by simp
  then show thesis
    using assms that by (simp add: QueueCreate_def q_inv_def q_list_def)
qed

lemma q_insert_full:
  "q_inv q \<Longrightarrow> x \<noteq> NULL \<Longrightarrow> length (q_list q) = m_size q \<Longrightarrow>
   QueueInsert (Some q) x = Some (QUEUE_OVERFLOW_ERROR, Some q)"
  by (simp add: QueueInsert_def q_inv_def)

lemma q_insert:
  assumes "q_inv q" "x \<noteq> NULL" "length (q_list q) < m_size q"
  obtains q' where "QueueInsert (Some q) x = Some (QUEUE_SUCCESS, Some q')"
    "q_inv q'" "q_list q' = q_list q @ [x]" "m_size q' = m_size q"
proof -
  let ?t = "(m_head q + m_numOfElements q) mod m_size q"
  let ?q' = "q\<lparr>m_items := (m_items q)[?t := x], m_tail := (?t + 1) mod m_size q,
               m_numOfElements := m_numOfElements q + 1\<rparr>"
  have t: "?t < length (m_items q)" "m_tail q = ?t"
    using assms by (auto simp: q_inv_def)
  have list: "q_list ?q' = q_list q @ [x]"
  proof (rule nth_equalityI)
    fix i assume "i < length (q_list ?q')"
    then show "q_list ?q' ! i = (q_list q @ [x]) ! i"
      using t(1) ring_index_neq [of i "m_numOfElements q" "m_size q" "m_head q"] assms(3)
      by (auto simp: q_list_nth nth_append less_Suc_eq)
  qed simp
  have "q_inv ?q'"
    using assms list by (auto simp: q_inv_def mod_Suc_eq)
  moreover have "QueueInsert (Some q) x = Some (QUEUE_SUCCESS, Some ?q')"
    using assms t by (simp add: QueueInsert_def q_inv_def wr_def)
  ultimately show thesis
    using that list by simp
qed

lemma q_remove_empty:
  "q_inv q \<Longrightarrow> q_list q = [] \<Longrightarrow>
   QueueRemove (Some q) (Some d) = Some (QUEUE_DATA_NOT_FOUND_ERROR, Some d, Some q)"
  by (simp add: QueueRemove_def q_inv_def q_list_def)

lemma q_remove:
  assumes "q_inv q" "q_list q = x # xs"
  obtains q' where "QueueRemove (Some q) (Some d) = Some (QUEUE_SUCCESS, Some x, Some q')"
    "q_inv q'" "q_list q' = xs" "m_size q' = m_size q"
proof -
  let ?q' = "q\<lparr>m_head := (m_head q + 1) mod m_size q, m_numOfElements := m_numOfElements q - 1\<rparr>"
  have n: "m_numOfElements q = Suc (length xs)"
    using assms(2) length_q_list [of q] by simp
  have x: "x = m_items q ! m_head q"
    using assms q_list_nth [of 0 q] n by (simp add: q_inv_def)
  have list: "q_list ?q' = xs"
  proof (rule nth_equalityI)
    fix i assume "i < length (q_list ?q')"
    then show "q_list ?q' ! i = xs ! i"
      using n q_list_nth [of "Suc i" q] assms(2) by (simp add: q_list_nth mod_add_left_eq)
  qed (simp add: n)
  have "q_inv ?q'"
    using assms list n by (simp add: q_inv_def mod_add_left_eq)
  moreover have "QueueRemove (Some q) (Some d) = Some (QUEUE_SUCCESS, Some x, Some ?q')"
    using assms x n by (simp add: QueueRemove_def q_inv_def rd_def)
  ultimately show thesis
    using that list by simp
qed

text \<open>The loops that walk the buffer visit the elements in queue order.\<close>

lemma ring_walk_Cons:
  "map (\<lambda>i. items ! ((idx + i) mod sz)) [0..<Suc k] =
     items ! (idx mod sz) # map (\<lambda>i. items ! (((idx + 1) mod sz + i) mod sz)) [0..<k]"
  by (simp add: upt_conv_Cons map_Suc_upt [symmetric] mod_add_left_eq del: upt_Suc)

lemma destroy_items_walk:
  "length items = sz \<Longrightarrow> idx < sz \<Longrightarrow>
   destroy_items k items sz idx = Some (map (\<lambda>i. items ! ((idx + i) mod sz)) [0..<k])"
  by (induction k arbitrary: idx) (simp_all add: ring_walk_Cons rd_def del: upt_Suc)

fun each_list :: "(addr \<Rightarrow> 's \<Rightarrow> int \<times> 's) \<Rightarrow> 's \<Rightarrow> nat \<Rightarrow> addr list \<Rightarrow> nat \<times> 's" where
  "each_list act ctx count [] = (count, ctx)"
| "each_list act ctx count (x # xs) =
     (let (r, ctx') = act x ctx
      in if r = 0 then (count + 1, ctx') else each_list act ctx' (count + 1) xs)"

lemma each_items_walk:
  "length items = sz \<Longrightarrow> idx < sz \<Longrightarrow>
   each_items k items sz idx act ctx count =
     Some (each_list act ctx count (map (\<lambda>i. items ! ((idx + i) mod sz)) [0..<k]))"
  by (induction k arbitrary: idx ctx count)
    (simp_all add: ring_walk_Cons rd_def split_def Let_def del: upt_Suc)

section \<open>The contract\<close>

locale bounded_queue =
  fixes ins :: "'q \<Rightarrow> addr \<Rightarrow> (QueueResult \<times> 'q) option"
    and rem :: "'q \<Rightarrow> addr \<Rightarrow> (QueueResult \<times> addr \<times> 'q) option"
    and invar :: "'q \<Rightarrow> bool"
    and list :: "'q \<Rightarrow> addr list"
    and cap :: "'q \<Rightarrow> nat"
  assumes ins_room: "invar q \<Longrightarrow> x \<noteq> NULL \<Longrightarrow> length (list q) < cap q \<Longrightarrow>
      \<exists>q'. ins q x = Some (QUEUE_SUCCESS, q') \<and> invar q' \<and> list q' = list q @ [x] \<and> cap q' = cap q"
    and ins_full: "invar q \<Longrightarrow> x \<noteq> NULL \<Longrightarrow> length (list q) = cap q \<Longrightarrow>
      ins q x = Some (QUEUE_OVERFLOW_ERROR, q)"
    and rem_first: "invar q \<Longrightarrow> list q = x # xs \<Longrightarrow>
      \<exists>q'. rem q d = Some (QUEUE_SUCCESS, x, q') \<and> invar q' \<and> list q' = xs \<and> cap q' = cap q"
    and rem_none: "invar q \<Longrightarrow> list q = [] \<Longrightarrow> rem q d = Some (QUEUE_DATA_NOT_FOUND_ERROR, d, q)"
    and list_bound: "invar q \<Longrightarrow> length (list q) \<le> cap q"
    and list_nonnull: "invar q \<Longrightarrow> NULL \<notin> set (list q)"
begin

lemma ins_total:
  "invar q \<Longrightarrow> x \<noteq> NULL \<Longrightarrow>
   \<exists>q'. ins q x = Some (if length (list q) < cap q then QUEUE_SUCCESS else QUEUE_OVERFLOW_ERROR, q') \<and>
     invar q' \<and> cap q' = cap q \<and>
     list q' = (if length (list q) < cap q then list q @ [x] else list q)"
  using ins_room [of q x] ins_full [of q x] list_bound [of q] by (auto simp: le_less)

lemma rem_total:
  "invar q \<Longrightarrow>
   \<exists>r y q'. rem q d = Some (r, y, q') \<and> invar q' \<and> cap q' = cap q \<and>
     (case list q of
        [] \<Rightarrow> r = QUEUE_DATA_NOT_FOUND_ERROR \<and> y = d \<and> list q' = []
      | x # xs \<Rightarrow> r = QUEUE_SUCCESS \<and> y = x \<and> list q' = xs)"
  using rem_first [of q _ _ d] rem_none [of q d] by (cases "list q") fastforce+

text \<open>An item that goes into an empty queue is the next one out.\<close>

lemma ins_rem_empty:
  "invar q \<Longrightarrow> list q = [] \<Longrightarrow> x \<noteq> NULL \<Longrightarrow> 0 < cap q \<Longrightarrow>
   \<exists>q' q''. ins q x = Some (QUEUE_SUCCESS, q') \<and> rem q' d = Some (QUEUE_SUCCESS, x, q'') \<and> list q'' = []"
proof -
  assume q: "invar q" "list q = []" "x \<noteq> NULL" "0 < cap q"
  then obtain q' where "ins q x = Some (QUEUE_SUCCESS, q')" "invar q'" "list q' = [x]"
    using ins_room [of q x] by auto
  then show ?thesis
    using rem_first [of q' x "[]" d] by auto
qed

end

text \<open>The operations on a queue that exists, with the pointers resolved.\<close>

definition q_ins :: "Queue \<Rightarrow> addr \<Rightarrow> (QueueResult \<times> Queue) option" where
  "q_ins q x = do { (r, q') \<leftarrow> QueueInsert (Some q) x; q'' \<leftarrow> q'; Some (r, q'') }"

definition q_rem :: "Queue \<Rightarrow> addr \<Rightarrow> (QueueResult \<times> addr \<times> Queue) option" where
  "q_rem q d = do { (r, y, q') \<leftarrow> QueueRemove (Some q) (Some d); y' \<leftarrow> y; q'' \<leftarrow> q'; Some (r, y', q'') }"

interpretation gq: bounded_queue q_ins q_rem q_inv q_list m_size
proof unfold_locales
  fix q :: Queue and x d :: addr and xs
  assume q: "q_inv q"
  { assume "x \<noteq> NULL" "length (q_list q) < m_size q"
    then show "\<exists>q'. q_ins q x = Some (QUEUE_SUCCESS, q') \<and> q_inv q' \<and>
        q_list q' = q_list q @ [x] \<and> m_size q' = m_size q"
      by (rule q_insert [OF q, of x]) (auto simp: q_ins_def) }
  { assume "x \<noteq> NULL" "length (q_list q) = m_size q"
    then show "q_ins q x = Some (QUEUE_OVERFLOW_ERROR, q)"
      using q by (simp add: q_ins_def q_insert_full) }
  { assume "q_list q = x # xs"
    then show "\<exists>q'. q_rem q d = Some (QUEUE_SUCCESS, x, q') \<and> q_inv q' \<and> q_list q' = xs \<and>
        m_size q' = m_size q"
      by (rule q_remove [OF q, of x xs d]) (auto simp: q_rem_def) }
  { assume "q_list q = []"
    then show "q_rem q d = Some (QUEUE_DATA_NOT_FOUND_ERROR, d, q)"
      using q by (simp add: q_rem_def q_remove_empty) }
  show "length (q_list q) \<le> m_size q" "NULL \<notin> set (q_list q)"
    using q by (simp_all add: q_inv_def)
qed

section \<open>Runs of operations\<close>

datatype qop = Ins addr | Rem

text \<open>What a bounded FIFO list answers, and what the circular buffer answers.\<close>

fun fifo_run :: "nat \<Rightarrow> addr list \<Rightarrow> qop list \<Rightarrow> (QueueResult \<times> addr) list \<times> addr list" where
  "fifo_run n xs [] = ([], xs)"
| "fifo_run n xs (Ins x # ops) =
     (let (r, xs') = (if length xs < n then (QUEUE_SUCCESS, xs @ [x]) else (QUEUE_OVERFLOW_ERROR, xs));
          (os, ys) = fifo_run n xs' ops
      in ((r, x) # os, ys))"
| "fifo_run n xs (Rem # ops) =
     (let (r, y, xs') = (case xs of [] \<Rightarrow> (QUEUE_DATA_NOT_FOUND_ERROR, NULL, [])
                         | z # zs \<Rightarrow> (QUEUE_SUCCESS, z, zs));
          (os, ys) = fifo_run n xs' ops
      in ((r, y) # os, ys))"

fun queue_run :: "Queue option \<Rightarrow> qop list \<Rightarrow> ((QueueResult \<times> addr) list \<times> Queue option) option" where
  "queue_run q [] = Some ([], q)"
| "queue_run q (Ins x # ops) = do {
     (r, q') \<leftarrow> QueueInsert q x;
     (os, q'') \<leftarrow> queue_run q' ops;
     Some ((r, x) # os, q'')
   }"
| "queue_run q (Rem # ops) = do {
     (r, y, q') \<leftarrow> QueueRemove q (Some NULL);
     y' \<leftarrow> y;
     (os, q'') \<leftarrow> queue_run q' ops;
     Some ((r, y') # os, q'')
   }"

lemma QueueInsert_q_ins: "q_ins q x = Some (r, q') \<Longrightarrow> QueueInsert (Some q) x = Some (r, Some q')"
  by (auto simp: q_ins_def split: Option.bind_splits)

lemma QueueRemove_q_rem: "q_rem q d = Some (r, y, q') \<Longrightarrow> QueueRemove (Some q) (Some d) = Some (r, Some y, Some q')"
  by (auto simp: q_rem_def split: Option.bind_splits)

lemma queue_run_inv:
  "q_inv q \<Longrightarrow> \<forall>x. Ins x \<in> set ops \<longrightarrow> x \<noteq> NULL \<Longrightarrow>
   \<exists>q'. queue_run (Some q) ops = Some (fst (fifo_run (m_size q) (q_list q) ops), Some q') \<and>
     q_inv q' \<and> m_size q' = m_size q \<and> q_list q' = snd (fifo_run (m_size q) (q_list q) ops)"
proof (induction ops arbitrary: q)
  case (Cons op ops)
  show ?case
  proof (cases op)
    case (Ins x)
    with Cons.prems obtain q1 where "q_ins q x =
        Some (if length (q_list q) < m_size q then QUEUE_SUCCESS else QUEUE_OVERFLOW_ERROR, q1)"
      and "q_inv q1" "m_size q1 = m_size q"
      and "q_list q1 = (if length (q_list q) < m_size q then q_list q @ [x] else q_list q)"
      using gq.ins_total [of q x] by auto
    then show ?thesis
      using Cons.IH [of q1] Cons.prems(2) Ins
      by (auto dest!: QueueInsert_q_ins simp: Let_def split_def split: if_splits)
  next
    case Rem
    with Cons.prems obtain r y q1 where "q_rem q NULL = Some (r, y, q1)"
      and "q_inv q1" "m_size q1 = m_size q"
      and "case q_list q of [] \<Rightarrow> r = QUEUE_DATA_NOT_FOUND_ERROR \<and> y = NULL \<and> q_list q1 = []
           | x # xs \<Rightarrow> r = QUEUE_SUCCESS \<and> y = x \<and> q_list q1 = xs"
      using gq.rem_total [of q NULL] by auto
    then show ?thesis
      using Cons.IH [of q1] Cons.prems(2) Rem
      by (auto dest!: QueueRemove_q_rem simp: Let_def split_def split: list.splits)
  qed
qed simp

text \<open>
  C35: a freshly created queue of capacity n answers every sequence of insertions of non-null
  items and removals exactly as a first-in first-out list of at most n items, including the
  overflow and the not-found results, and never accesses memory outside its buffer.
\<close>

theorem queue_fifo:
  assumes "0 < n" "n < 2 ^ 61" "al 0" "al 1" "\<forall>x. Ins x \<in> set ops \<longrightarrow> x \<noteq> NULL"
  shows "\<exists>q'. queue_run (QueueCreate al n) ops = Some (fst (fifo_run n [] ops), Some q') \<and>
    q_list q' = snd (fifo_run n [] ops)"
proof -
  obtain q where "QueueCreate al n = Some q" "q_inv q" "q_list q = []" "m_size q = n"
    by (rule q_create [OF assms(1-4)])
  then show ?thesis
    using queue_run_inv [of q ops] assms(5) by auto
qed

theorem queue_fifo_witness:
  "\<exists>q'. queue_run (QueueCreate (\<lambda>_. True) 2) [Ins 5, Ins 6, Ins 7, Rem, Ins 8, Rem, Rem, Rem] =
       Some (fst (fifo_run 2 [] [Ins 5, Ins 6, Ins 7, Rem, Ins 8, Rem, Rem, Rem]), Some q') \<and>
     q_list q' = snd (fifo_run 2 [] [Ins 5, Ins 6, Ins 7, Rem, Ins 8, Rem, Rem, Rem]) \<and>
     fst (fifo_run 2 [] [Ins 5, Ins 6, Ins 7, Rem, Ins 8, Rem, Rem, Rem]) =
       [(QUEUE_SUCCESS, 5), (QUEUE_SUCCESS, 6), (QUEUE_OVERFLOW_ERROR, 7), (QUEUE_SUCCESS, 5),
        (QUEUE_SUCCESS, 8), (QUEUE_SUCCESS, 6), (QUEUE_SUCCESS, 8), (QUEUE_DATA_NOT_FOUND_ERROR, 0)]"
  using queue_fifo [of 2 "\<lambda>_. True" "[Ins 5, Ins 6, Ins 7, Rem, Ins 8, Rem, Rem, Rem]"] by auto

text \<open>
  On a well-formed queue the iteration applies the action to the elements in FIFO order and
  stops at the first one for which it returns 0, and destroying the queue passes exactly these
  elements, in that order, to the destroy callback and leaves a null pointer.
\<close>

theorem queue_walk:
  assumes "q_inv q"
  shows "QueueForEach (Some q) (Some act) ctx = Some (each_list act ctx 0 (q_list q)) \<and>
    QueueDestroy (Some (Some q)) True = Some (q_list q, Some None)"
  using assms
  by (simp add: QueueForEach_def QueueDestroy_def q_inv_def each_items_walk destroy_items_walk q_list_def)

end
