(* ===== verification/Free_Mc_Queue.thy ===== *)
theory Free_Mc_Queue
  imports Gen_Queue Protocol "HOL-Library.Sublist"
begin

text \<open>
  The pool of free multicast addresses, \<^verbatim>\<open>server/free_mc_queue.h\<close> and
  \<^verbatim>\<open>server/free_mc_queue.c\<close>: a generic queue of heap-allocated \<open>McastPair\<close>s.

  The queue holds addresses into the store \<open>pairs\<close>. \<open>fmq_rel f ps\<close> says that the pool \<open>f\<close> holds
  the pairs \<open>ps\<close> in this order and owns exactly their memory. The locale \<open>mcast_pool\<close> is the
  contract the group manager relies on.
\<close>

section \<open>Definitions\<close>

record McastPair =
  mp_ip :: cstring
  mp_port :: u16

record FreeMcQueue =
  pool :: "Queue option"
  pairs :: "McastPair store"

definition pool_ip :: "nat \<Rightarrow> cstring" where
  "pool_ip i = bytes_of ''239.1.1.'' @ dec i"

text \<open>One round of the loop that fills the pool, and the loop over the remaining indices.\<close>

definition fill_one :: "nat \<Rightarrow> FreeMcQueue \<Rightarrow> FreeMcQueue option" where
  "fill_one i f =
     (let (a, ps) = malloc (pairs f) \<lparr>mp_ip = [], mp_port = 0\<rparr>
      in if a = NULL then Some (f\<lparr>pairs := ps\<rparr>)
      else do {
        ip \<leftarrow> strcpy CHAT_MAX_IP_STR_LEN (pool_ip i);
        ps \<leftarrow> put ps a \<lparr>mp_ip = ip, mp_port = CHAT_MCAST_BASE_PORT\<rparr>;
        (r, q) \<leftarrow> QueueInsert (pool f) a;
        if r \<noteq> QUEUE_SUCCESS
        then do { ps \<leftarrow> free ps a; Some (f\<lparr>pool := q, pairs := ps\<rparr>) }
        else Some (f\<lparr>pool := q, pairs := ps\<rparr>)
      })"

fun fill_pool :: "nat list \<Rightarrow> FreeMcQueue \<Rightarrow> FreeMcQueue option" where
  "fill_pool [] f = Some f"
| "fill_pool (i # is) f = do { f' \<leftarrow> fill_one i f; fill_pool is f' }"

text \<open>
  \<open>al\<close> decides the allocations of the two structs and the array, \<open>ok\<close> those of the pairs. The
  inner \<open>option\<close> is the returned pointer.
\<close>

definition FreeMcQueue_Create :: "(nat \<Rightarrow> bool) \<Rightarrow> (nat \<Rightarrow> bool) \<Rightarrow> FreeMcQueue option option" where
  "FreeMcQueue_Create al ok =
     (if \<not> al 0 then Some None
      else case QueueCreate (\<lambda>i. al (Suc i)) 255 of
        None \<Rightarrow> Some None
      | Some q \<Rightarrow> do {
          f \<leftarrow> fill_pool [1..<256] \<lparr>pool = Some q, pairs = empty_store ok\<rparr>;
          Some (Some f)
        })"

definition DestroyPairCallback :: "McastPair store \<Rightarrow> addr \<Rightarrow> McastPair store option" where
  "DestroyPairCallback ps a = (if a \<noteq> NULL then free ps a else Some ps)"

fun destroy_pairs :: "McastPair store \<Rightarrow> addr list \<Rightarrow> McastPair store option" where
  "destroy_pairs ps [] = Some ps"
| "destroy_pairs ps (a # as) = do { ps' \<leftarrow> DestroyPairCallback ps a; destroy_pairs ps' as }"

text \<open>The result is the store the pairs lived in and the pointer, NULL after the call.\<close>

definition FreeMcQueue_Destroy ::
  "FreeMcQueue option option \<Rightarrow> (McastPair store option \<times> FreeMcQueue option option) option"
where
  "FreeMcQueue_Destroy q =
     (case q of None \<Rightarrow> Some (None, q)
      | Some None \<Rightarrow> Some (None, q)
      | Some (Some f) \<Rightarrow> do {
          (as, _) \<leftarrow> QueueDestroy (Some (pool f)) True;
          ps \<leftarrow> destroy_pairs (pairs f) as;
          Some (Some ps, Some None)
        })"

definition FreeMcQueue_Take ::
  "FreeMcQueue option \<Rightarrow> McastPair option \<Rightarrow> (int \<times> McastPair option \<times> FreeMcQueue option) option"
where
  "FreeMcQueue_Take q outPair =
     (if q = None \<or> outPair = None then Some (0, outPair, q)
      else let f = the q in do {
        (r, popped, pl) \<leftarrow> QueueRemove (pool f) (Some NULL);
        p \<leftarrow> popped;
        if r \<noteq> QUEUE_SUCCESS \<or> p = NULL then Some (0, outPair, Some (f\<lparr>pool := pl\<rparr>))
        else do {
          pr \<leftarrow> deref (pairs f) p;
          ip \<leftarrow> strcpy CHAT_MAX_IP_STR_LEN (mp_ip pr);
          ps \<leftarrow> free (pairs f) p;
          Some (1, Some \<lparr>mp_ip = ip, mp_port = mp_port pr\<rparr>, Some (f\<lparr>pool := pl, pairs := ps\<rparr>))
        }})"

definition FreeMcQueue_Return ::
  "FreeMcQueue option \<Rightarrow> McastPair option \<Rightarrow> (int \<times> FreeMcQueue option) option"
where
  "FreeMcQueue_Return q pair =
     (if q = None \<or> pair = None then Some (0, q)
      else let f = the q; (a, ps) = malloc (pairs f) \<lparr>mp_ip = [], mp_port = 0\<rparr>
      in if a = NULL then Some (0, Some (f\<lparr>pairs := ps\<rparr>))
      else do {
        ip \<leftarrow> strcpy CHAT_MAX_IP_STR_LEN (mp_ip (the pair));
        ps \<leftarrow> put ps a \<lparr>mp_ip = ip, mp_port = mp_port (the pair)\<rparr>;
        (r, pl) \<leftarrow> QueueInsert (pool f) a;
        if r \<noteq> QUEUE_SUCCESS
        then do { ps \<leftarrow> free ps a; Some (0, Some (f\<lparr>pool := pl, pairs := ps\<rparr>)) }
        else Some (1, Some (f\<lparr>pool := pl, pairs := ps\<rparr>))
      })"

section \<open>What the pool holds\<close>

definition pair_ok :: "McastPair \<Rightarrow> bool" where
  "pair_ok p \<longleftrightarrow> length (mp_ip p) < CHAT_MAX_IP_STR_LEN"

definition fmq_rel :: "FreeMcQueue \<Rightarrow> McastPair list \<Rightarrow> bool" where
  "fmq_rel f ps \<longleftrightarrow> (\<exists>q. pool f = Some q \<and> q_inv q \<and> m_size q = 255 \<and> store_wf (pairs f) \<and>
     distinct (q_list q) \<and> map (mem (pairs f)) (q_list q) = map Some ps \<and>
     dom (mem (pairs f)) = set (q_list q) \<and> (\<forall>p \<in> set ps. pair_ok p))"

text \<open>No allocation of the pool fails.\<close>

definition fmq_ok :: "FreeMcQueue \<Rightarrow> bool" where
  "fmq_ok f \<longleftrightarrow> (\<forall>n. alloc_ok (pairs f) n)"

lemma fmq_rel_length: "fmq_rel f ps \<Longrightarrow> length ps \<le> 255"
  unfolding fmq_rel_def q_inv_def by (metis length_map length_q_list)

lemma fmq_rel_pair_ok: "fmq_rel f ps \<Longrightarrow> p \<in> set ps \<Longrightarrow> pair_ok p"
  by (auto simp: fmq_rel_def)

lemma McastPair_eta [simp]: "\<lparr>mp_ip = mp_ip p, mp_port = mp_port p\<rparr> = p"
  by (cases p) simp

lemma map_mem_upd: "a \<notin> set xs \<Longrightarrow> map (m(a := v)) xs = map m xs"
  by (induction xs) auto

text \<open>Both \<open>fill_one\<close> and \<open>FreeMcQueue_Return\<close> append a freshly allocated pair.\<close>

lemma fmq_append:
  assumes rel: "fmq_rel f ps" and p: "pair_ok p" and room: "length ps < 255"
    and m: "malloc (pairs f) v = (a, s)" and a: "a \<noteq> NULL"
  obtains q s' where "put s a p = Some s'" "QueueInsert (pool f) a = Some (QUEUE_SUCCESS, Some q)"
    "fmq_rel (f\<lparr>pool := Some q, pairs := s'\<rparr>) (ps @ [p])" "alloc_ok s' = alloc_ok (pairs f)"
proof -
  from rel obtain q0 where q0: "pool f = Some q0" "q_inv q0" "m_size q0 = 255"
    "store_wf (pairs f)" "distinct (q_list q0)" "map (mem (pairs f)) (q_list q0) = map Some ps"
    "dom (mem (pairs f)) = set (q_list q0)" "\<forall>p \<in> set ps. pair_ok p"
    by (auto simp: fmq_rel_def)
  have len: "length (q_list q0) = length ps"
    using q0(6) by (metis length_map)
  obtain q where q: "QueueInsert (Some q0) a = Some (QUEUE_SUCCESS, Some q)" "q_inv q"
    "q_list q = q_list q0 @ [a]" "m_size q = 255"
    by (rule q_insert [OF q0(2) a]) (use len room q0(3) in auto)
  from m have fresh: "mem (pairs f) a = None" "mem s = (mem (pairs f))(a := Some v)"
    using malloc_cases [OF q0(4) m] a by auto
  have "a \<notin> set (q_list q0)"
    using fresh(1) q0(7) by (metis domIff)
  moreover obtain s' where s': "put s a p = Some s'" "mem s' = (mem (pairs f))(a := Some p)"
    using fresh(2) by (auto simp: put_def)
  moreover have "store_wf s'"
    using store_wf_malloc [OF q0(4) m] s'(1) by (rule store_wf_put)
  moreover have "dom (mem s') = set (q_list q)"
    using s'(2) q0(7) q(3) by auto
  ultimately have "fmq_rel (f\<lparr>pool := Some q, pairs := s'\<rparr>) (ps @ [p])"
    using q q0 p by (auto simp: fmq_rel_def map_mem_upd)
  moreover have "alloc_ok s' = alloc_ok (pairs f)"
    using malloc_alloc_ok [OF m] put_alloc_ok [OF s'(1)] by simp
  ultimately show thesis
    using that s'(1) q(1) q0(1) by simp
qed

lemma fmq_take_empty:
  assumes "fmq_rel f []"
  obtains f' where "FreeMcQueue_Take (Some f) (Some d) = Some (0, Some d, Some f')" "fmq_rel f' []"
    "fmq_ok f' = fmq_ok f"
proof -
  from assms obtain q where q: "pool f = Some q" "q_inv q" "q_list q = []"
    by (auto simp: fmq_rel_def)
  then have "FreeMcQueue_Take (Some f) (Some d) = Some (0, Some d, Some f)"
    by (simp add: FreeMcQueue_Take_def q_remove_empty)
  then show thesis
    using that assms by blast
qed

lemma fmq_take:
  assumes rel: "fmq_rel f (p # ps)"
  obtains f' where "FreeMcQueue_Take (Some f) (Some d) = Some (1, Some p, Some f')" "fmq_rel f' ps"
    "fmq_ok f' = fmq_ok f"
proof -
  from rel obtain q0 where q0: "pool f = Some q0" "q_inv q0" "m_size q0 = 255"
    "store_wf (pairs f)" "distinct (q_list q0)" "map (mem (pairs f)) (q_list q0) = map Some (p # ps)"
    "dom (mem (pairs f)) = set (q_list q0)" "\<forall>p \<in> set (p # ps). pair_ok p"
    by (auto simp: fmq_rel_def)
  then obtain a as where l: "q_list q0 = a # as" "mem (pairs f) a = Some p"
    "map (mem (pairs f)) as = map Some ps"
    by (cases "q_list q0") auto
  obtain q where q: "QueueRemove (Some q0) (Some NULL) = Some (QUEUE_SUCCESS, Some a, Some q)"
    "q_inv q" "q_list q = as" "m_size q = 255"
    by (rule q_remove [OF q0(2) l(1)]) (use q0(3) in auto)
  let ?s = "(pairs f)\<lparr>mem := (mem (pairs f))(a := None)\<rparr>"
  have a: "a \<noteq> NULL" "a \<notin> set as"
    using store_wf_live [OF q0(4) l(2)] q0(5) l(1) by auto
  have "FreeMcQueue_Take (Some f) (Some d) = Some (1, Some p, Some (f\<lparr>pool := Some q, pairs := ?s\<rparr>))"
    using q0 q l a by (simp add: FreeMcQueue_Take_def store_simps strcpy_def pair_ok_def)
  moreover have "store_wf ?s"
    by (rule store_wf_free [OF q0(4), of a]) (use l(2) a(1) in \<open>simp add: store_simps\<close>)
  then have "fmq_rel (f\<lparr>pool := Some q, pairs := ?s\<rparr>) ps"
    using q q0 l a by (auto simp: fmq_rel_def map_mem_upd)
  ultimately show thesis
    using that by (simp add: fmq_ok_def)
qed

lemma fmq_rel_pairs_cong:
  "fmq_rel f ps \<Longrightarrow> store_wf s \<Longrightarrow> mem s = mem (pairs f) \<Longrightarrow> fmq_rel (f\<lparr>pairs := s\<rparr>) ps"
  by (auto simp: fmq_rel_def)

lemma fmq_rel_wf: "fmq_rel f ps \<Longrightarrow> store_wf (pairs f)"
  by (auto simp: fmq_rel_def)

text \<open>
  Giving a pair back succeeds when there is room and memory; otherwise the pool is as before.
\<close>

lemma fmq_return:
  assumes rel: "fmq_rel f ps" and p: "pair_ok p" and room: "length ps < 255"
  obtains (kept) f' where "FreeMcQueue_Return (Some f) (Some p) = Some (1, Some f')" "fmq_rel f' (ps @ [p])"
      "fmq_ok f' = fmq_ok f"
  | (lost) f' where "FreeMcQueue_Return (Some f) (Some p) = Some (0, Some f')" "fmq_rel f' ps"
      "fmq_ok f' = fmq_ok f" "\<not> fmq_ok f"
proof -
  obtain a s where m: "malloc (pairs f) \<lparr>mp_ip = [], mp_port = 0\<rparr> = (a, s)"
    by fastforce
  show thesis
  proof (cases "a = NULL")
    case True
    then have "mem s = mem (pairs f)" "\<not> fmq_ok f" "alloc_ok s = alloc_ok (pairs f)"
      using m fmq_rel_wf [OF rel] by (auto simp: malloc_def store_wf_def fmq_ok_def split: if_splits)
    then show thesis
      using m True rel fmq_rel_pairs_cong [OF rel store_wf_malloc [OF fmq_rel_wf [OF rel] m]]
      by (intro lost [of "f\<lparr>pairs := s\<rparr>"]) (simp_all add: FreeMcQueue_Return_def fmq_ok_def)
  next
    case False
    then show thesis
    proof (rule fmq_append [OF rel p room m])
      fix q s'
      assume "put s a p = Some s'" "QueueInsert (pool f) a = Some (QUEUE_SUCCESS, Some q)"
        "fmq_rel (f\<lparr>pool := Some q, pairs := s'\<rparr>) (ps @ [p])" "alloc_ok s' = alloc_ok (pairs f)"
      then show thesis
        using m False p
        by (intro kept [of "f\<lparr>pool := Some q, pairs := s'\<rparr>"])
          (simp_all add: FreeMcQueue_Return_def strcpy_def pair_ok_def fmq_ok_def)
    qed
  qed
qed

section \<open>The initial contents\<close>

definition pool_pair :: "nat \<Rightarrow> McastPair" where
  "pool_pair i = \<lparr>mp_ip = pool_ip i, mp_port = CHAT_MCAST_BASE_PORT\<rparr>"

lemma inj_pool_pair: "inj pool_pair"
  by (rule injI) (metis McastPair.ext_inject pool_ip_def pool_pair_def same_append_eq undec_dec)

lemma pool_pair_ok: "i < 1000 \<Longrightarrow> pair_ok (pool_pair i)"
  using length_dec [of i] by (simp add: pair_ok_def pool_pair_def pool_ip_def bytes_of_def size_defs)

lemma fill_one_rel:
  assumes rel: "fmq_rel f ps" and room: "length ps < 255" and i: "i < 1000"
  obtains f' where "fill_one i f = Some f'" "alloc_ok (pairs f') = alloc_ok (pairs f)"
    "fmq_rel f' ps \<and> \<not> alloc_ok (pairs f) (brk (pairs f)) \<or> fmq_rel f' (ps @ [pool_pair i])"
proof -
  obtain a s where m: "malloc (pairs f) \<lparr>mp_ip = [], mp_port = 0\<rparr> = (a, s)"
    by fastforce
  show thesis
  proof (cases "a = NULL")
    case True
    then have "mem s = mem (pairs f)" "\<not> alloc_ok (pairs f) (brk (pairs f))"
      using m fmq_rel_wf [OF rel] by (auto simp: malloc_def store_wf_def split: if_splits)
    then show thesis
      using m True rel fmq_rel_pairs_cong [OF rel store_wf_malloc [OF fmq_rel_wf [OF rel] m]]
        malloc_alloc_ok [OF m]
      by (intro that [of "f\<lparr>pairs := s\<rparr>"]) (simp_all add: fill_one_def)
  next
    case False
    then show thesis
    proof (rule fmq_append [OF rel pool_pair_ok [OF i] room m])
      fix q s'
      assume "put s a (pool_pair i) = Some s'" "QueueInsert (pool f) a = Some (QUEUE_SUCCESS, Some q)"
        "fmq_rel (f\<lparr>pool := Some q, pairs := s'\<rparr>) (ps @ [pool_pair i])"
      then show thesis
        using m False pool_pair_ok [OF i] malloc_alloc_ok [OF m] put_alloc_ok [of s a "pool_pair i" s']
        by (intro that [of "f\<lparr>pool := Some q, pairs := s'\<rparr>"])
          (simp_all add: fill_one_def strcpy_def pair_ok_def pool_pair_def)
    qed
  qed
qed

text \<open>The loop adds a subsequence of the pairs, all of them when no allocation fails.\<close>

lemma fill_pool_rel:
  assumes "fmq_rel f ps" "length ps + length is \<le> 255" "\<forall>i \<in> set is. i < 1000"
  shows "\<exists>f' js. fill_pool is f = Some f' \<and> subseq js is \<and> fmq_rel f' (ps @ map pool_pair js) \<and>
    ((\<forall>n. alloc_ok (pairs f) n) \<longrightarrow> js = is)"
  using assms
proof (induction "is" arbitrary: f ps)
  case Nil
  then show ?case by auto
next
  case (Cons i "is")
  from Cons.prems have "length ps < 255" "i < 1000" by auto
  then obtain f1 where f1: "fill_one i f = Some f1" "alloc_ok (pairs f1) = alloc_ok (pairs f)"
    "fmq_rel f1 ps \<and> \<not> alloc_ok (pairs f) (brk (pairs f)) \<or> fmq_rel f1 (ps @ [pool_pair i])"
    by (rule fill_one_rel [OF Cons.prems(1)])
  from f1(3) show ?case
  proof (elim disjE conjE)
    assume r: "fmq_rel f1 ps" and no: "\<not> alloc_ok (pairs f) (brk (pairs f))"
    have "\<exists>f' js. fill_pool is f1 = Some f' \<and> subseq js is \<and> fmq_rel f' (ps @ map pool_pair js)"
      using Cons.IH [OF r] Cons.prems by auto
    then show ?thesis
      using f1(1) no by (auto intro: subseq_Cons')
  next
    assume r: "fmq_rel f1 (ps @ [pool_pair i])"
    have "\<exists>f' js. fill_pool is f1 = Some f' \<and> subseq js is \<and>
        fmq_rel f' ((ps @ [pool_pair i]) @ map pool_pair js) \<and> ((\<forall>n. alloc_ok (pairs f1) n) \<longrightarrow> js = is)"
      by (rule Cons.IH [OF r]) (use Cons.prems in auto)
    then obtain f' js where "fill_pool is f1 = Some f'" "subseq js is"
      "fmq_rel f' (ps @ map pool_pair (i # js))" "(\<forall>n. alloc_ok (pairs f1) n) \<longrightarrow> js = is"
      by auto
    then show ?thesis
      using f1(1,2) by (intro exI [of _ f'] exI [of _ "i # js"]) simp
  qed
qed

lemma fmq_rel_new:
  "q_inv q \<Longrightarrow> q_list q = [] \<Longrightarrow> m_size q = 255 \<Longrightarrow>
   fmq_rel \<lparr>pool = Some q, pairs = empty_store ok\<rparr> []"
  by (simp add: fmq_rel_def) (simp add: empty_store_def)

lemma fill_one_alloc_ok: "fill_one i f = Some f' \<Longrightarrow> alloc_ok (pairs f') = alloc_ok (pairs f)"
  by (auto simp: fill_one_def split: prod.splits if_splits bind_splits
      dest!: malloc_alloc_ok put_alloc_ok free_alloc_ok)

lemma fill_pool_alloc_ok: "fill_pool is f = Some f' \<Longrightarrow> alloc_ok (pairs f') = alloc_ok (pairs f)"
  by (induction "is" arbitrary: f) (auto split: bind_splits dest: fill_one_alloc_ok)

lemma fmq_create:
  assumes "al 0" "al 1" "al 2"
  obtains f js where "FreeMcQueue_Create al ok = Some (Some f)" "subseq js [1..<256]"
    "fmq_rel f (map pool_pair js)" "(\<forall>n. ok n) \<longrightarrow> js = [1..<256]" "fmq_ok f = (\<forall>n. ok n)"
proof -
  obtain q where q: "QueueCreate (\<lambda>i. al (Suc i)) 255 = Some q" "q_inv q" "q_list q = []" "m_size q = 255"
    by (rule q_create [of 255 "\<lambda>i. al (Suc i)"]) (use assms in \<open>simp_all add: numeral_2_eq_2 [symmetric]\<close>)
  have "\<exists>f' js. fill_pool [1..<256] \<lparr>pool = Some q, pairs = empty_store ok\<rparr> = Some f' \<and>
      subseq js [1..<256] \<and> fmq_rel f' ([] @ map pool_pair js) \<and>
      ((\<forall>n. alloc_ok (pairs \<lparr>pool = Some q, pairs = empty_store ok\<rparr>) n) \<longrightarrow> js = [1..<256])"
    by (rule fill_pool_rel [OF fmq_rel_new [OF q(2-4)]]) auto
  then obtain f js where
    "fill_pool [1..<256] \<lparr>pool = Some q, pairs = empty_store ok\<rparr> = Some f"
    "subseq js [1..<256]" "fmq_rel f (map pool_pair js)" "(\<forall>n. ok n) \<longrightarrow> js = [1..<256]"
    by (auto simp: empty_store_def)
  moreover from this(1) have "fmq_ok f = (\<forall>n. ok n)"
    using fill_pool_alloc_ok by (fastforce simp: fmq_ok_def empty_store_def)
  ultimately show thesis
    using assms q(1) by (intro that [of f js]) (simp_all add: FreeMcQueue_Create_def)
qed

lemma destroy_pairs_all:
  "distinct as \<Longrightarrow> store_wf s \<Longrightarrow> set as \<subseteq> dom (mem s) \<Longrightarrow>
   \<exists>s'. destroy_pairs s as = Some s' \<and> dom (mem s') = dom (mem s) - set as"
proof (induction as arbitrary: s)
  case (Cons a as)
  then obtain v where a: "mem s a = Some v" "a \<noteq> NULL"
    by (auto dest: store_wf_live)
  let ?s = "s\<lparr>mem := (mem s)(a := None)\<rparr>"
  have f: "free s a = Some ?s"
    using a by (simp add: store_simps)
  have "\<exists>s'. destroy_pairs ?s as = Some s' \<and> dom (mem s') = dom (mem ?s) - set as"
    by (rule Cons.IH) (use Cons.prems store_wf_free [OF _ f] in auto)
  with f a show ?case
    by (auto simp: DestroyPairCallback_def)
qed simp

section \<open>The contract for the group manager\<close>

locale mcast_pool =
  fixes take_pair :: "'p option \<Rightarrow> McastPair option \<Rightarrow> (int \<times> McastPair option \<times> 'p option) option"
    and return_pair :: "'p option \<Rightarrow> McastPair option \<Rightarrow> (int \<times> 'p option) option"
    and rel :: "'p \<Rightarrow> McastPair list \<Rightarrow> bool"
    and ok :: "'p \<Rightarrow> bool"
    and cap :: nat
  assumes take_none: "rel f [] \<Longrightarrow>
      \<exists>f'. take_pair (Some f) (Some d) = Some (0, Some d, Some f') \<and> rel f' [] \<and> ok f' = ok f"
    and take_first: "rel f (p # ps) \<Longrightarrow>
      \<exists>f'. take_pair (Some f) (Some d) = Some (1, Some p, Some f') \<and> rel f' ps \<and> ok f' = ok f"
    and return_room: "rel f ps \<Longrightarrow> pair_ok p \<Longrightarrow> length ps < cap \<Longrightarrow>
      \<exists>r f'. return_pair (Some f) (Some p) = Some (r, Some f') \<and>
        (r = 1 \<and> rel f' (ps @ [p]) \<or> r = 0 \<and> rel f' ps \<and> \<not> ok f) \<and> ok f' = ok f"
    and holds_ok: "rel f ps \<Longrightarrow> p \<in> set ps \<Longrightarrow> pair_ok p"
    and holds_cap: "rel f ps \<Longrightarrow> length ps \<le> cap"
begin

lemma take_total:
  "rel f ps \<Longrightarrow> \<exists>r d' f'. take_pair (Some f) (Some d) = Some (r, Some d', Some f') \<and>
     (if ps = [] then r = 0 \<and> d' = d \<and> rel f' [] else r = 1 \<and> d' = hd ps \<and> pair_ok d' \<and> rel f' (tl ps))"
  using take_none [of f d] take_first [of f _ _ d] holds_ok [of f ps] by (cases ps) fastforce+

text \<open>A pair that was taken can always be offered back: there is room for it.\<close>

lemma take_return:
  assumes "rel f (p # ps)"
  shows "\<exists>f' r f''. take_pair (Some f) (Some d) = Some (1, Some p, Some f') \<and>
    return_pair (Some f') (Some p) = Some (r, Some f'') \<and>
    (r = 1 \<and> rel f'' (ps @ [p]) \<or> r = 0 \<and> rel f'' ps)"
proof -
  obtain f' where f': "take_pair (Some f) (Some d) = Some (1, Some p, Some f')" "rel f' ps"
    using take_first [OF assms] by blast
  have "pair_ok p" "length ps < cap"
    using holds_ok [OF assms] holds_cap [OF assms] by auto
  with return_room [OF f'(2)] f'(1) show ?thesis
    by blast
qed

end

interpretation fmq: mcast_pool FreeMcQueue_Take FreeMcQueue_Return fmq_rel fmq_ok 255
proof unfold_locales
  fix f ps p d
  show "fmq_rel f [] \<Longrightarrow>
      \<exists>f'. FreeMcQueue_Take (Some f) (Some d) = Some (0, Some d, Some f') \<and> fmq_rel f' [] \<and> fmq_ok f' = fmq_ok f"
    by (rule fmq_take_empty) auto
  show "fmq_rel f (p # ps) \<Longrightarrow>
      \<exists>f'. FreeMcQueue_Take (Some f) (Some d) = Some (1, Some p, Some f') \<and> fmq_rel f' ps \<and> fmq_ok f' = fmq_ok f"
    by (rule fmq_take) auto
  show "fmq_rel f ps \<Longrightarrow> pair_ok p \<Longrightarrow> length ps < 255 \<Longrightarrow>
      \<exists>r f'. FreeMcQueue_Return (Some f) (Some p) = Some (r, Some f') \<and>
        (r = 1 \<and> fmq_rel f' (ps @ [p]) \<or> r = 0 \<and> fmq_rel f' ps \<and> \<not> fmq_ok f) \<and> fmq_ok f' = fmq_ok f"
    by (rule fmq_return) auto
  show "fmq_rel f ps \<Longrightarrow> p \<in> set ps \<Longrightarrow> pair_ok p"
    by (rule fmq_rel_pair_ok)
  show "fmq_rel f ps \<Longrightarrow> length ps \<le> 255"
    by (rule fmq_rel_length)
qed

section \<open>Creating and destroying a pool\<close>

lemma fmq_create_cases:
  "\<exists>r. FreeMcQueue_Create al ok = Some r \<and>
     (case r of None \<Rightarrow> \<not> (al 0 \<and> al 1 \<and> al 2)
      | Some f \<Rightarrow> \<exists>js. subseq js [1..<256] \<and> fmq_rel f (map pool_pair js) \<and>
          distinct (map pool_pair js) \<and> (if \<forall>n. ok n then js = [1..<256] else True) \<and> fmq_ok f = (\<forall>n. ok n))"
proof (cases "al 0 \<and> al 1 \<and> al 2")
  case True
  then obtain f js where f: "FreeMcQueue_Create al ok = Some (Some f)" "subseq js [1..<256]"
    "fmq_rel f (map pool_pair js)" "(\<forall>n. ok n) \<longrightarrow> js = [1..<256]" "fmq_ok f = (\<forall>n. ok n)"
    using fmq_create [of al ok] by blast
  have "distinct js"
    using f(2) distinct_upt [of 1 256] by (metis subseq_conv_nths distinct_nthsI)
  then have "distinct (map pool_pair js)"
    by (simp add: distinct_map inj_on_subset [OF inj_pool_pair])
  with f show ?thesis
    by auto
next
  case False
  then show ?thesis
    by (auto simp: FreeMcQueue_Create_def QueueCreate_def numeral_2_eq_2)
qed

lemma fmq_destroy:
  assumes "fmq_rel f ps"
  shows "\<exists>s. FreeMcQueue_Destroy (Some (Some f)) = Some (Some s, Some None) \<and> dom (mem s) = {}"
proof -
  from assms obtain q where q: "pool f = Some q" "q_inv q" "store_wf (pairs f)"
    "distinct (q_list q)" "dom (mem (pairs f)) = set (q_list q)"
    by (auto simp: fmq_rel_def)
  then obtain s where "destroy_pairs (pairs f) (q_list q) = Some s" "dom (mem s) = {}"
    using destroy_pairs_all [of "q_list q" "pairs f"] by auto
  with q show ?thesis
    by (simp add: FreeMcQueue_Destroy_def QueueDestroy_def q_inv_def destroy_items_walk q_list_def)
qed

section \<open>Properties of the pool\<close>

text \<open>
  Whatever allocations fail, creating the pool is memory safe and gives NULL or a pool
  of distinct multicast pairs, a subsequence of 239.1.1.1 to 239.1.1.255 on the base port; when no
  allocation fails it holds all 255 of them, in this order.
\<close>

theorem pool_create:
  "\<exists>r. FreeMcQueue_Create al ok = Some r \<and>
     (case r of None \<Rightarrow> \<not> (al 0 \<and> al 1 \<and> al 2)
      | Some f \<Rightarrow> \<exists>js. subseq js [1..<256] \<and> fmq_rel f (map pool_pair js) \<and>
          distinct (map pool_pair js) \<and> (if \<forall>n. ok n then js = [1..<256] else True))"
proof -
  obtain r where "FreeMcQueue_Create al ok = Some r" "case r of None \<Rightarrow> \<not> (al 0 \<and> al 1 \<and> al 2)
      | Some f \<Rightarrow> \<exists>js. subseq js [1..<256] \<and> fmq_rel f (map pool_pair js) \<and>
          distinct (map pool_pair js) \<and> (if \<forall>n. ok n then js = [1..<256] else True) \<and> fmq_ok f = (\<forall>n. ok n)"
    using fmq_create_cases by blast
  then show ?thesis by (cases r) auto
qed



text \<open>
  Destroying a pool frees every pair it holds, each once, so that no pair of the pool's
  memory is left, and leaves a null pointer.
\<close>

theorem pool_destroy:
  assumes "fmq_rel f ps"
  shows "\<exists>s. FreeMcQueue_Destroy (Some (Some f)) = Some (Some s, Some None) \<and> dom (mem s) = {}"
  by (rule fmq_destroy [OF assms])

end
