(* ===== verification/Gen_DList.thy ===== *)
theory Gen_DList
  imports Chat_Prelude
begin

text \<open>
  The generic doubly-linked list of \<^verbatim>\<open>shared/adt/gen_dlist.h\<close> and
  \<^verbatim>\<open>shared/adt/gen_dlist.c\<close>, as pointer code on a store of nodes.

  A \<open>List\<close> is a struct whose only member is its sentinel node, so a list pointer is the address
  of the sentinel. Iterators and elements (\<open>void*\<close>) are addresses; 0 is NULL. Every access goes
  through the store, so following a pointer to a node that was freed gives \<open>None\<close>. The loops of
  the code are \<open>partial_function\<close>s: a list that is not closed would make them return nothing.

  \<open>dll h l xs\<close> says that the list at \<open>l\<close> consists of the nodes and elements \<open>xs\<close>;
  \<open>dlists h A\<close> that the store holds exactly the lists \<open>A\<close>, disjoint from each other. The locale
  \<open>list_store\<close> is the contract of the operations in terms of \<open>A\<close>, which the hash map and the
  user manager rely on.
\<close>

section \<open>Nodes and helpers\<close>

record Node =
  data :: addr
  nxt :: addr
  prv :: addr
  is_sentinel :: bool

type_synonym heap = "Node store"

definition NodeCreate :: "heap \<Rightarrow> addr \<Rightarrow> addr \<times> heap" where
  "NodeCreate h d = malloc h \<lparr>data = d, nxt = NULL, prv = NULL, is_sentinel = False\<rparr>"

definition set_nxt :: "heap \<Rightarrow> addr \<Rightarrow> addr \<Rightarrow> heap option" where
  "set_nxt h a v = do { n \<leftarrow> deref h a; put h a (n\<lparr>nxt := v\<rparr>) }"

definition set_prv :: "heap \<Rightarrow> addr \<Rightarrow> addr \<Rightarrow> heap option" where
  "set_prv h a v = do { n \<leftarrow> deref h a; put h a (n\<lparr>prv := v\<rparr>) }"

definition NodeLinkBefore :: "heap \<Rightarrow> addr \<Rightarrow> addr \<Rightarrow> heap option" where
  "NodeLinkBefore h pos n = do {
     p \<leftarrow> deref h pos;
     h \<leftarrow> set_prv h n (prv p);
     h \<leftarrow> set_nxt h n pos;
     p \<leftarrow> deref h pos;
     h \<leftarrow> set_nxt h (prv p) n;
     set_prv h pos n
   }"

definition NodeUnlink :: "heap \<Rightarrow> addr \<Rightarrow> heap option" where
  "NodeUnlink h n = do {
     x \<leftarrow> deref h n;
     h \<leftarrow> set_nxt h (prv x) (nxt x);
     x \<leftarrow> deref h n;
     h \<leftarrow> set_prv h (nxt x) (prv x);
     h \<leftarrow> set_prv h n NULL;
     set_nxt h n NULL
   }"

section \<open>Operations\<close>

definition ListCreate :: "heap \<Rightarrow> (addr \<times> heap) option" where
  "ListCreate h =
     (let (l, h) = malloc h \<lparr>data = NULL, nxt = NULL, prv = NULL, is_sentinel = False\<rparr>
      in if l = NULL then Some (NULL, h)
      else do {
        h \<leftarrow> put h l \<lparr>data = NULL, nxt = l, prv = l, is_sentinel = True\<rparr>;
        Some (l, h)
      })"

text \<open>The loop of \<open>ListDestroy\<close>; it collects the elements passed to the destroy callback.\<close>

partial_function (option) destroy_nodes :: "heap \<Rightarrow> addr \<Rightarrow> addr \<Rightarrow> (addr list \<times> heap) option" where
  "destroy_nodes h l cur =
     (if cur = l then Some ([], h)
      else do {
        x \<leftarrow> deref h cur;
        h' \<leftarrow> free h cur;
        (ds, h'') \<leftarrow> destroy_nodes h' l (nxt x);
        Some (data x # ds, h'')
      })"

text \<open>
  \<open>pList\<close> is the content of the pointer to the list pointer, \<open>None\<close> when that pointer is NULL. The
  result names the elements handed to \<open>_elementDestroy\<close>, in order.
\<close>

definition ListDestroy :: "heap \<Rightarrow> addr option \<Rightarrow> bool \<Rightarrow> (addr list \<times> addr option \<times> heap) option" where
  "ListDestroy h pList elementDestroy =
     (if pList = None \<or> pList = Some NULL then Some ([], pList, h)
      else let l = the pList in do {
        s \<leftarrow> deref h l;
        (ds, h) \<leftarrow> destroy_nodes h l (nxt s);
        h \<leftarrow> free h l;
        Some (if elementDestroy then ds else [], Some NULL, h)
      })"

definition ListPushHead :: "heap \<Rightarrow> addr \<Rightarrow> addr \<Rightarrow> (addr \<times> heap) option" where
  "ListPushHead h l item =
     (if l = NULL then Some (NULL, h)
      else let (n, h) = NodeCreate h item
      in if n = NULL then Some (NULL, h)
      else do {
        s \<leftarrow> deref h l;
        h \<leftarrow> NodeLinkBefore h (nxt s) n;
        Some (n, h)
      })"

definition ListPushTail :: "heap \<Rightarrow> addr \<Rightarrow> addr \<Rightarrow> (addr \<times> heap) option" where
  "ListPushTail h l item =
     (if l = NULL then Some (NULL, h)
      else let (n, h) = NodeCreate h item
      in if n = NULL then Some (NULL, h)
      else do {
        h \<leftarrow> NodeLinkBefore h l n;
        Some (n, h)
      })"

definition ListPopHead :: "heap \<Rightarrow> addr \<Rightarrow> (addr \<times> heap) option" where
  "ListPopHead h l =
     (if l = NULL then Some (NULL, h)
      else do {
        s \<leftarrow> deref h l;
        let first = nxt s;
        if first = l then Some (NULL, h)
        else do {
          f \<leftarrow> deref h first;
          h \<leftarrow> NodeUnlink h first;
          h \<leftarrow> free h first;
          Some (data f, h)
        }})"

definition ListPopTail :: "heap \<Rightarrow> addr \<Rightarrow> (addr \<times> heap) option" where
  "ListPopTail h l =
     (if l = NULL then Some (NULL, h)
      else do {
        s \<leftarrow> deref h l;
        let last = prv s;
        if last = l then Some (NULL, h)
        else do {
          f \<leftarrow> deref h last;
          h \<leftarrow> NodeUnlink h last;
          h \<leftarrow> free h last;
          Some (data f, h)
        }})"

definition ListItrBegin :: "heap \<Rightarrow> addr \<Rightarrow> addr option" where
  "ListItrBegin h l = (if l = NULL then Some NULL else do { s \<leftarrow> deref h l; Some (nxt s) })"

definition ListItrEnd :: "heap \<Rightarrow> addr \<Rightarrow> addr option" where
  "ListItrEnd h l = (if l = NULL then Some NULL else Some l)"

definition ListItrNext :: "heap \<Rightarrow> addr \<Rightarrow> addr option" where
  "ListItrNext h itr =
     (if itr = NULL then Some NULL
      else do { n \<leftarrow> deref h itr; if is_sentinel n then Some itr else Some (nxt n) })"

definition ListItrPrev :: "heap \<Rightarrow> addr \<Rightarrow> addr option" where
  "ListItrPrev h itr =
     (if itr = NULL then Some NULL
      else do {
        n \<leftarrow> deref h itr;
        p \<leftarrow> deref h (prv n);
        if is_sentinel p then Some itr else Some (prv n)
      })"

definition ListItrGet :: "heap \<Rightarrow> addr \<Rightarrow> addr option" where
  "ListItrGet h itr =
     (if itr = NULL then Some NULL
      else do { n \<leftarrow> deref h itr; if is_sentinel n then Some NULL else Some (data n) })"

definition ListItrSet :: "heap \<Rightarrow> addr \<Rightarrow> addr \<Rightarrow> (addr \<times> heap) option" where
  "ListItrSet h itr element =
     (if itr = NULL then Some (NULL, h)
      else do {
        n \<leftarrow> deref h itr;
        if is_sentinel n then Some (NULL, h)
        else do {
          h \<leftarrow> put h itr (n\<lparr>data := element\<rparr>);
          Some (data n, h)
        }})"

definition ListItrInsertBefore :: "heap \<Rightarrow> addr \<Rightarrow> addr \<Rightarrow> (addr \<times> heap) option" where
  "ListItrInsertBefore h itr element =
     (if itr = NULL then Some (NULL, h)
      else let (n, h) = NodeCreate h element
      in if n = NULL then Some (NULL, h)
      else do {
        h \<leftarrow> NodeLinkBefore h itr n;
        Some (n, h)
      })"

definition ListItrRemove :: "heap \<Rightarrow> addr \<Rightarrow> (addr \<times> heap) option" where
  "ListItrRemove h itr =
     (if itr = NULL then Some (NULL, h)
      else do {
        n \<leftarrow> deref h itr;
        if is_sentinel n then Some (NULL, h)
        else do {
          h \<leftarrow> NodeUnlink h itr;
          h \<leftarrow> free h itr;
          Some (data n, h)
        }})"

partial_function (option) count_nodes :: "heap \<Rightarrow> addr \<Rightarrow> addr \<Rightarrow> size_t \<Rightarrow> size_t option" where
  "count_nodes h sent cur count =
     (if cur = sent then Some count
      else do { x \<leftarrow> deref h cur; count_nodes h sent (nxt x) (count + 1) })"

definition ListSize :: "heap \<Rightarrow> addr \<Rightarrow> size_t option" where
  "ListSize h l =
     (if l = NULL then Some 0
      else do { s \<leftarrow> deref h l; count_nodes h l (nxt s) 0 })"

definition ListIsEmpty :: "heap \<Rightarrow> addr \<Rightarrow> size_t option" where
  "ListIsEmpty h l =
     (if l = NULL then Some 1
      else do { s \<leftarrow> deref h l; Some (if nxt s = l then 1 else 0) })"

text \<open>The loop of \<open>ListItrForEach\<close>: the action threads a context and returns 0 to stop.\<close>

partial_function (option) foreach_nodes ::
  "heap \<Rightarrow> addr \<Rightarrow> addr \<Rightarrow> (addr \<Rightarrow> 's \<Rightarrow> int \<times> 's) \<Rightarrow> 's \<Rightarrow> (addr \<times> 's) option"
where
  "foreach_nodes h cur end_itr act ctx =
     (if cur = end_itr then Some (end_itr, ctx)
      else do {
        x \<leftarrow> deref h cur;
        let (r, ctx') = act (data x) ctx;
        if r = 0 then Some (cur, ctx')
        else foreach_nodes h (nxt x) end_itr act ctx'
      })"

definition ListItrForEach ::
  "heap \<Rightarrow> addr \<Rightarrow> addr \<Rightarrow> (addr \<Rightarrow> 's \<Rightarrow> int \<times> 's) option \<Rightarrow> 's \<Rightarrow> (addr \<times> 's) option"
where
  "ListItrForEach h begin_itr end_itr act ctx =
     (if begin_itr = NULL \<or> end_itr = NULL \<or> act = None then Some (begin_itr, ctx)
      else foreach_nodes h begin_itr end_itr (the act) ctx)"

text \<open>
  The shape of every search loop of the program: from \<open>itr\<close> to \<open>end_itr\<close>, stop at the first
  iterator whose element passes the test. The loop reads the list through \<open>ListItrGet\<close> and
  \<open>ListItrNext\<close> on the current store; \<open>test\<close> may read memory too, hence its \<open>option\<close>.
\<close>

partial_function (option) search_itr ::
  "(addr \<Rightarrow> addr option) \<Rightarrow> (addr \<Rightarrow> addr option) \<Rightarrow> (addr \<Rightarrow> bool option) \<Rightarrow> addr \<Rightarrow> addr \<Rightarrow> addr option"
where
  "search_itr get_itr next_itr test itr end_itr =
     (if itr = end_itr then Some end_itr
      else do {
        d \<leftarrow> get_itr itr;
        b \<leftarrow> test d;
        if b then Some itr
        else do {
          n \<leftarrow> next_itr itr;
          search_itr get_itr next_itr test n end_itr
        }})"

text \<open>
  The shape of the walks: the body sees each element and a state, and says whether to go on. The
  flag of the result is \<open>False\<close> when the body stopped the walk.
\<close>

partial_function (option) walk_itr ::
  "(addr \<Rightarrow> addr option) \<Rightarrow> (addr \<Rightarrow> addr option) \<Rightarrow> (addr \<Rightarrow> 's \<Rightarrow> (bool \<times> 's) option) \<Rightarrow>
   addr \<Rightarrow> addr \<Rightarrow> 's \<Rightarrow> (bool \<times> 's) option"
where
  "walk_itr get_itr next_itr body itr end_itr s =
     (if itr = end_itr then Some (True, s)
      else do {
        d \<leftarrow> get_itr itr;
        (go, s) \<leftarrow> body d s;
        if \<not> go then Some (False, s)
        else do {
          n \<leftarrow> next_itr itr;
          walk_itr get_itr next_itr body n end_itr s
        }})"

fun walk_elems :: "('a \<Rightarrow> 's \<Rightarrow> (bool \<times> 's) option) \<Rightarrow> 'a list \<Rightarrow> 's \<Rightarrow> (bool \<times> 's) option" where
  "walk_elems body [] s = Some (True, s)"
| "walk_elems body (d # ds) s =
     do { (go, s) \<leftarrow> body d s; if go then walk_elems body ds s else Some (False, s) }"

section \<open>Rings of nodes\<close>

definition next_of :: "heap \<Rightarrow> addr \<Rightarrow> addr option" where
  "next_of h a = map_option nxt (mem h a)"

definition prev_of :: "heap \<Rightarrow> addr \<Rightarrow> addr option" where
  "prev_of h a = map_option prv (mem h a)"

definition elem_of :: "heap \<Rightarrow> addr \<Rightarrow> (addr \<times> bool) option" where
  "elem_of h a = map_option (\<lambda>n. (data n, is_sentinel n)) (mem h a)"

definition linked :: "heap \<Rightarrow> addr \<Rightarrow> addr \<Rightarrow> bool" where
  "linked h a b \<longleftrightarrow> next_of h a = Some b \<and> prev_of h b = Some a"

fun chain :: "heap \<Rightarrow> addr list \<Rightarrow> bool" where
  "chain h (a # b # cs) \<longleftrightarrow> linked h a b \<and> chain h (b # cs)"
| "chain h _ \<longleftrightarrow> True"

definition dll :: "heap \<Rightarrow> addr \<Rightarrow> (addr \<times> addr) list \<Rightarrow> bool" where
  "dll h l xs \<longleftrightarrow> distinct (l # map fst xs) \<and> chain h (l # map fst xs @ [l]) \<and>
     elem_of h l = Some (NULL, True) \<and> (\<forall>x \<in> set xs. elem_of h (fst x) = Some (snd x, False))"

lemma chain_append: "chain h (as @ b # cs) \<longleftrightarrow> chain h (as @ [b]) \<and> chain h (b # cs)"
  by (induction as rule: induct_list012) (auto split: list.splits)

lemma chain_cong:
  "(\<forall>x \<in> set (butlast as). next_of h' x = next_of h x) \<Longrightarrow>
   (\<forall>x \<in> set (tl as). prev_of h' x = prev_of h x) \<Longrightarrow> chain h' as \<longleftrightarrow> chain h as"
  by (induction h as rule: chain.induct) (auto simp: linked_def)

text \<open>
  In a ring \<open>l, \<dots>, l\<close> every node occurs once as the source and once as the target of a link.
\<close>

lemma ring_split:
  assumes "distinct (butlast (P @ a # p # S))" "distinct (tl (P @ a # p # S))"
  shows "a \<notin> set P" "p \<notin> set (tl (P @ [a]))" "a \<notin> set (butlast (p # S))" "p \<notin> set S"
proof -
  have "butlast (P @ a # p # S) = P @ a # butlast (p # S)"
    by (simp add: butlast_append)
  with assms(1) show "a \<notin> set P" "a \<notin> set (butlast (p # S))"
    by (simp_all del: butlast.simps)
  have "tl (P @ a # p # S) = tl (P @ [a]) @ p # S"
    by (cases P) simp_all
  with assms(2) show "p \<notin> set (tl (P @ [a]))" "p \<notin> set S"
    by simp_all
qed

lemma not_in_tl_butlast: "n \<notin> set xs \<Longrightarrow> n \<notin> set (tl xs) \<and> n \<notin> set (butlast xs)"
  by (cases xs) (auto dest: in_set_butlastD)

lemma chain_insert:
  assumes c: "chain h (P @ a # p # S)"
    and d: "distinct (butlast (P @ a # p # S))" "distinct (tl (P @ a # p # S))"
    and n: "n \<notin> set (P @ a # p # S)"
    and nx: "next_of h' = (next_of h)(n := Some p, a := Some n)"
    and pv: "prev_of h' = (prev_of h)(n := Some a, p := Some n)"
  shows "chain h' (P @ a # n # p # S)"
proof -
  have old: "chain h (P @ [a])" "chain h (p # S)"
    using c chain_append [of h P a "p # S"] by auto
  note r = ring_split [OF d]
  have n': "n \<notin> set (tl (P @ [a]))" "n \<notin> set (butlast (p # S))"
    using n not_in_tl_butlast [of n "P @ [a]"] not_in_tl_butlast [of n "p # S"] by simp_all
  have "chain h' (P @ [a]) \<longleftrightarrow> chain h (P @ [a])"
    by (rule chain_cong; intro ballI) (use n n' r in \<open>auto simp: nx pv\<close>)
  moreover have "chain h' (p # S) \<longleftrightarrow> chain h (p # S)"
    by (rule chain_cong; intro ballI) (use n n' r in \<open>auto simp: nx pv simp del: butlast.simps\<close>)
  moreover have "linked h' a n" "linked h' n p"
    using n by (auto simp: linked_def nx pv)
  ultimately show ?thesis
    using old chain_append [of h' P a "n # p # S"] by simp
qed

lemma chain_delete:
  assumes c: "chain h (P @ a # n # b # S)"
    and d: "distinct (butlast (P @ a # b # S))" "distinct (tl (P @ a # b # S))"
    and nx: "\<And>x. x \<noteq> n \<Longrightarrow> next_of h' x = ((next_of h)(a := Some b)) x"
    and pv: "\<And>x. x \<noteq> n \<Longrightarrow> prev_of h' x = ((prev_of h)(b := Some a)) x"
    and n: "n \<notin> set (P @ a # b # S)"
  shows "chain h' (P @ a # b # S)"
proof -
  have old: "chain h (P @ [a])" "chain h (b # S)"
    using c chain_append [of h P a "n # b # S"] by auto
  note r = ring_split [OF d]
  have n': "n \<notin> set (tl (P @ [a]))" "n \<notin> set (butlast (b # S))"
    using n not_in_tl_butlast [of n "P @ [a]"] not_in_tl_butlast [of n "b # S"] by simp_all
  have "chain h' (P @ [a]) \<longleftrightarrow> chain h (P @ [a])"
    by (rule chain_cong; intro ballI) (use n n' r in \<open>subst nx pv; auto\<close>)+
  moreover have "chain h' (b # S) \<longleftrightarrow> chain h (b # S)"
    by (rule chain_cong; intro ballI) (use n n' r in \<open>subst nx pv; auto simp del: butlast.simps\<close>)+
  moreover have "linked h' a b"
    using n nx [of a] pv [of b] by (auto simp: linked_def)
  ultimately show ?thesis
    using old chain_append [of h' P a "b # S"] by simp
qed

section \<open>Splicing nodes in and out\<close>

text \<open>Two stores that agree on who is linked to whom and on the elements outside a set.\<close>

definition same_cells :: "heap \<Rightarrow> heap \<Rightarrow> addr set \<Rightarrow> bool" where
  "same_cells h h' X \<longleftrightarrow> (\<forall>x \<in> X. mem h' x = mem h x)"

lemma cells_eq:
  "mem h' x = mem h x \<Longrightarrow> next_of h' x = next_of h x \<and> prev_of h' x = prev_of h x \<and> elem_of h' x = elem_of h x"
  by (simp add: next_of_def prev_of_def elem_of_def)

definition foot :: "addr \<Rightarrow> (addr \<times> addr) list \<Rightarrow> addr set" where
  "foot l xs = insert l (fst ` set xs)"

lemma dll_frame:
  assumes "dll h l xs" "same_cells h h' (foot l xs)"
  shows "dll h' l xs"
proof -
  have same: "next_of h' a = next_of h a" "prev_of h' a = prev_of h a" "elem_of h' a = elem_of h a"
    if "a \<in> foot l xs" for a
    using assms(2) that cells_eq [of h' a h] by (auto simp: same_cells_def)
  have "set (l # map fst xs @ [l]) \<subseteq> foot l xs"
    by (auto simp: foot_def)
  then have "chain h' (l # map fst xs @ [l]) \<longleftrightarrow> chain h (l # map fst xs @ [l])"
    using same by (intro chain_cong ballI) (auto simp: foot_def dest!: in_set_butlastD)
  then show ?thesis
    using assms(1) same by (auto simp: dll_def foot_def)
qed

lemma NodeLinkBefore_spec:
  assumes "mem h pos = Some p" "prv p = a" "mem h a = Some x" "mem h n = Some y" "n \<noteq> a" "n \<noteq> pos"
  obtains h' where "NodeLinkBefore h pos n = Some h'"
    "next_of h' = (next_of h)(n := Some pos, a := Some n)"
    "prev_of h' = (prev_of h)(n := Some a, pos := Some n)"
    "elem_of h' = elem_of h" "brk h' = brk h" "alloc_ok h' = alloc_ok h"
    "dom (mem h') = dom (mem h)" "same_cells h h' (- {a, n, pos})"
proof -
  let ?y = "y\<lparr>prv := a, nxt := pos\<rparr>"
  let ?m = "if a = pos then (mem h)(n := Some ?y, pos := Some (p\<lparr>nxt := n, prv := n\<rparr>))
            else (mem h)(n := Some ?y, a := Some (x\<lparr>nxt := n\<rparr>), pos := Some (p\<lparr>prv := n\<rparr>))"
  have "NodeLinkBefore h pos n = Some (h\<lparr>mem := ?m\<rparr>)"
    using assms by (auto simp: NodeLinkBefore_def set_nxt_def set_prv_def deref_def put_def)
  then show thesis
    using assms
    by (intro that [of "h\<lparr>mem := ?m\<rparr>"])
      (auto simp: next_of_def prev_of_def elem_of_def same_cells_def fun_eq_iff)
qed

lemma NodeUnlink_spec:
  assumes "mem h n = Some y" "prv y = a" "nxt y = b" "mem h a = Some x" "mem h b = Some z"
    and "n \<noteq> a" "n \<noteq> b"
  obtains h' where "NodeUnlink h n = Some h'" "mem h' n = Some (y\<lparr>prv := NULL, nxt := NULL\<rparr>)"
    "\<And>c. c \<noteq> n \<Longrightarrow> next_of h' c = ((next_of h)(a := Some b)) c"
    "\<And>c. c \<noteq> n \<Longrightarrow> prev_of h' c = ((prev_of h)(b := Some a)) c"
    "elem_of h' = elem_of h" "brk h' = brk h" "alloc_ok h' = alloc_ok h"
    "dom (mem h') = dom (mem h)" "same_cells h h' (- {a, n, b})"
proof -
  let ?y = "y\<lparr>prv := NULL, nxt := NULL\<rparr>"
  let ?m = "if a = b then (mem h)(a := Some (x\<lparr>nxt := b, prv := a\<rparr>), n := Some ?y)
            else (mem h)(a := Some (x\<lparr>nxt := b\<rparr>), b := Some (z\<lparr>prv := a\<rparr>), n := Some ?y)"
  have "NodeUnlink h n = Some (h\<lparr>mem := ?m\<rparr>)"
    using assms by (auto simp: NodeUnlink_def set_nxt_def set_prv_def deref_def put_def fun_upd_twist)
  then show thesis
    using assms
    by (intro that [of "h\<lparr>mem := ?m\<rparr>"])
      (auto simp: next_of_def prev_of_def elem_of_def same_cells_def fun_eq_iff)
qed

section \<open>One list\<close>

lemma chain_gap:
  assumes "chain h (as @ bs)" "as \<noteq> []" "bs \<noteq> []"
  shows "linked h (last as) (hd bs)"
proof -
  from assms(2,3) obtain P a b S where "as = P @ [a]" "bs = b # S"
    by (metis append_butlast_last_id list.collapse)
  then show ?thesis
    using assms(1) chain_append [of h P a "b # S"] by simp
qed

text \<open>The last node before a position, and the iterator at a position.\<close>

abbreviation pred_of :: "addr \<Rightarrow> (addr \<times> addr) list \<Rightarrow> addr" where
  "pred_of l xs \<equiv> last (l # map fst xs)"

abbreviation itr_at :: "addr \<Rightarrow> (addr \<times> addr) list \<Rightarrow> addr" where
  "itr_at l ys \<equiv> hd (map fst ys @ [l])"

lemma dll_gap: "dll h l (xs @ ys) \<Longrightarrow> linked h (pred_of l xs) (itr_at l ys)"
  using chain_gap [of h "l # map fst xs" "map fst ys @ [l]"] by (simp add: dll_def)

lemma pred_in: "pred_of l xs \<in> foot l xs"
  by (cases xs rule: rev_cases) (auto simp: foot_def)

lemma itr_in: "itr_at l ys \<in> foot l ys"
  by (cases ys) (auto simp: foot_def)

lemma foot_append: "foot l (xs @ ys) = foot l xs \<union> foot l ys"
  by (auto simp: foot_def)

lemma foot_Cons: "foot l ((a, d) # ys) = insert a (foot l ys)"
  by (auto simp: foot_def)

lemma dll_live: "dll h l xs \<Longrightarrow> a \<in> foot l xs \<Longrightarrow> \<exists>n. mem h a = Some n"
  by (auto simp: dll_def foot_def elem_of_def)

lemma ring_shape:
  obtains P S where "l # map fst xs = P @ [pred_of l xs]" "map fst ys @ [l] = itr_at l ys # S"
    "l # map fst (xs @ ys) @ [l] = P @ pred_of l xs # itr_at l ys # S"
proof -
  have "l # map fst xs = butlast (l # map fst xs) @ [pred_of l xs]"
    by (simp only: append_butlast_last_id list.distinct(2) not_False_eq_True)
  moreover have "map fst ys @ [l] = itr_at l ys # tl (map fst ys @ [l])"
    by simp
  ultimately show thesis
    using that [of "butlast (l # map fst xs)" "tl (map fst ys @ [l])"]
    by (metis append.assoc append_Cons append_Nil map_append)
qed

lemma ring_distinct:
  "distinct (l # map fst zs) \<Longrightarrow>
   distinct (butlast (l # map fst zs @ [l])) \<and> distinct (tl (l # map fst zs @ [l]))"
  by (simp add: butlast_append)

lemma dll_remove_distinct:
  assumes "dll h l (xs @ (n, d) # ys)"
  shows "n \<notin> foot l (xs @ ys)" "distinct (l # map fst (xs @ ys))"
  using assms by (auto simp: dll_def foot_def)

lemma dll_insert:
  assumes dll: "dll h l (xs @ ys)" and n: "n \<notin> foot l (xs @ ys)"
    and el: "elem_of h' = (elem_of h)(n := Some (d, False))"
    and nx: "next_of h' = (next_of h)(n := Some (itr_at l ys), pred_of l xs := Some n)"
    and pv: "prev_of h' = (prev_of h)(n := Some (pred_of l xs), itr_at l ys := Some n)"
  shows "dll h' l (xs @ (n, d) # ys)"
proof -
  obtain P S where shape: "l # map fst xs = P @ [pred_of l xs]" "map fst ys @ [l] = itr_at l ys # S"
    "l # map fst (xs @ ys) @ [l] = P @ pred_of l xs # itr_at l ys # S"
    by (rule ring_shape)
  have r: "chain h (l # map fst (xs @ ys) @ [l])" "distinct (butlast (l # map fst (xs @ ys) @ [l]))"
    "distinct (tl (l # map fst (xs @ ys) @ [l]))" "n \<notin> set (l # map fst (xs @ ys) @ [l])"
    using dll n ring_distinct [of l "xs @ ys"] by (auto simp: dll_def foot_def)
  then have "chain h' (P @ pred_of l xs # n # itr_at l ys # S)"
    unfolding shape(3) by (rule chain_insert [OF _ _ _ _ nx pv])
  moreover have "P @ pred_of l xs # n # itr_at l ys # S = l # map fst (xs @ (n, d) # ys) @ [l]"
    using shape(1,2) by (metis (no_types) append.assoc append_Cons append_Nil fst_conv list.map(2) map_append)
  ultimately have "chain h' (l # map fst (xs @ (n, d) # ys) @ [l])"
    by simp
  then show ?thesis
    using dll n by (auto simp: dll_def foot_def el)
qed

lemma dll_delete:
  assumes dll: "dll h l (xs @ (n, d) # ys)"
    and el: "\<And>c. c \<noteq> n \<Longrightarrow> elem_of h' c = elem_of h c"
    and nx: "\<And>c. c \<noteq> n \<Longrightarrow> next_of h' c = ((next_of h)(pred_of l xs := Some (itr_at l ys))) c"
    and pv: "\<And>c. c \<noteq> n \<Longrightarrow> prev_of h' c = ((prev_of h)(itr_at l ys := Some (pred_of l xs))) c"
  shows "dll h' l (xs @ ys)"
proof -
  obtain P S where shape: "l # map fst xs = P @ [pred_of l xs]" "map fst ys @ [l] = itr_at l ys # S"
    "l # map fst (xs @ ys) @ [l] = P @ pred_of l xs # itr_at l ys # S"
    by (rule ring_shape)
  have "l # map fst (xs @ (n, d) # ys) @ [l] = P @ pred_of l xs # n # itr_at l ys # S"
    using shape(1,2) by (metis (no_types) append.assoc append_Cons append_Nil fst_conv list.map(2) map_append)
  then have c: "chain h (P @ pred_of l xs # n # itr_at l ys # S)"
    using dll by (metis dll_def)
  have r: "distinct (butlast (l # map fst (xs @ ys) @ [l]))" "distinct (tl (l # map fst (xs @ ys) @ [l]))"
    "n \<notin> set (l # map fst (xs @ ys) @ [l])"
    using dll_remove_distinct [OF dll] ring_distinct [of l "xs @ ys"] by (auto simp: foot_def)
  have "chain h' (l # map fst (xs @ ys) @ [l])"
    using r unfolding shape(3) by (intro chain_delete [OF c _ _ nx pv])
  moreover note dll_remove_distinct(1) [OF dll]
  then have "\<And>a. a \<in> foot l (xs @ ys) \<Longrightarrow> elem_of h' a = elem_of h a"
    using el by metis
  ultimately show ?thesis
    using dll by (simp add: dll_def foot_def)
qed

text \<open>Creating a node and linking it before a position; unlinking a node and freeing it.\<close>

lemma create_link:
  assumes wf: "store_wf h" and dll: "dll h l (xs @ ys)"
    and c: "NodeCreate h d = (n, h1)" and n: "n \<noteq> NULL"
  obtains h' where "NodeLinkBefore h1 (itr_at l ys) n = Some h'" "dll h' l (xs @ (n, d) # ys)"
    "store_wf h'" "n \<notin> dom (mem h)" "dom (mem h') = insert n (dom (mem h))"
    "same_cells h h' (- insert n (foot l (xs @ ys)))" "alloc_ok h' = alloc_ok h"
proof -
  let ?n = "\<lparr>data = d, nxt = NULL, prv = NULL, is_sentinel = False\<rparr>"
  from c have m: "malloc h ?n = (n, h1)"
    by (simp add: NodeCreate_def)
  have fresh: "mem h n = None" "mem h1 = (mem h)(n := Some ?n)" "alloc_ok h1 = alloc_ok h"
    using malloc_cases [OF wf m] n by auto
  have nf: "n \<notin> foot l (xs @ ys)"
    using dll_live [OF dll, of n] fresh(1) by auto
  obtain p x where p: "mem h (itr_at l ys) = Some p" "mem h (pred_of l xs) = Some x"
    using dll_live [OF dll] pred_in [of l xs] itr_in [of ys l] by (metis UnCI foot_append)
  have "prv p = pred_of l xs"
    using dll_gap [OF dll] p by (simp add: linked_def prev_of_def)
  moreover have ne: "n \<noteq> pred_of l xs" "n \<noteq> itr_at l ys"
    using fresh(1) p by auto
  ultimately obtain h' where h': "NodeLinkBefore h1 (itr_at l ys) n = Some h'"
    "next_of h' = (next_of h1)(n := Some (itr_at l ys), pred_of l xs := Some n)"
    "prev_of h' = (prev_of h1)(n := Some (pred_of l xs), itr_at l ys := Some n)"
    "elem_of h' = elem_of h1" "brk h' = brk h1" "alloc_ok h' = alloc_ok h1"
    "dom (mem h') = dom (mem h1)" "same_cells h1 h' (- {pred_of l xs, n, itr_at l ys})"
    using p fresh(2) by (auto intro: NodeLinkBefore_spec [of h1 "itr_at l ys" p "pred_of l xs" x n ?n])
  have "next_of h' = (next_of h)(n := Some (itr_at l ys), pred_of l xs := Some n)"
    "prev_of h' = (prev_of h)(n := Some (pred_of l xs), itr_at l ys := Some n)"
    "elem_of h' = (elem_of h)(n := Some (d, False))"
    using h'(2-4) fresh(2) by (auto simp: next_of_def prev_of_def elem_of_def fun_eq_iff)
  then have "dll h' l (xs @ (n, d) # ys)"
    by (intro dll_insert [OF dll nf])
  moreover have "store_wf h'"
    using store_wf_malloc [OF wf m] h'(5,7) by (auto simp: store_wf_def)
  moreover have "same_cells h h' (- insert n (foot l (xs @ ys)))"
    using h'(8) fresh(2) pred_in [of l xs] itr_in [of ys l] by (auto simp: same_cells_def foot_append)
  ultimately show thesis
    using that [OF h'(1)] h' fresh by auto
qed

lemma unlink_free:
  assumes wf: "store_wf h" and dll: "dll h l (xs @ (n, d) # ys)"
  obtains h1 h' where "NodeUnlink h n = Some h1" "free h1 n = Some h'" "dll h' l (xs @ ys)"
    "store_wf h'" "dom (mem h') = dom (mem h) - {n}"
    "same_cells h h' (- foot l (xs @ (n, d) # ys))" "alloc_ok h' = alloc_ok h"
proof -
  obtain y where y: "mem h n = Some y"
    using dll_live [OF dll, of n] by (auto simp: foot_def)
  obtain x z where xz: "mem h (pred_of l xs) = Some x" "mem h (itr_at l ys) = Some z"
    using dll_live [OF dll] pred_in [of l xs] itr_in [of ys l]
    by (metis UnCI foot_append foot_Cons insertCI)
  have lk: "prv y = pred_of l xs" "nxt y = itr_at l ys"
    using dll_gap [OF dll] dll_gap [of h l "xs @ [(n, d)]" ys] dll y
    by (auto simp: linked_def prev_of_def next_of_def)
  have ne: "n \<noteq> pred_of l xs" "n \<noteq> itr_at l ys"
    using dll_remove_distinct(1) [OF dll] pred_in [of l xs] itr_in [of ys l] by (auto simp: foot_append)
  obtain h1 where h1: "NodeUnlink h n = Some h1" "mem h1 n = Some (y\<lparr>prv := NULL, nxt := NULL\<rparr>)"
    "\<And>c. c \<noteq> n \<Longrightarrow> next_of h1 c = ((next_of h)(pred_of l xs := Some (itr_at l ys))) c"
    "\<And>c. c \<noteq> n \<Longrightarrow> prev_of h1 c = ((prev_of h)(itr_at l ys := Some (pred_of l xs))) c"
    "elem_of h1 = elem_of h" "brk h1 = brk h" "alloc_ok h1 = alloc_ok h"
    "dom (mem h1) = dom (mem h)" "same_cells h h1 (- {pred_of l xs, n, itr_at l ys})"
    using NodeUnlink_spec [OF y lk xz ne] by metis
  let ?h = "h1\<lparr>mem := (mem h1)(n := None)\<rparr>"
  have f: "free h1 n = Some ?h"
    using h1(2) store_wf_live [OF wf y] by (simp add: store_simps)
  have "dll ?h l (xs @ ys)"
    by (rule dll_delete [OF dll]) (use h1(3-5) cells_eq [of ?h _ h1] in auto)
  moreover have "store_wf ?h"
    using wf h1(6,8) by (auto simp: store_wf_def dom_def)
  moreover have "same_cells h ?h (- foot l (xs @ (n, d) # ys))"
    using h1(9) pred_in [of l xs] itr_in [of ys l] by (auto simp: same_cells_def foot_append foot_Cons)
  ultimately show thesis
    using that [OF h1(1) f] h1(7,8) by auto
qed

section \<open>All lists of a store\<close>

type_synonym lists = "addr \<Rightarrow> (addr \<times> addr) list option"

definition dlists :: "heap \<Rightarrow> lists \<Rightarrow> bool" where
  "dlists h A \<longleftrightarrow> store_wf h \<and> (\<forall>l xs. A l = Some xs \<longrightarrow> dll h l xs) \<and>
     (\<forall>l xs l' xs'. A l = Some xs \<longrightarrow> A l' = Some xs' \<longrightarrow> l \<noteq> l' \<longrightarrow> foot l xs \<inter> foot l' xs' = {}) \<and>
     dom (mem h) = (\<Union>l \<in> dom A. foot l (the (A l)))"

lemma dlistsD:
  assumes "dlists h A"
  shows "store_wf h" and "A l = Some xs \<Longrightarrow> dll h l xs" and "A l = Some xs \<Longrightarrow> foot l xs \<subseteq> dom (mem h)"
  using assms by (auto simp: dlists_def)

lemma dlists_update:
  assumes R: "dlists h A" and l: "A l = Some xs" and d: "dll h' l xs'" and wf: "store_wf h'"
    and new: "new \<inter> dom (mem h) = {}" and sub: "foot l xs' \<subseteq> foot l xs \<union> new"
    and dm: "dom (mem h') = (dom (mem h) - foot l xs) \<union> foot l xs'"
    and same: "same_cells h h' (- (foot l xs \<union> new))"
  shows "dlists h' (A(l := Some xs'))"
proof -
  have other: "foot k ys \<inter> (foot l xs \<union> new) = {}" if "A k = Some ys" "k \<noteq> l" for k ys
  proof -
    have "foot k ys \<inter> foot l xs = {}"
      using R l that unfolding dlists_def by metis
    moreover have "foot k ys \<inter> new = {}"
      using dlistsD(3) [OF R that(1)] new by auto
    ultimately show ?thesis by auto
  qed
  show ?thesis
    unfolding dlists_def
  proof (intro conjI allI impI)
    show "store_wf h'" by (rule wf)
    fix k ys assume k: "(A(l := Some xs')) k = Some ys"
    show "dll h' k ys"
    proof (cases "k = l")
      case False
      then have "same_cells h h' (foot k ys)"
        using k same other [of k ys] by (auto simp: same_cells_def)
      then show ?thesis
        using dll_frame [OF dlistsD(2) [OF R]] k False by auto
    qed (use k d in auto)
    fix k' ys' assume k': "(A(l := Some xs')) k' = Some ys'" and ne: "k \<noteq> k'"
    have "foot k ys \<inter> foot k' ys' = {}" if "k \<noteq> l" "k' \<noteq> l"
      using R k k' ne that by (auto simp: dlists_def)
    then show "foot k ys \<inter> foot k' ys' = {}"
      using k k' ne sub other [of k ys] other [of k' ys'] by (auto split: if_splits)
  next
    have "(\<Union>k \<in> dom (A(l := Some xs')). foot k (the ((A(l := Some xs')) k))) =
        (\<Union>k \<in> dom A - {l}. foot k (the (A k))) \<union> foot l xs'"
      by (auto split: if_splits)
    moreover have "(\<Union>k \<in> dom A - {l}. foot k (the (A k))) = dom (mem h) - foot l xs"
    proof
      show "(\<Union>k \<in> dom A - {l}. foot k (the (A k))) \<subseteq> dom (mem h) - foot l xs"
        using other dlistsD(3) [OF R] by fastforce
      show "dom (mem h) - foot l xs \<subseteq> (\<Union>k \<in> dom A - {l}. foot k (the (A k)))"
        using R l by (auto simp: dlists_def)
    qed
    ultimately show "dom (mem h') = (\<Union>k \<in> dom (A(l := Some xs')). foot k (the ((A(l := Some xs')) k)))"
      using dm by simp
  qed
qed

lemma dlists_nodes:
  assumes "dlists h A" "A l = Some xs"
  shows "distinct (l # map fst xs)" "NULL \<notin> set (l # map fst xs)" "l \<noteq> NULL"
proof -
  have "dll h l xs" "store_wf h" "foot l xs \<subseteq> dom (mem h)"
    using assms dlistsD [of h A] by auto
  then show "distinct (l # map fst xs)" "NULL \<notin> set (l # map fst xs)" "l \<noteq> NULL"
    by (auto simp: dll_def foot_def dest!: store_wf_NULL)
qed

lemma dlists_same_mem: "dlists h A \<Longrightarrow> store_wf h' \<Longrightarrow> mem h' = mem h \<Longrightarrow> dlists h' A"
  unfolding dlists_def by (metis dll_frame same_cells_def)

lemma dlists_malloc_fails:
  assumes "dlists h A" "malloc h v = (NULL, h1)"
  shows "dlists h1 A" "\<not> alloc_ok h (brk h)"
proof -
  have wf: "store_wf h" by (rule dlistsD(1) [OF assms(1)])
  show "\<not> alloc_ok h (brk h)"
    using wf assms(2) by (auto simp: malloc_def store_wf_def split: if_splits)
  then have "mem h1 = mem h"
    using assms(2) by (auto simp: malloc_def)
  then show "dlists h1 A"
    by (rule dlists_same_mem [OF assms(1) store_wf_malloc [OF wf assms(2)]])
qed

lemma dlists_create:
  assumes R: "dlists h A"
  shows "\<exists>l h'. ListCreate h = Some (l, h') \<and> alloc_ok h' = alloc_ok h \<and>
    (if l = NULL then dlists h' A \<and> \<not> alloc_ok h (brk h)
     else l \<notin> dom A \<and> dlists h' (A(l := Some [])))"
proof -
  let ?n = "\<lparr>data = NULL, nxt = NULL, prv = NULL, is_sentinel = False\<rparr>"
  note wf = dlistsD(1) [OF R]
  obtain l h1 where m: "malloc h ?n = (l, h1)" by fastforce
  show ?thesis
  proof (cases "l = NULL")
    case True
    then show ?thesis
      using dlists_malloc_fails [OF R] m malloc_alloc_ok [OF m] by (simp add: ListCreate_def)
  next
    case False
    let ?h = "h1\<lparr>mem := (mem h1)(l := Some \<lparr>data = NULL, nxt = l, prv = l, is_sentinel = True\<rparr>)\<rparr>"
    have f: "mem h l = None" "mem h1 = (mem h)(l := Some ?n)"
      using malloc_cases [OF wf m] False by auto
    have lA: "l \<notin> dom A"
      using dlistsD(3) [OF R] f(1) by (fastforce simp: foot_def)
    have d: "dll ?h l []"
      by (simp add: dll_def linked_def next_of_def prev_of_def elem_of_def)
    have wf': "store_wf ?h"
      using store_wf_malloc [OF wf m] f(2) by (auto simp: store_wf_def)
    have nl: "l \<notin> foot k ys" if "A k = Some ys" for k ys
      using dlistsD(3) [OF R that] f(1) by auto
    have "dll ?h k ys" if "A k = Some ys" for k ys
      by (rule dll_frame [OF dlistsD(2) [OF R that]]) (use nl [OF that] f in \<open>auto simp: same_cells_def\<close>)
    moreover note nl
    moreover have "(\<Union>k \<in> dom (A(l := Some [])). foot k (the ((A(l := Some [])) k))) =
        insert l (\<Union>k \<in> dom A. foot k (the (A k)))"
    proof -
      have "(\<Union>k \<in> dom A. foot k (the ((A(l := Some [])) k))) = (\<Union>k \<in> dom A. foot k (the (A k)))"
        using lA by (intro SUP_cong) auto
      then show ?thesis by (simp add: foot_def)
    qed
    moreover have "dom (mem ?h) = insert l (\<Union>k \<in> dom A. foot k (the (A k)))"
      using R f(2) by (auto simp: dlists_def)
    moreover have "\<And>k ys k' ys'. A k = Some ys \<Longrightarrow> A k' = Some ys' \<Longrightarrow> k \<noteq> k' \<Longrightarrow> foot k ys \<inter> foot k' ys' = {}"
      using R by (simp add: dlists_def)
    moreover have "foot l [] = {l}"
      by (simp add: foot_def)
    ultimately have "dlists ?h (A(l := Some []))"
      unfolding dlists_def using d wf' by (simp split: if_splits)
    moreover have "ListCreate h = Some (l, ?h)"
      using m False f(2) by (simp add: ListCreate_def put_def)
    ultimately show ?thesis
      using False lA malloc_alloc_ok [OF m] by simp
  qed
qed

lemma dlists_link:
  assumes R: "dlists h A" and l: "A l = Some (xs @ ys)" and c: "NodeCreate h d = (n, h1)" and n: "n \<noteq> NULL"
  shows "\<exists>h'. NodeLinkBefore h1 (itr_at l ys) n = Some h' \<and> dlists h' (A(l := Some (xs @ (n, d) # ys))) \<and>
    alloc_ok h' = alloc_ok h"
proof -
  note wf = dlistsD(1) [OF R] and dl = dlistsD(2) [OF R l] and dm = dlistsD(3) [OF R l]
  obtain h' where h': "NodeLinkBefore h1 (itr_at l ys) n = Some h'" "dll h' l (xs @ (n, d) # ys)"
    "store_wf h'" "n \<notin> dom (mem h)" "dom (mem h') = insert n (dom (mem h))"
    "same_cells h h' (- insert n (foot l (xs @ ys)))" "alloc_ok h' = alloc_ok h"
    by (rule create_link [OF wf dl c n])
  have "dlists h' (A(l := Some (xs @ (n, d) # ys)))"
    by (rule dlists_update [OF R l h'(2,3), of "{n}"])
      (use h' dm in \<open>auto simp: foot_append foot_Cons same_cells_def\<close>)
  with h' show ?thesis by blast
qed

lemma dlists_unlink:
  assumes R: "dlists h A" and l: "A l = Some (xs @ (n, d) # ys)"
  shows "\<exists>h1 h'. NodeUnlink h n = Some h1 \<and> free h1 n = Some h' \<and> dlists h' (A(l := Some (xs @ ys))) \<and>
    alloc_ok h' = alloc_ok h"
proof -
  note wf = dlistsD(1) [OF R] and dl = dlistsD(2) [OF R l] and dm = dlistsD(3) [OF R l]
  obtain h1 h' where h': "NodeUnlink h n = Some h1" "free h1 n = Some h'" "dll h' l (xs @ ys)"
    "store_wf h'" "dom (mem h') = dom (mem h) - {n}"
    "same_cells h h' (- foot l (xs @ (n, d) # ys))" "alloc_ok h' = alloc_ok h"
    by (rule unlink_free [OF wf dl])
  have "n \<notin> foot l (xs @ ys)"
    by (rule dll_remove_distinct(1) [OF dl])
  then have "dlists h' (A(l := Some (xs @ ys)))"
    by (intro dlists_update [OF R l h'(3,4), of "{}"])
      (use h' dm in \<open>auto simp: foot_append foot_Cons same_cells_def\<close>)
  with h' show ?thesis by blast
qed

section \<open>The operations on the lists of a store\<close>

lemma dlists_sentinel:
  assumes "dlists h A" "A l = Some xs"
  obtains s where "mem h l = Some s" "is_sentinel s" "nxt s = itr_at l xs" "prv s = pred_of l xs"
proof -
  have d: "dll h l xs" using dlistsD(2) assms by blast
  then show thesis
    using that dll_gap [of h l "[]" xs] dll_gap [of h l xs "[]"]
    by (auto simp: dll_def elem_of_def linked_def next_of_def prev_of_def)
qed

lemma dlists_node:
  assumes "dlists h A" "A l = Some (xs @ (n, d) # ys)"
  obtains p where "mem h n = Some p" "data p = d" "\<not> is_sentinel p" "nxt p = itr_at l ys"
    "prv p = pred_of l xs" "n \<noteq> NULL" "n \<noteq> l"
proof -
  have d: "dll h l (xs @ (n, d) # ys)" using dlistsD(2) assms by blast
  moreover have "n \<noteq> NULL" "n \<noteq> l"
    using dlists_nodes [OF assms] by auto
  ultimately show thesis
    using that dll_gap [OF d] dll_gap [of h l "xs @ [(n, d)]" ys]
    by (auto simp: dll_def elem_of_def linked_def next_of_def prev_of_def)
qed

lemma dlists_begin: "dlists h A \<Longrightarrow> A l = Some xs \<Longrightarrow> ListItrBegin h l = Some (itr_at l xs)"
  by (frule (1) dlists_nodes(3), erule (1) dlists_sentinel) (simp add: ListItrBegin_def deref_def)

lemma dlists_end: "dlists h A \<Longrightarrow> A l = Some xs \<Longrightarrow> ListItrEnd h l = Some l"
  using dlists_nodes(3) [of h A l xs] by (auto simp: ListItrEnd_def)

lemma dlists_next:
  "dlists h A \<Longrightarrow> A l = Some (xs @ (n, d) # ys) \<Longrightarrow> ListItrNext h n = Some (itr_at l ys)"
  by (erule dlists_node) (auto simp: ListItrNext_def deref_def)

lemma dlists_get: "dlists h A \<Longrightarrow> A l = Some (xs @ (n, d) # ys) \<Longrightarrow> ListItrGet h n = Some d"
  by (erule dlists_node) (auto simp: ListItrGet_def deref_def)

lemma dlists_at_end:
  assumes "dlists h A" "A l = Some xs"
  shows "ListItrNext h l = Some l" "ListItrGet h l = Some NULL" "ListItrSet h l v = Some (NULL, h)"
    "ListItrRemove h l = Some (NULL, h)"
  using dlists_nodes(3) [OF assms]
  by (auto simp: ListItrNext_def ListItrGet_def ListItrSet_def ListItrRemove_def deref_def
      intro: dlists_sentinel [OF assms])

lemma dlists_prev:
  assumes R: "dlists h A" and l: "A l = Some (xs @ ys)"
  shows "ListItrPrev h (itr_at l ys) = Some (if xs = [] then itr_at l ys else pred_of l xs)"
proof -
  obtain s where s: "mem h l = Some s" "is_sentinel s" "prv s = pred_of l (xs @ ys)" "l \<noteq> NULL"
    using dlists_sentinel [OF R l] dlists_nodes(3) [OF R l] by metis
  obtain p where p: "mem h (itr_at l ys) = Some p" "prv p = pred_of l xs" "itr_at l ys \<noteq> NULL"
  proof (cases ys)
    case (Cons y ys')
    then show thesis
      using that R l dlists_node [of h A l xs "fst y" "snd y" ys'] by auto
  qed (use s that in auto)
  show ?thesis
  proof (cases xs rule: rev_cases)
    case Nil
    then show ?thesis using p s by (simp add: ListItrPrev_def deref_def)
  next
    case (snoc xs' x)
    obtain q where "mem h (fst x) = Some q" "\<not> is_sentinel q"
      using dlists_node [OF R, of l xs' "fst x" "snd x" ys] l snoc by auto
    then show ?thesis using p snoc by (simp add: ListItrPrev_def deref_def)
  qed
qed

text \<open>
  The outcome of an operation that allocates a node: it fails, leaving every list as it was, or it
  returns the new node.
\<close>

definition grown :: "(addr \<times> heap) option \<Rightarrow> heap \<Rightarrow> lists \<Rightarrow> (addr \<Rightarrow> lists) \<Rightarrow> bool" where
  "grown r h A B \<longleftrightarrow> (\<exists>n h'. r = Some (n, h') \<and> alloc_ok h' = alloc_ok h \<and>
     (if n = NULL then dlists h' A \<and> \<not> alloc_ok h (brk h) else dlists h' (B n)))"

lemma grown_link:
  assumes R: "dlists h A" and l: "A l = Some (xs @ ys)" and c: "NodeCreate h d = (n, h1)"
    and r: "n = NULL \<Longrightarrow> r = Some (NULL, h1)"
      "\<And>h'. n \<noteq> NULL \<Longrightarrow> NodeLinkBefore h1 (itr_at l ys) n = Some h' \<Longrightarrow> r = Some (n, h')"
  shows "grown r h A (\<lambda>n. A(l := Some (xs @ (n, d) # ys)))"
proof (cases "n = NULL")
  case True
  have m: "malloc h \<lparr>data = d, nxt = NULL, prv = NULL, is_sentinel = False\<rparr> = (NULL, h1)"
    using c True by (simp add: NodeCreate_def)
  show ?thesis
    using dlists_malloc_fails [OF R m] malloc_alloc_ok [OF m] r(1) True by (simp add: grown_def)
next
  case False
  obtain h' where "NodeLinkBefore h1 (itr_at l ys) n = Some h'"
    "dlists h' (A(l := Some (xs @ (n, d) # ys)))" "alloc_ok h' = alloc_ok h"
    using dlists_link [OF R l c False] by blast
  then show ?thesis
    using r(2) False by (simp add: grown_def)
qed

lemma dlists_insert_before:
  assumes R: "dlists h A" and l: "A l = Some (xs @ ys)"
  shows "grown (ListItrInsertBefore h (itr_at l ys) d) h A (\<lambda>n. A(l := Some (xs @ (n, d) # ys)))"
proof -
  obtain n h1 where c: "NodeCreate h d = (n, h1)" by fastforce
  have "itr_at l ys \<noteq> NULL"
    using dlists_nodes [OF R l] by (cases ys) auto
  then show ?thesis
    using c by (intro grown_link [OF R l c]) (simp_all add: ListItrInsertBefore_def)
qed

lemma dlists_push_tail:
  assumes R: "dlists h A" and l: "A l = Some xs"
  shows "grown (ListPushTail h l d) h A (\<lambda>n. A(l := Some (xs @ [(n, d)])))"
proof -
  obtain n h1 where c: "NodeCreate h d = (n, h1)" by fastforce
  have "A l = Some (xs @ [])" using l by simp
  then show ?thesis
    using c dlists_nodes(3) [OF R l] by (intro grown_link [OF R _ c]) (simp_all add: ListPushTail_def)
qed

lemma dlists_push_head:
  assumes R: "dlists h A" and l: "A l = Some xs"
  shows "grown (ListPushHead h l d) h A (\<lambda>n. A(l := Some ((n, d) # xs)))"
proof -
  obtain n h1 where c: "NodeCreate h d = (n, h1)" by fastforce
  obtain s where s: "mem h l = Some s" "nxt s = itr_at l xs"
    using dlists_sentinel [OF R l] by metis
  have "mem h1 l = Some s"
    by (rule malloc_cases [OF dlistsD(1) [OF R] c [unfolded NodeCreate_def]]) (use s in auto)
  then have "grown (ListPushHead h l d) h A (\<lambda>n. A(l := Some ([] @ (n, d) # xs)))"
    using c s l dlists_nodes(3) [OF R l]
    by (intro grown_link [OF R _ c]) (simp_all add: ListPushHead_def deref_def)
  then show ?thesis by simp
qed

lemma dlists_remove:
  assumes R: "dlists h A" and l: "A l = Some (xs @ (n, d) # ys)"
  shows "\<exists>h'. ListItrRemove h n = Some (d, h') \<and> dlists h' (A(l := Some (xs @ ys))) \<and> alloc_ok h' = alloc_ok h"
proof -
  obtain p where "mem h n = Some p" "data p = d" "\<not> is_sentinel p" "n \<noteq> NULL"
    by (rule dlists_node [OF R l])
  then show ?thesis
    using dlists_unlink [OF R l] by (auto simp: ListItrRemove_def deref_def)
qed

lemma dlists_pop_head:
  assumes R: "dlists h A" and l: "A l = Some xs"
  shows "\<exists>h'. ListPopHead h l = Some (case xs of [] \<Rightarrow> NULL | x # _ \<Rightarrow> snd x, h') \<and>
    dlists h' (A(l := Some (tl xs))) \<and> alloc_ok h' = alloc_ok h"
proof -
  obtain s where s: "mem h l = Some s" "nxt s = itr_at l xs" "l \<noteq> NULL"
    using dlists_sentinel [OF R l] dlists_nodes(3) [OF R l] by metis
  show ?thesis
  proof (cases xs)
    case Nil
    moreover have "A(l := Some []) = A" using l Nil by auto
    ultimately show ?thesis
      using R s by (auto simp: ListPopHead_def deref_def)
  next
    case (Cons x ys)
    obtain p where "mem h (fst x) = Some p" "data p = snd x" "fst x \<noteq> l"
      by (rule dlists_node [OF R, of l "[]" "fst x" "snd x" ys]) (use l Cons in auto)
    then show ?thesis
      using dlists_unlink [OF R, of l "[]" "fst x" "snd x" ys] l Cons s by (auto simp: ListPopHead_def deref_def)
  qed
qed

lemma dlists_pop_tail:
  assumes R: "dlists h A" and l: "A l = Some xs"
  shows "\<exists>h'. ListPopTail h l = Some (if xs = [] then NULL else snd (last xs), h') \<and>
    dlists h' (A(l := Some (butlast xs))) \<and> alloc_ok h' = alloc_ok h"
proof -
  obtain s where s: "mem h l = Some s" "prv s = pred_of l xs" "l \<noteq> NULL"
    using dlists_sentinel [OF R l] dlists_nodes(3) [OF R l] by metis
  show ?thesis
  proof (cases xs rule: rev_cases)
    case Nil
    moreover have "A(l := Some []) = A" using l Nil by auto
    ultimately show ?thesis
      using R s by (auto simp: ListPopTail_def deref_def)
  next
    case (snoc ys x)
    obtain p where "mem h (fst x) = Some p" "data p = snd x" "fst x \<noteq> l"
      by (rule dlists_node [OF R, of l ys "fst x" "snd x" "[]"]) (use l snoc in auto)
    then show ?thesis
      using dlists_unlink [OF R, of l ys "fst x" "snd x" "[]"] l snoc s by (auto simp: ListPopTail_def deref_def)
  qed
qed

lemma dlists_set:
  assumes R: "dlists h A" and l: "A l = Some (xs @ (n, d) # ys)"
  shows "\<exists>h'. ListItrSet h n v = Some (d, h') \<and> dlists h' (A(l := Some (xs @ (n, v) # ys))) \<and> alloc_ok h' = alloc_ok h"
proof -
  obtain p where p: "mem h n = Some p" "data p = d" "\<not> is_sentinel p" "n \<noteq> NULL"
    using dlists_node [OF R l] by metis
  let ?h = "h\<lparr>mem := (mem h)(n := Some (p\<lparr>data := v\<rparr>))\<rparr>"
  have dl: "dll h l (xs @ (n, d) # ys)" by (rule dlistsD(2) [OF R l])
  have lk: "next_of ?h = next_of h" "prev_of ?h = prev_of h" "elem_of ?h = (elem_of h)(n := Some (v, False))"
    using p by (auto simp: next_of_def prev_of_def elem_of_def fun_eq_iff)
  have "chain ?h zs \<longleftrightarrow> chain h zs" for zs
    by (rule chain_cong) (simp_all add: lk)
  then have "dll ?h l (xs @ (n, v) # ys)"
    using dl by (auto simp: dll_def lk)
  moreover have "store_wf ?h"
    using dlistsD(1) [OF R] p(1) by (auto simp: store_wf_def)
  ultimately have "dlists ?h (A(l := Some (xs @ (n, v) # ys)))"
    using dlistsD(3) [OF R l] p(1)
    by (intro dlists_update [OF R l, of ?h _ "{}"]) (auto simp: same_cells_def foot_append foot_Cons)
  then show ?thesis
    using p by (auto simp: ListItrSet_def deref_def put_def)
qed

section \<open>The loops\<close>

lemma chain_same: "(\<forall>x \<in> set as. mem h' x = mem h x) \<Longrightarrow> chain h' as \<longleftrightarrow> chain h as"
  using not_in_tl_butlast [of _ as] by (intro chain_cong ballI) (metis cells_eq)+

lemma destroy_nodes_spec:
  assumes "store_wf h" "chain h (map fst ys @ [l])" "distinct (map fst ys @ [l])"
    and "\<forall>x \<in> set ys. elem_of h (fst x) = Some (snd x, False)"
  shows "destroy_nodes h l (itr_at l ys) =
    Some (map snd ys, h\<lparr>mem := (\<lambda>a. if a \<in> fst ` set ys then None else mem h a)\<rparr>)"
  using assms
proof (induction ys arbitrary: h)
  case Nil
  then show ?case by (subst destroy_nodes.simps) simp
next
  case (Cons y ys)
  obtain n d where y: "y = (n, d)" by fastforce
  have c: "chain h (n # map fst ys @ [l])" and nl: "n \<noteq> l" "n \<notin> set (map fst ys @ [l])"
    using Cons.prems y by auto
  obtain p where p: "mem h n = Some p" "data p = d"
    using Cons.prems(4) y by (auto simp: elem_of_def)
  have lk: "nxt p = itr_at l ys"
    using chain_gap [of h "[n]" "map fst ys @ [l]"] c p by (simp add: linked_def next_of_def)
  let ?h = "h\<lparr>mem := (mem h)(n := None)\<rparr>"
  have same: "mem ?h a = mem h a" if "a \<in> set (map fst ys @ [l])" for a
    using that nl by auto
  have "chain h (map fst ys @ [l])"
    using c chain_append [of h "[n]" "hd (map fst ys @ [l])" "tl (map fst ys @ [l])"] by simp
  moreover have "chain ?h (map fst ys @ [l]) \<longleftrightarrow> chain h (map fst ys @ [l])"
    by (rule chain_same) (use same in blast)
  ultimately have ch: "chain ?h (map fst ys @ [l])" by blast
  have wf: "store_wf ?h" and n0: "n \<noteq> NULL"
    using Cons.prems(1) p by (auto simp: store_wf_def)
  have el: "\<forall>x \<in> set ys. elem_of ?h (fst x) = Some (snd x, False)"
    using Cons.prems(4) same by (auto simp: elem_of_def simp del: fun_upd_apply)
  have "destroy_nodes ?h l (itr_at l ys) =
      Some (map snd ys, ?h\<lparr>mem := (\<lambda>a. if a \<in> fst ` set ys then None else mem ?h a)\<rparr>)"
    using Cons.IH [OF wf ch _ el] Cons.prems(3) by simp
  moreover have "(\<lambda>a. if a \<in> fst ` set ys then None else mem ?h a) =
      (\<lambda>a. if a \<in> fst ` set (y # ys) then None else mem h a)"
    by (auto simp: y fun_eq_iff)
  ultimately show ?case
    using nl(1) p lk n0 y by (subst destroy_nodes.simps) (simp add: store_simps)
qed

lemma dlists_destroy_mem:
  assumes R: "dlists h A" and l: "A l = Some xs"
  shows "\<exists>h'. ListDestroy h (Some l) b = Some (if b then map snd xs else [], Some NULL, h') \<and>
    dlists h' (A(l := None)) \<and> alloc_ok h' = alloc_ok h \<and> mem h' = (\<lambda>a. if a \<in> foot l xs then None else mem h a)"
proof -
  let ?m = "\<lambda>a. if a \<in> foot l xs then None else mem h a"
  note wf = dlistsD(1) [OF R] and dl = dlistsD(2) [OF R l]
  obtain s where s: "mem h l = Some s" "nxt s = itr_at l xs" "l \<noteq> NULL"
    using dlists_sentinel [OF R l] dlists_nodes(3) [OF R l] by metis
  have c: "chain h (map fst xs @ [l])"
    using dl chain_append [of h "[l]" "hd (map fst xs @ [l])" "tl (map fst xs @ [l])"] by (simp add: dll_def)
  have "l \<notin> fst ` set xs" using dl by (auto simp: dll_def)
  moreover have "(\<lambda>a. if a \<in> fst ` set xs then None else mem h a)(l := None) = ?m"
    by (auto simp: foot_def fun_eq_iff)
  ultimately have D: "ListDestroy h (Some l) b = Some (if b then map snd xs else [], Some NULL, h\<lparr>mem := ?m\<rparr>)"
    using s destroy_nodes_spec [OF wf c] dl
    by (simp add: ListDestroy_def deref_def dll_def free_def)
  have disj: "foot k ys \<inter> foot l xs = {}" if "A k = Some ys" "k \<noteq> l" for k ys
    using R l that unfolding dlists_def by metis
  have frame: "dll (h\<lparr>mem := ?m\<rparr>) k ys" if "A k = Some ys" "k \<noteq> l" for k ys
    by (rule dll_frame [OF dlistsD(2) [OF R that(1)]]) (use disj [OF that] in \<open>auto simp: same_cells_def\<close>)
  have "dom ?m = dom (mem h) - foot l xs"
    by (auto split: if_splits)
  also have "\<dots> = (\<Union>k \<in> dom (A(l := None)). foot k (the ((A(l := None)) k)))"
  proof -
    let ?U = "\<Union>k \<in> dom A - {l}. foot k (the (A k))"
    have u: "(\<Union>k \<in> dom (A(l := None)). foot k (the ((A(l := None)) k))) = ?U"
      by (intro SUP_cong) auto
    have "dom (mem h) = (\<Union>k \<in> insert l (dom A - {l}). foot k (the (A k)))"
      using R l by (simp add: dlists_def insert_absorb domI)
    then have "dom (mem h) = foot l xs \<union> ?U"
      by (simp only: UN_insert l option.sel)
    moreover have "foot l xs \<inter> ?U = {}"
      using disj by fastforce
    ultimately have "dom (mem h) - foot l xs = ?U" by blast
    then show ?thesis by (simp only: u)
  qed
  finally have "dlists (h\<lparr>mem := ?m\<rparr>) (A(l := None))"
    unfolding dlists_def using wf frame R
    by (simp add: store_wf_def) (simp add: dlists_def)
  with D show ?thesis by simp
qed

lemma dlists_destroy:
  "dlists h A \<Longrightarrow> A l = Some xs \<Longrightarrow>
   \<exists>h'. ListDestroy h (Some l) b = Some (if b then map snd xs else [], Some NULL, h') \<and>
     dlists h' (A(l := None)) \<and> alloc_ok h' = alloc_ok h"
  using dlists_destroy_mem by blast

lemma count_nodes_spec:
  assumes R: "dlists h A" and l: "A l = Some (xs @ ys)"
  shows "count_nodes h l (itr_at l ys) k = Some (k + of_nat (length ys))"
  using l
proof (induction ys arbitrary: xs k)
  case Nil
  then show ?case by (subst count_nodes.simps) simp
next
  case (Cons y ys)
  obtain p where "mem h (fst y) = Some p" "nxt p = itr_at l ys" "fst y \<noteq> l"
    by (rule dlists_node [OF R, of l xs "fst y" "snd y" ys]) (use Cons.prems in auto)
  then show ?case
    using Cons.IH [of "xs @ [y]" "k + 1"] Cons.prems
    by (subst count_nodes.simps) (simp add: deref_def add.assoc)
qed

text \<open>What a walk with an action does: it stops at the first element on which the action gives 0.\<close>

fun each :: "(addr \<Rightarrow> 's \<Rightarrow> int \<times> 's) \<Rightarrow> addr \<Rightarrow> (addr \<times> addr) list \<Rightarrow> 's \<Rightarrow> addr \<times> 's" where
  "each act e [] ctx = (e, ctx)"
| "each act e ((n, d) # ys) ctx =
     (let (r, ctx') = act d ctx in if r = 0 then (n, ctx') else each act e ys ctx')"

lemma foreach_nodes_spec:
  assumes R: "dlists h A" and l: "A l = Some (xs @ ys @ zs)"
  shows "foreach_nodes h (itr_at l (ys @ zs)) (itr_at l zs) act ctx = Some (each act (itr_at l zs) ys ctx)"
  using l
proof (induction ys arbitrary: xs ctx)
  case Nil
  then show ?case by (subst foreach_nodes.simps) simp
next
  case (Cons y ys)
  obtain n d where y: "y = (n, d)" by fastforce
  obtain p where "mem h n = Some p" "nxt p = itr_at l (ys @ zs)" "data p = d"
    by (rule dlists_node [OF R, of l xs n d "ys @ zs"]) (use Cons.prems y in auto)
  moreover have "n \<noteq> itr_at l zs"
    using dlists_nodes(1) [OF R Cons.prems] y by (cases zs) auto
  ultimately show ?case
    using Cons.IH [of "xs @ [y]"] Cons.prems y
    by (subst foreach_nodes.simps) (simp add: deref_def split: prod.splits)
qed

lemma dlists_empty: "dlists (empty_store ok) Map.empty"
  by (simp add: dlists_def) (simp add: empty_store_def)

section \<open>The contract of a list store\<close>

text \<open>
  What the clients rely on: lists keep their identity, an operation on one list leaves the others
  alone, and an allocating operation either succeeds or changes nothing.
\<close>

locale list_store =
  fixes rel :: "'h \<Rightarrow> lists \<Rightarrow> bool"
    and ok :: "'h \<Rightarrow> nat \<Rightarrow> bool"
    and create :: "'h \<Rightarrow> (addr \<times> 'h) option"
    and push :: "'h \<Rightarrow> addr \<Rightarrow> addr \<Rightarrow> (addr \<times> 'h) option"
    and begin_itr :: "'h \<Rightarrow> addr \<Rightarrow> addr option"
    and end_itr :: "'h \<Rightarrow> addr \<Rightarrow> addr option"
    and next_itr :: "'h \<Rightarrow> addr \<Rightarrow> addr option"
    and get_itr :: "'h \<Rightarrow> addr \<Rightarrow> addr option"
    and remove :: "'h \<Rightarrow> addr \<Rightarrow> (addr \<times> 'h) option"
    and destroy :: "'h \<Rightarrow> addr option \<Rightarrow> bool \<Rightarrow> (addr list \<times> addr option \<times> 'h) option"
  assumes create_law: "rel h A \<Longrightarrow> \<exists>l h'. create h = Some (l, h') \<and> ok h' = ok h \<and>
      (if l = NULL then rel h' A \<and> (\<exists>n. \<not> ok h n) else l \<notin> dom A \<and> rel h' (A(l := Some [])))"
    and push_law: "rel h A \<Longrightarrow> A l = Some xs \<Longrightarrow> \<exists>n h'. push h l d = Some (n, h') \<and> ok h' = ok h \<and>
      (if n = NULL then rel h' A \<and> (\<exists>n. \<not> ok h n) else rel h' (A(l := Some (xs @ [(n, d)]))))"
    and begin_law: "rel h A \<Longrightarrow> A l = Some xs \<Longrightarrow> begin_itr h l = Some (itr_at l xs)"
    and end_law: "rel h A \<Longrightarrow> A l = Some xs \<Longrightarrow> end_itr h l = Some l"
    and next_law: "rel h A \<Longrightarrow> A l = Some (xs @ (n, d) # ys) \<Longrightarrow> next_itr h n = Some (itr_at l ys)"
    and get_law: "rel h A \<Longrightarrow> A l = Some (xs @ (n, d) # ys) \<Longrightarrow> get_itr h n = Some d"
    and remove_law: "rel h A \<Longrightarrow> A l = Some (xs @ (n, d) # ys) \<Longrightarrow>
      \<exists>h'. remove h n = Some (d, h') \<and> rel h' (A(l := Some (xs @ ys))) \<and> ok h' = ok h"
    and destroy_law: "rel h A \<Longrightarrow> A l = Some xs \<Longrightarrow>
      \<exists>h'. destroy h (Some l) b = Some (if b then map snd xs else [], Some NULL, h') \<and>
        rel h' (A(l := None)) \<and> ok h' = ok h"
    and nodes_law: "rel h A \<Longrightarrow> A l = Some xs \<Longrightarrow> l \<noteq> NULL \<and> distinct (l # map fst xs)"
begin

lemma create_cases:
  assumes "rel h A"
  obtains (fails) h' where "create h = Some (NULL, h')" "rel h' A" "ok h' = ok h" "\<exists>n. \<not> ok h n"
  | (created) l h' where "create h = Some (l, h')" "l \<noteq> NULL" "A l = None" "rel h' (A(l := Some []))" "ok h' = ok h"
proof -
  obtain l h' where r: "create h = Some (l, h')" "ok h' = ok h"
    "if l = NULL then rel h' A \<and> (\<exists>n. \<not> ok h n) else l \<notin> dom A \<and> rel h' (A(l := Some []))"
    using create_law [OF assms] by blast
  then show thesis
    using fails [of h'] created [of l h'] by (cases "l = NULL") auto
qed

lemma push_cases:
  assumes "rel h A" "A l = Some xs"
  obtains (fails) h' where "push h l d = Some (NULL, h')" "rel h' A" "ok h' = ok h" "\<exists>n. \<not> ok h n"
  | (pushed) n h' where "push h l d = Some (n, h')" "n \<noteq> NULL" "rel h' (A(l := Some (xs @ [(n, d)])))" "ok h' = ok h"
proof -
  obtain n h' where "push h l d = Some (n, h')" "ok h' = ok h"
    "if n = NULL then rel h' A \<and> (\<exists>n. \<not> ok h n) else rel h' (A(l := Some (xs @ [(n, d)])))"
    using push_law [OF assms] by blast
  then show thesis
    using fails [of h'] pushed [of n h'] by (cases "n = NULL") auto
qed

lemma not_end: "rel h A \<Longrightarrow> A l = Some (xs @ (n, d) # ys) \<Longrightarrow> n \<noteq> l"
  using nodes_law by fastforce

lemma search:
  assumes R: "rel h A" and l: "A l = Some (xs @ ys)" and t: "\<forall>x \<in> set ys. test (snd x) = Some (P (snd x))"
  shows "search_itr (get_itr h) (next_itr h) test (itr_at l ys) l =
    Some (itr_at l (dropWhile (\<lambda>x. \<not> P (snd x)) ys))"
  using l t
proof (induction ys arbitrary: xs)
  case Nil
  then show ?case by (subst search_itr.simps) simp
next
  case (Cons y ys)
  obtain n d where y: "y = (n, d)" by fastforce
  show ?case
    using Cons.IH [of "xs @ [y]"] Cons.prems y not_end [OF R, of l xs n d ys]
      get_law [OF R, of l xs n d ys] next_law [OF R, of l xs n d ys]
    by (subst search_itr.simps) simp
qed

lemma search_from_begin:
  assumes R: "rel h A" and l: "A l = Some xs" and t: "\<forall>x \<in> set xs. test (snd x) = Some (P (snd x))"
  shows "search_itr (get_itr h) (next_itr h) test (itr_at l xs) l =
    Some (itr_at l (dropWhile (\<lambda>x. \<not> P (snd x)) xs))"
  using search [OF R _ t, of l "[]"] l by simp

lemma walk:
  assumes R: "rel h A" and l: "A l = Some (xs @ ys)"
  shows "walk_itr (get_itr h) (next_itr h) body (itr_at l ys) l s = walk_elems body (map snd ys) s"
  using l
proof (induction ys arbitrary: xs s)
  case Nil
  then show ?case by (subst walk_itr.simps) simp
next
  case (Cons y ys)
  obtain n d where y: "y = (n, d)" by fastforce
  show ?case
    using Cons.IH [of "xs @ [y]"] Cons.prems y not_end [OF R, of l xs n d ys]
      get_law [OF R, of l xs n d ys] next_law [OF R, of l xs n d ys]
    by (subst walk_itr.simps) (cases "body d s"; auto)
qed

lemma walk_from_begin:
  assumes R: "rel h A" and l: "A l = Some xs"
  shows "walk_itr (get_itr h) (next_itr h) body (itr_at l xs) l s = walk_elems body (map snd xs) s"
  using walk [OF R, of l "[]" xs] l by simp

end

interpretation dl: list_store dlists alloc_ok ListCreate ListPushTail ListItrBegin ListItrEnd
  ListItrNext ListItrGet ListItrRemove ListDestroy
proof
  fix h A l xs ys n d b
  assume R: "dlists h A"
  show "\<exists>l h'. ListCreate h = Some (l, h') \<and> alloc_ok h' = alloc_ok h \<and>
      (if l = NULL then dlists h' A \<and> (\<exists>n. \<not> alloc_ok h n) else l \<notin> dom A \<and> dlists h' (A(l := Some [])))"
    using dlists_create [OF R] by (metis (full_types))
  show "\<exists>n h'. ListPushTail h l d = Some (n, h') \<and> alloc_ok h' = alloc_ok h \<and>
      (if n = NULL then dlists h' A \<and> (\<exists>n. \<not> alloc_ok h n) else dlists h' (A(l := Some (xs @ [(n, d)]))))"
    if "A l = Some xs"
    using dlists_push_tail [OF R that, of d] unfolding grown_def by (metis (full_types))
  show "l \<noteq> NULL \<and> distinct (l # map fst xs)" if "A l = Some xs"
    using dlists_nodes [OF R that] by blast
qed (rule dlists_begin dlists_end dlists_next dlists_get dlists_remove dlists_destroy; assumption)+


section \<open>Correctness of the list\<close>

text \<open>A store with one list of two elements, for the concrete instances below.\<close>

definition sample_heap :: heap where
  "sample_heap =
     \<lparr>mem = [1 \<mapsto> \<lparr>data = 0, nxt = 2, prv = 3, is_sentinel = True\<rparr>,
             2 \<mapsto> \<lparr>data = 70, nxt = 3, prv = 1, is_sentinel = False\<rparr>,
             3 \<mapsto> \<lparr>data = 80, nxt = 1, prv = 2, is_sentinel = False\<rparr>],
      brk = 4, alloc_ok = (\<lambda>_. True)\<rparr>"

lemma sample_dlists: "dlists sample_heap [1 \<mapsto> [(2, 70), (3, 80)]]"
proof -
  have "dll sample_heap 1 [(2, 70), (3, 80)]"
    by (simp add: dll_def sample_heap_def linked_def next_of_def prev_of_def elem_of_def)
  moreover have "store_wf sample_heap"
    by (simp add: store_wf_def sample_heap_def)
  moreover have "dom (mem sample_heap) = foot 1 [(2, 70), (3, 80)]"
    by (auto simp: sample_heap_def foot_def)
  ultimately show ?thesis
    by (auto simp: dlists_def split: if_splits)
qed

text \<open>
  C37: Insertion, removal and replacement through an iterator. In a store holding any number of
  lists, at any position of a list, \<open>ListItrInsertBefore\<close> inserts the element in front of the iterator (at the
  tail for the end iterator) or, only if \<open>malloc\<close> fails, changes nothing; \<open>ListItrRemove\<close> returns
  the element and frees exactly its node; \<open>ListItrSet\<close> replaces it. The links of all other nodes
  and lists stay intact, and no freed node is touched.
\<close>

theorem list_edits:
  assumes "dlists h A"
  shows "(\<forall>xs ys. A l = Some (xs @ ys) \<longrightarrow>
      (\<exists>n h'. ListItrInsertBefore h (itr_at l ys) d = Some (n, h') \<and>
        (if n = NULL then dlists h' A \<and> \<not> alloc_ok h (brk h) else dlists h' (A(l := Some (xs @ (n, d) # ys)))))) \<and>
    (\<forall>xs n e ys. A l = Some (xs @ (n, e) # ys) \<longrightarrow>
      (\<exists>h'. ListItrRemove h n = Some (e, h') \<and> dlists h' (A(l := Some (xs @ ys)))) \<and>
      (\<exists>h'. ListItrSet h n d = Some (e, h') \<and> dlists h' (A(l := Some (xs @ (n, d) # ys)))))"
proof (intro conjI allI impI)
  fix xs ys assume "A l = Some (xs @ ys)"
  then show "\<exists>n h'. ListItrInsertBefore h (itr_at l ys) d = Some (n, h') \<and>
        (if n = NULL then dlists h' A \<and> \<not> alloc_ok h (brk h) else dlists h' (A(l := Some (xs @ (n, d) # ys))))"
    using dlists_insert_before [OF assms, of l xs ys d] unfolding grown_def by blast
next
  fix xs n e ys assume l: "A l = Some (xs @ (n, e) # ys)"
  show "\<exists>h'. ListItrRemove h n = Some (e, h') \<and> dlists h' (A(l := Some (xs @ ys)))"
    using dlists_remove [OF assms l] by blast
  show "\<exists>h'. ListItrSet h n d = Some (e, h') \<and> dlists h' (A(l := Some (xs @ (n, d) # ys)))"
    using dlists_set [OF assms l, of d] by blast
qed

theorem list_edits_witness:
  "(\<exists>h'. ListItrRemove sample_heap 3 = Some (80, h') \<and> dlists h' [1 \<mapsto> [(2, 70)]]) \<and>
   (\<exists>n h'. ListItrInsertBefore sample_heap 3 90 = Some (n, h') \<and> n \<noteq> NULL \<and>
      dlists h' [1 \<mapsto> [(2, 70), (n, 90), (3, 80)]])"
proof -
  note E = list_edits [OF sample_dlists, of 1 90]
  have "\<exists>h'. ListItrRemove sample_heap 3 = Some (80, h') \<and> dlists h' [1 \<mapsto> [(2, 70)]]"
    using E [THEN conjunct2, rule_format, of "[(2, 70)]" 3 80 "[]"] by simp
  moreover have "\<exists>n h'. ListItrInsertBefore sample_heap 3 90 = Some (n, h') \<and> n \<noteq> NULL \<and>
      dlists h' [1 \<mapsto> [(2, 70), (n, 90), (3, 80)]]"
    using E [THEN conjunct1, rule_format, of "[(2, 70)]" "[(3, 80)]"]
    by (fastforce simp: sample_heap_def split: if_splits)
  ultimately show ?thesis by blast
qed

text \<open>
  The two ends. Pushing at the head or the tail puts the element at that end (or fails only
  when \<open>malloc\<close> does, changing nothing), popping takes the element of that end and gives NULL
  exactly for an empty list; pushes and pops never fail to return.
\<close>

theorem list_ends:
  assumes "dlists h A" and "A l = Some xs"
  shows "(\<exists>n h'. ListPushHead h l d = Some (n, h') \<and>
      (if n = NULL then dlists h' A \<and> \<not> alloc_ok h (brk h) else dlists h' (A(l := Some ((n, d) # xs))))) \<and>
    (\<exists>n h'. ListPushTail h l d = Some (n, h') \<and>
      (if n = NULL then dlists h' A \<and> \<not> alloc_ok h (brk h) else dlists h' (A(l := Some (xs @ [(n, d)]))))) \<and>
    (\<exists>h'. ListPopHead h l = Some (if xs = [] then NULL else snd (hd xs), h') \<and> dlists h' (A(l := Some (tl xs)))) \<and>
    (\<exists>h'. ListPopTail h l = Some (if xs = [] then NULL else snd (last xs), h') \<and>
      dlists h' (A(l := Some (butlast xs))))"
proof (intro conjI)
  show "\<exists>n h'. ListPushHead h l d = Some (n, h') \<and>
      (if n = NULL then dlists h' A \<and> \<not> alloc_ok h (brk h) else dlists h' (A(l := Some ((n, d) # xs))))"
    using dlists_push_head [OF assms, of d] unfolding grown_def by blast
  show "\<exists>n h'. ListPushTail h l d = Some (n, h') \<and>
      (if n = NULL then dlists h' A \<and> \<not> alloc_ok h (brk h) else dlists h' (A(l := Some (xs @ [(n, d)]))))"
    using dlists_push_tail [OF assms, of d] unfolding grown_def by blast
  show "\<exists>h'. ListPopHead h l = Some (if xs = [] then NULL else snd (hd xs), h') \<and> dlists h' (A(l := Some (tl xs)))"
    using dlists_pop_head [OF assms] by (cases xs) auto
  show "\<exists>h'. ListPopTail h l = Some (if xs = [] then NULL else snd (last xs), h') \<and>
      dlists h' (A(l := Some (butlast xs)))"
    using dlists_pop_tail [OF assms] by blast
qed

text \<open>
  \<open>ListDestroy\<close> hands every element to the callback exactly once, in list order, frees every node
  of the list and the list itself and nothing else, and sets the caller's pointer to NULL.
\<close>

theorem list_destroy:
  assumes "dlists h A" and "A l = Some xs"
  shows "\<exists>h'. ListDestroy h (Some l) True = Some (map snd xs, Some NULL, h') \<and>
    dlists h' (A(l := None)) \<and> (\<forall>a. mem h' a \<noteq> None \<longrightarrow> a \<noteq> l \<and> a \<notin> fst ` set xs)"
proof -
  obtain h' where h': "ListDestroy h (Some l) True = Some (map snd xs, Some NULL, h')" "dlists h' (A(l := None))"
    "mem h' = (\<lambda>a. if a \<in> foot l xs then None else mem h a)"
    using dlists_destroy_mem [OF assms, of True] by auto
  then show ?thesis
    by (auto simp: foot_def)
qed

text \<open>
  Reading a list. \<open>ListSize\<close> counts the elements (modulo \<open>2 ^ 64\<close>), \<open>ListIsEmpty\<close> agrees with it, \<open>ListItrForEach\<close>
  over any range visits the elements of the range in order up to and including the first on which the action
  returns 0 and returns that iterator (or the end of the range), and stepping back from a position
  gives the previous node, or stays at the first one.
\<close>

theorem list_reading:
  assumes "dlists h A" and "A l = Some (xs @ ys @ zs)"
  shows "ListSize h l = Some (of_nat (length (xs @ ys @ zs))) \<and>
    ListIsEmpty h l = Some (if xs @ ys @ zs = [] then 1 else 0) \<and>
    ListItrForEach h (itr_at l (ys @ zs)) (itr_at l zs) (Some act) ctx = Some (each act (itr_at l zs) ys ctx) \<and>
    ListItrPrev h (itr_at l zs) =
      Some (if xs @ ys = [] then itr_at l zs else fst (last (xs @ ys)))"
proof (intro conjI)
  let ?x = "xs @ ys @ zs"
  obtain s where s: "mem h l = Some s" "nxt s = itr_at l ?x" "l \<noteq> NULL"
    using dlists_sentinel [OF assms] dlists_nodes(3) [OF assms] by metis
  show "ListSize h l = Some (of_nat (length ?x))"
    using s count_nodes_spec [OF assms(1), of l "[]" ?x 0] assms(2) by (simp add: ListSize_def deref_def)
  have "l \<notin> fst ` set ?x" using dlists_nodes(1) [OF assms] by auto
  then show "ListIsEmpty h l = Some (if ?x = [] then 1 else 0)"
    using s by (cases ?x) (auto simp: ListIsEmpty_def deref_def)
  have "itr_at l (ys @ zs) \<noteq> NULL" "itr_at l zs \<noteq> NULL"
    using dlists_nodes(2) [OF assms] by (cases ys; cases zs; auto)+
  then show "ListItrForEach h (itr_at l (ys @ zs)) (itr_at l zs) (Some act) ctx = Some (each act (itr_at l zs) ys ctx)"
    using foreach_nodes_spec [OF assms] by (simp add: ListItrForEach_def)
  show "ListItrPrev h (itr_at l zs) = Some (if xs @ ys = [] then itr_at l zs else fst (last (xs @ ys)))"
    using dlists_prev [OF assms(1), of l "xs @ ys" zs] assms(2)
    by (auto simp: last_append last_map)
qed

end
