(* ===== verification/Hash_Utils.thy ===== *)
theory Hash_Utils
  imports Chat_Prelude
begin

text \<open>
  The hash function and the comparison of string keys of \<^verbatim>\<open>server/hash_utils.c\<close>. A key is a C string,
  given as the bytes before its terminating NUL; \<open>None\<close> is the NULL pointer. The arithmetic is that of a
  64-bit \<open>size_t\<close> and wraps.
\<close>

unbundle bit_operations_syntax

fun djb2_loop :: "cstring \<Rightarrow> size_t \<Rightarrow> size_t" where
  "djb2_loop [] hash = hash"
| "djb2_loop (c # cs) hash = djb2_loop cs ((push_bit 5 hash + hash) + ucast c)"

definition HashStringDjb2 :: "cstring option \<Rightarrow> size_t" where
  "HashStringDjb2 k = (case k of None \<Rightarrow> 0 | Some s \<Rightarrow> djb2_loop s 5381)"

definition StringKeysEqual :: "cstring option \<Rightarrow> cstring option \<Rightarrow> int" where
  "StringKeysEqual a b =
     (case (a, b) of (Some s, Some t) \<Rightarrow> (if s = t then 1 else 0) | _ \<Rightarrow> 0)"

lemma StringKeysEqual_Some [simp]: "StringKeysEqual (Some s) (Some t) \<noteq> 0 \<longleftrightarrow> s = t"
  by (simp add: StringKeysEqual_def)

text \<open>The hash of a string is a polynomial in 33 over its bytes, modulo \<open>2 ^ 64\<close>.\<close>

fun poly33 :: "cstring \<Rightarrow> size_t" where
  "poly33 [] = 0"
| "poly33 (c # cs) = ucast c * 33 ^ length cs + poly33 cs"

lemma djb2_loop_poly: "djb2_loop s h = h * 33 ^ length s + poly33 s"
proof (induction s arbitrary: h)
  case (Cons c cs)
  have "push_bit 5 h + h = h * 33"
    by (simp add: push_bit_eq_mult algebra_simps)
  then show ?case
    using Cons.IH [of "h * 33 + ucast c"] by (simp add: algebra_simps)
qed simp

text \<open>
  \<open>HashStringDjb2\<close> is the DJB2 hash: for a string of length n, 5381 times 33 to the n plus
  the sum of its bytes weighted by falling powers of 33, all modulo \<open>2 ^ 64\<close>; appending one byte multiplies the hash by 33
  and adds the byte, and NULL hashes to 0.
\<close>

theorem djb2_polynomial:
  "HashStringDjb2 (Some s) = 5381 * 33 ^ length s + poly33 s \<and>
   HashStringDjb2 (Some (s @ [c])) = HashStringDjb2 (Some s) * 33 + ucast c \<and>
   HashStringDjb2 None = 0"
proof -
  have "djb2_loop (s @ [c]) h = djb2_loop s h * 33 + ucast c" for h
    by (induction s arbitrary: h) (simp_all add: push_bit_eq_mult algebra_simps)
  then show ?thesis
    by (simp add: HashStringDjb2_def djb2_loop_poly)
qed

end
