(* ===== verification/Hash_Map.thy ===== *)
theory Hash_Map
  imports Gen_DList
begin

text \<open>
  The chained hash map of \<^verbatim>\<open>shared/adt/HashMap.h\<close> and \<^verbatim>\<open>shared/adt/HashMap.c\<close>.

  A map owns an array of bucket lists, the nodes of these lists and one key/value pair per entry; the
  nodes and the pairs live in stores inside the record, because no other code can reach them. A
  value is an address. A key is represented by what it points to (the bytes of a string for both maps of the server):
  the map only passes keys to \<open>hashFunc\<close> and \<open>keysEqualFunc\<close>, and the strings are not modified while
  they are in the map. \<open>None\<close> is the NULL key.

  \<open>hm_rel m M\<close> relates a map in memory to a finite map \<open>M\<close>; the locale \<open>map_adt\<close> is the contract in
  terms of \<open>M\<close>, which the user and group managers rely on.
\<close>

section \<open>Data\<close>

datatype Map_Result =
  MAP_SUCCESS | MAP_UNINITIALIZED_ERROR | MAP_KEY_NULL_ERROR | MAP_KEY_DUPLICATE_ERROR
| MAP_KEY_NOT_FOUND_ERROR | MAP_ALLOCATION_ERROR

record 'k KeyValuePair =
  kv_key :: 'k
  kv_value :: addr

record 'k HashMap =
  buckets :: "addr list"
  capacity :: size_t
  map_size :: size_t
  hashFunc :: "'k option \<Rightarrow> size_t"
  keysEqualFunc :: "'k option \<Rightarrow> 'k option \<Rightarrow> int"
  nodes :: heap
  kvps :: "'k KeyValuePair store"

section \<open>Prime capacities\<close>

text \<open>Unsigned remainder; a zero divisor is undefined behaviour.\<close>

definition umod :: "size_t \<Rightarrow> size_t \<Rightarrow> size_t option" where
  "umod a b = (if b = 0 then None else Some (a mod b))"

text \<open>The trial divisions of \<open>IsPrime\<close>; \<open>i * i\<close> and \<open>i + 6\<close> wrap around as in the code.\<close>

partial_function (option) prime_loop :: "size_t \<Rightarrow> size_t \<Rightarrow> int option" where
  "prime_loop num i =
     (if i * i \<le> num
      then do {
        r \<leftarrow> umod num i;
        if r = 0 then Some 0
        else do {
          r \<leftarrow> umod num (i + 2);
          if r = 0 then Some 0 else prime_loop num (i + 6)
        }}
      else Some 1)"

definition IsPrime :: "size_t \<Rightarrow> int option" where
  "IsPrime num =
     (if num \<le> 1 then Some 0
      else if num = 2 \<or> num = 3 then Some 1
      else if num mod 2 = 0 \<or> num mod 3 = 0 then Some 0
      else prime_loop num 5)"

partial_function (option) GetNextPrime :: "size_t \<Rightarrow> size_t option" where
  "GetNextPrime prime = do { p \<leftarrow> IsPrime prime; if p = 0 then GetNextPrime (prime + 1) else Some prime }"

section \<open>Helpers\<close>

definition GetBucketIndex :: "'k HashMap option \<Rightarrow> 'k option \<Rightarrow> size_t option" where
  "GetBucketIndex m k =
     (if m = None \<or> k = None then Some 0
      else umod (hashFunc (the m) k) (capacity (the m)))"

definition CreateKeyValuePair :: "'k KeyValuePair store \<Rightarrow> 'k \<Rightarrow> addr \<Rightarrow> addr \<times> 'k KeyValuePair store" where
  "CreateKeyValuePair s k v = malloc s \<lparr>kv_key = k, kv_value = v\<rparr>"

definition DestroyKeyValuePair :: "'k KeyValuePair store \<Rightarrow> addr \<Rightarrow> 'k KeyValuePair store option" where
  "DestroyKeyValuePair s a = (if a \<noteq> NULL then free s a else Some s)"

text \<open>The condition of the loop of \<open>FindInList\<close>.\<close>

definition kvp_matches ::
  "'k KeyValuePair store \<Rightarrow> ('k option \<Rightarrow> 'k option \<Rightarrow> int) \<Rightarrow> 'k option \<Rightarrow> addr \<Rightarrow> bool option"
where
  "kvp_matches s isEqual k d =
     (if d = NULL then Some False
      else do { p \<leftarrow> deref s d; Some (isEqual k (Some (kv_key p)) \<noteq> 0) })"

text \<open>The result is the pair found, or NULL, and the iterator stored through \<open>_outItr\<close>.\<close>

definition FindInList ::
  "heap \<Rightarrow> 'k KeyValuePair store \<Rightarrow> addr \<Rightarrow> 'k option \<Rightarrow> ('k option \<Rightarrow> 'k option \<Rightarrow> int) \<Rightarrow> (addr \<times> addr) option"
where
  "FindInList h s l k isEqual =
     (if l = NULL then Some (NULL, NULL)
      else do {
        itr \<leftarrow> ListItrBegin h l;
        e \<leftarrow> ListItrEnd h l;
        itr \<leftarrow> search_itr (ListItrGet h) (ListItrNext h) (kvp_matches s isEqual k) itr e;
        if itr = e then Some (NULL, NULL)
        else do { kvp \<leftarrow> ListItrGet h itr; Some (kvp, itr) }
      })"

text \<open>A destructor passed as a function pointer; it acts on a state of its caller.\<close>

type_synonym ('x, 's) destructor = "('x \<Rightarrow> 's \<Rightarrow> 's option) option"

definition run_destructor :: "('x, 's) destructor \<Rightarrow> 'x \<Rightarrow> 's \<Rightarrow> 's option" where
  "run_destructor f x s = (case f of None \<Rightarrow> Some s | Some g \<Rightarrow> g x s)"

definition destroy_kvp ::
  "('k, 's) destructor \<Rightarrow> (addr, 's) destructor \<Rightarrow> addr \<Rightarrow> 'k KeyValuePair store \<times> 's \<Rightarrow>
   (bool \<times> 'k KeyValuePair store \<times> 's) option"
where
  "destroy_kvp keyDestroy valDestroy d st =
     (let (s, c) = st in
      if d = NULL then Some (True, s, c)
      else do {
        p \<leftarrow> deref s d;
        c \<leftarrow> run_destructor keyDestroy (kv_key p) c;
        p \<leftarrow> deref s d;
        c \<leftarrow> run_destructor valDestroy (kv_value p) c;
        s \<leftarrow> DestroyKeyValuePair s d;
        Some (True, s, c)
      })"

definition DestroySingleBucket ::
  "heap \<Rightarrow> 'k KeyValuePair store \<Rightarrow> addr \<Rightarrow> ('k, 's) destructor \<Rightarrow> (addr, 's) destructor \<Rightarrow> 's \<Rightarrow>
   (heap \<times> 'k KeyValuePair store \<times> 's) option"
where
  "DestroySingleBucket h s l keyDestroy valDestroy c =
     (if l = NULL then Some (h, s, c)
      else do {
        itr \<leftarrow> ListItrBegin h l;
        e \<leftarrow> ListItrEnd h l;
        (_, s, c) \<leftarrow> walk_itr (ListItrGet h) (ListItrNext h) (destroy_kvp keyDestroy valDestroy) itr e (s, c);
        (_, _, h) \<leftarrow> ListDestroy h (Some l) False;
        Some (h, s, c)
      })"

section \<open>Operations\<close>

text \<open>
  \<open>al 0\<close> and \<open>al 1\<close> say whether the allocations of the struct and of the bucket array succeed; \<open>okn\<close> and \<open>okk\<close>
  decide the later allocations of list nodes and of pairs.
\<close>

definition HashMap_Create ::
  "(nat \<Rightarrow> bool) \<Rightarrow> (nat \<Rightarrow> bool) \<Rightarrow> (nat \<Rightarrow> bool) \<Rightarrow> size_t \<Rightarrow> ('k option \<Rightarrow> size_t) option \<Rightarrow>
   ('k option \<Rightarrow> 'k option \<Rightarrow> int) option \<Rightarrow> 'k HashMap option option"
where
  "HashMap_Create al okn okk cap hash eq =
     (if hash = None \<or> eq = None \<or> cap = 0 then Some None
      else if \<not> al 0 then Some None
      else do {
        primeCapacity \<leftarrow> GetNextPrime cap;
        if \<not> al 1 then Some None
        else Some (Some \<lparr>buckets = replicate (unat primeCapacity) NULL, capacity = primeCapacity, map_size = 0,
          hashFunc = the hash, keysEqualFunc = the eq, nodes = empty_store okn, kvps = empty_store okk\<rparr>)
      })"

fun destroy_buckets ::
  "nat list \<Rightarrow> addr list \<Rightarrow> ('k, 's) destructor \<Rightarrow> (addr, 's) destructor \<Rightarrow> heap \<times> 'k KeyValuePair store \<times> 's \<Rightarrow>
   (heap \<times> 'k KeyValuePair store \<times> 's) option"
where
  "destroy_buckets [] bks kd vd (h, s, c) = Some (h, s, c)"
| "destroy_buckets (i # is) bks kd vd (h, s, c) = do {
     b \<leftarrow> rd bks i;
     st \<leftarrow> (if b \<noteq> NULL then DestroySingleBucket h s b kd vd c else Some (h, s, c));
     destroy_buckets is bks kd vd st
   }"

text \<open>
  The result is the pointer the caller is left with, what remains of the map's own memory, and the state of the
  destructors.
\<close>

definition HashMap_Destroy ::
  "'k HashMap option option \<Rightarrow> ('k, 's) destructor \<Rightarrow> (addr, 's) destructor \<Rightarrow> 's \<Rightarrow>
   ('k HashMap option option \<times> (heap \<times> 'k KeyValuePair store) option \<times> 's) option"
where
  "HashMap_Destroy pm keyDestroy valDestroy c =
     (case pm of
        Some (Some m) \<Rightarrow> do {
          (h, s, c) \<leftarrow> destroy_buckets [0..<unat (capacity m)] (buckets m) keyDestroy valDestroy (nodes m, kvps m, c);
          Some (Some None, Some (h, s), c)
        }
      | _ \<Rightarrow> Some (pm, None, c))"

text \<open>The part of \<open>HashMap_Insert\<close> after the bucket is known to exist and to lack the key.\<close>

definition insert_new :: "'k HashMap \<Rightarrow> addr \<Rightarrow> 'k \<Rightarrow> addr \<Rightarrow> (Map_Result \<times> 'k HashMap option) option" where
  "insert_new m l k v =
     (let (kvp, s) = CreateKeyValuePair (kvps m) k v;
          m = m\<lparr>kvps := s\<rparr>
      in if kvp = NULL then Some (MAP_ALLOCATION_ERROR, Some m)
      else do {
        (n, h) \<leftarrow> ListPushTail (nodes m) l kvp;
        if n = NULL
        then do {
          s \<leftarrow> DestroyKeyValuePair s kvp;
          Some (MAP_ALLOCATION_ERROR, Some (m\<lparr>nodes := h, kvps := s\<rparr>))
        }
        else Some (MAP_SUCCESS, Some (m\<lparr>nodes := h, map_size := map_size m + 1\<rparr>))
      })"

definition HashMap_Insert ::
  "'k HashMap option \<Rightarrow> 'k option \<Rightarrow> addr \<Rightarrow> (Map_Result \<times> 'k HashMap option) option"
where
  "HashMap_Insert pm k v =
     (case (pm, k) of
        (None, _) \<Rightarrow> Some (MAP_UNINITIALIZED_ERROR, pm)
      | (_, None) \<Rightarrow> Some (MAP_KEY_NULL_ERROR, pm)
      | (Some m, Some key) \<Rightarrow> do {
          index \<leftarrow> GetBucketIndex pm k;
          b \<leftarrow> rd (buckets m) (unat index);
          if b = NULL
          then do {
            (l, h) \<leftarrow> ListCreate (nodes m);
            bs \<leftarrow> wr (buckets m) (unat index) l;
            let m = m\<lparr>nodes := h, buckets := bs\<rparr>;
            if l = NULL then Some (MAP_ALLOCATION_ERROR, Some m) else insert_new m l key v
          }
          else do {
            (kvp, _) \<leftarrow> FindInList (nodes m) (kvps m) b k (keysEqualFunc m);
            if kvp \<noteq> NULL then Some (MAP_KEY_DUPLICATE_ERROR, pm) else insert_new m b key v
          }})"

text \<open>\<open>pKey\<close> and \<open>pValue\<close> are the contents of the output pointers, \<open>None\<close> when these are NULL.\<close>

definition HashMap_Remove ::
  "'k HashMap option \<Rightarrow> 'k option \<Rightarrow> 'k option option \<Rightarrow> addr option \<Rightarrow>
   (Map_Result \<times> 'k option option \<times> addr option \<times> 'k HashMap option) option"
where
  "HashMap_Remove pm k pKey pValue =
     (case (pm, k) of
        (None, _) \<Rightarrow> Some (MAP_UNINITIALIZED_ERROR, pKey, pValue, pm)
      | (_, None) \<Rightarrow> Some (MAP_KEY_NULL_ERROR, pKey, pValue, pm)
      | (Some m, Some _) \<Rightarrow> do {
          index \<leftarrow> GetBucketIndex pm k;
          b \<leftarrow> rd (buckets m) (unat index);
          if b = NULL then Some (MAP_KEY_NOT_FOUND_ERROR, pKey, pValue, pm)
          else do {
            (kvp, itr) \<leftarrow> FindInList (nodes m) (kvps m) b k (keysEqualFunc m);
            if kvp = NULL then Some (MAP_KEY_NOT_FOUND_ERROR, pKey, pValue, pm)
            else do {
              (_, h) \<leftarrow> ListItrRemove (nodes m) itr;
              p \<leftarrow> deref (kvps m) kvp;
              let pKey = map_option (\<lambda>_. Some (kv_key p)) pKey;
              let pValue = map_option (\<lambda>_. kv_value p) pValue;
              s \<leftarrow> DestroyKeyValuePair (kvps m) kvp;
              Some (MAP_SUCCESS, pKey, pValue, Some (m\<lparr>nodes := h, kvps := s, map_size := map_size m - 1\<rparr>))
            }}})"

definition HashMap_Find ::
  "'k HashMap option \<Rightarrow> 'k option \<Rightarrow> addr option \<Rightarrow> (Map_Result \<times> addr option) option"
where
  "HashMap_Find pm k pValue =
     (case (pm, k) of
        (None, _) \<Rightarrow> Some (MAP_UNINITIALIZED_ERROR, pValue)
      | (_, None) \<Rightarrow> Some (MAP_KEY_NULL_ERROR, pValue)
      | (Some m, Some _) \<Rightarrow> do {
          index \<leftarrow> GetBucketIndex pm k;
          b \<leftarrow> rd (buckets m) (unat index);
          if b = NULL then Some (MAP_KEY_NOT_FOUND_ERROR, pValue)
          else do {
            (kvp, _) \<leftarrow> FindInList (nodes m) (kvps m) b k (keysEqualFunc m);
            if kvp = NULL then Some (MAP_KEY_NOT_FOUND_ERROR, pValue)
            else do {
              p \<leftarrow> deref (kvps m) kvp;
              Some (MAP_SUCCESS, map_option (\<lambda>_. kv_value p) pValue)
            }}})"

definition HashMap_Size :: "'k HashMap option \<Rightarrow> size_t" where
  "HashMap_Size pm = (case pm of None \<Rightarrow> 0 | Some m \<Rightarrow> map_size m)"

text \<open>The loops of \<open>HashMap_ForEach\<close>: the flag says whether the walk was not stopped.\<close>

definition visit_kvp ::
  "'k KeyValuePair store \<Rightarrow> ('k \<Rightarrow> addr \<Rightarrow> 's \<Rightarrow> int \<times> 's) \<Rightarrow> addr \<Rightarrow> size_t \<times> 's \<Rightarrow> (bool \<times> size_t \<times> 's) option"
where
  "visit_kvp s action d st =
     (let (count, c) = st in
      if d = NULL then Some (True, count, c)
      else do {
        p \<leftarrow> deref s d;
        let (r, c) = action (kv_key p) (kv_value p) c;
        Some (r \<noteq> 0, count + 1, c)
      })"

fun visit_buckets ::
  "nat list \<Rightarrow> 'k HashMap \<Rightarrow> ('k \<Rightarrow> addr \<Rightarrow> 's \<Rightarrow> int \<times> 's) \<Rightarrow> size_t \<times> 's \<Rightarrow> (bool \<times> size_t \<times> 's) option"
where
  "visit_buckets [] m action st = Some (True, st)"
| "visit_buckets (i # is) m action st = do {
     b \<leftarrow> rd (buckets m) i;
     (go, st) \<leftarrow> (if b \<noteq> NULL
       then do {
         itr \<leftarrow> ListItrBegin (nodes m) b;
         e \<leftarrow> ListItrEnd (nodes m) b;
         walk_itr (ListItrGet (nodes m)) (ListItrNext (nodes m)) (visit_kvp (kvps m) action) itr e st
       }
       else Some (True, st));
     if go then visit_buckets is m action st else Some (False, st)
   }"

definition HashMap_ForEach ::
  "'k HashMap option \<Rightarrow> ('k \<Rightarrow> addr \<Rightarrow> 's \<Rightarrow> int \<times> 's) option \<Rightarrow> 's \<Rightarrow> (size_t \<times> 's) option"
where
  "HashMap_ForEach pm action c =
     (case (pm, action) of
        (Some m, Some act) \<Rightarrow> do {
          (_, count, c) \<leftarrow> visit_buckets [0..<unat (capacity m)] m act (0, c);
          Some (count, c)
        }
      | _ \<Rightarrow> Some (0, c))"

section \<open>The capacity is prime\<close>

definition is_prime :: "nat \<Rightarrow> bool" where
  "is_prime n \<longleftrightarrow> 1 < n \<and> (\<forall>d. d dvd n \<longrightarrow> d = 1 \<or> d = n)"

text \<open>Below this bound the square of the loop variable does not wrap around.\<close>

definition prime_bound :: nat where
  "prime_bound = (2 ^ 32 - 6) ^ 2"

definition no_divisor :: "nat \<Rightarrow> nat \<Rightarrow> bool" where
  "no_divisor n i \<longleftrightarrow> (\<forall>d. 1 < d \<longrightarrow> d < i \<longrightarrow> \<not> d dvd n)"

lemma not_prime_dvd: "d dvd n \<Longrightarrow> 1 < d \<Longrightarrow> d < n \<Longrightarrow> \<not> is_prime n"
  by (auto simp: is_prime_def)

lemma no_divisor_prime:
  assumes "1 < n" "no_divisor n i" "n < i * i"
  shows "is_prime n"
proof -
  have "d = 1 \<or> d = n" if d: "d dvd n" for d
  proof (rule ccontr)
    assume ne: "\<not> (d = 1 \<or> d = n)"
    obtain e where e: "n = d * e" using d by blast
    have "1 < d" "1 < e"
      using ne e assms(1) by (cases d; cases e; auto simp: numeral_eq_Suc)+
    moreover have "d < i \<or> e < i"
      using e assms(3) by (metis linorder_not_less mult_le_mono)
    ultimately show False
      using assms(2) e by (auto simp: no_divisor_def)
  qed
  then show ?thesis using assms(1) by (auto simp: is_prime_def)
qed

text \<open>Numbers coprime to 6 in a window of six that starts at 5 modulo 6.\<close>

lemma window:
  assumes "(i :: nat) mod 6 = 5" "i \<le> d" "d < i + 6" "\<not> 2 dvd d" "\<not> 3 dvd d"
  shows "d = i \<or> d = i + 2"
proof -
  obtain q where q: "i = 6 * q + 5" using assms(1) by (metis div_mult_mod_eq mult.commute)
  define e where "e = d - i"
  have "d = 6 * q + 5 + e" "e < 6" using assms q by (simp_all add: e_def)
  moreover have "3 dvd 6 * q + 9" by (rule dvdI [of _ _ "2 * q + 3"]) simp
  moreover have "e = 0 \<or> e = 1 \<or> e = 2 \<or> e = 3 \<or> e = 4 \<or> e = 5" using \<open>e < 6\<close> by linarith
  ultimately show ?thesis using assms(4,5) q by (elim disjE) simp_all
qed

lemma no_divisor_step:
  assumes "no_divisor n i" "i mod 6 = 5" "\<not> 2 dvd n" "\<not> 3 dvd n" "\<not> i dvd n" "\<not> i + 2 dvd n"
  shows "no_divisor n (i + 6)"
  unfolding no_divisor_def
proof (intro allI impI notI)
  fix d assume d: "1 < d" "d < i + 6" "d dvd n"
  have "\<not> 2 dvd d" "\<not> 3 dvd d"
    using d(3) assms(3,4) by (auto dest: dvd_trans)
  moreover have "i \<le> d"
    using assms(1) d by (auto simp: no_divisor_def not_less [symmetric])
  ultimately have "d = i \<or> d = i + 2"
    using window assms(2) d(2) by blast
  with assms(5,6) d(3) show False by blast
qed

lemma prime_loop_spec:
  assumes "unat num < prime_bound" "unat i < 2 ^ 32" "unat i mod 6 = 5" "no_divisor (unat num) (unat i)"
    and "\<not> 2 dvd unat num" "\<not> 3 dvd unat num" "1 < unat num"
  shows "prime_loop num i = Some (if is_prime (unat num) then 1 else 0)"
  using assms(2-4)
proof (induction "2 ^ 32 - unat i" arbitrary: i rule: less_induct)
  case less
  let ?n = "unat num" and ?i = "unat i"
  have i0: "0 < ?i" using less.prems(2) by (cases "?i = 0") auto
  have "?i * ?i < 2 ^ 32 * 2 ^ 32"
    using less.prems(1) by (intro mult_strict_mono) auto
  then have sq: "unat (i * i) = ?i * ?i"
    by (subst unat_mult_lem [THEN iffD1]) auto
  show ?case
  proof (cases "i * i \<le> num")
    case False
    then have "?n < ?i * ?i" using sq by (simp add: word_le_nat_alt)
    then have "is_prime ?n"
      using no_divisor_prime assms(7) less.prems(3) by blast
    then show ?thesis using False by (subst prime_loop.simps) simp
  next
    case True
    then have le: "?i * ?i \<le> ?n" by (simp add: word_le_nat_alt sq)
    have "?i < 2 ^ 32 - 6"
    proof (rule ccontr)
      assume "\<not> ?i < 2 ^ 32 - 6"
      then have "(2 ^ 32 - 6) * (2 ^ 32 - 6) \<le> ?i * ?i" by (intro mult_le_mono) auto
      then show False using le assms(1) by (simp add: prime_bound_def power2_eq_square)
    qed
    then have add: "unat (i + 6) = ?i + 6" "unat (i + 2) = ?i + 2"
      by (auto intro!: unat_add_lem [THEN iffD1, THEN trans])
    have i1: "1 < ?i" using less.prems(2) i0 by (cases "?i = 1") auto
    have big: "?i + 2 < ?n"
    proof -
      have "5 \<le> ?i" using mod_less_eq_dividend [of ?i 6] less.prems(2) by simp
      then have "5 * ?i \<le> ?i * ?i" by (rule mult_le_mono1)
      then show ?thesis using le i1 by linarith
    qed
    have md: "(num mod j = 0) = (unat j dvd ?n)" for j :: size_t
      by (metis dvd_eq_mod_eq_0 unat_0 unat_mod word_unat_eq_iff)
    have nz: "i \<noteq> 0" "i + 2 \<noteq> 0" using i0 add by (auto simp: word_unat_eq_iff)
    show ?thesis
    proof (cases "?i dvd ?n \<or> ?i + 2 dvd ?n")
      case True
      then have "\<not> is_prime ?n"
        using big i1 not_prime_dvd [of "?i" ?n] not_prime_dvd [of "?i + 2" ?n]
        by auto
      then show ?thesis
        using \<open>i * i \<le> num\<close> True nz md [of i] md [of "i + 2"] add by (subst prime_loop.simps) (auto simp: umod_def)
    next
      case False
      then have "no_divisor ?n (unat (i + 6))"
        using no_divisor_step [OF less.prems(3,2) assms(5,6)] add by simp
      then have "prime_loop num (i + 6) = Some (if is_prime ?n then 1 else 0)"
        using less.hyps [of "i + 6"] less.prems add \<open>?i < 2 ^ 32 - 6\<close> by simp
      then show ?thesis
        using \<open>i * i \<le> num\<close> False nz md [of i] md [of "i + 2"] add by (subst prime_loop.simps) (auto simp: umod_def)
    qed
  qed
qed

lemma IsPrime_spec:
  assumes "unat num < prime_bound"
  shows "IsPrime num = Some (if is_prime (unat num) then 1 else 0)"
proof -
  have md: "(num mod j = 0) = (unat j dvd unat num)" for j :: size_t
    by (metis dvd_eq_mod_eq_0 unat_0 unat_mod word_unat_eq_iff)
  have small: "is_prime 2" "is_prime 3"
  proof -
    have "d = 1 \<or> d = 2" if "d dvd 2" for d :: nat
      using dvd_imp_le [OF that] that by (cases "d = 0") auto
    moreover have "d = 1 \<or> d = 3" if "d dvd 3" for d :: nat
    proof -
      have "d \<le> 3" "d \<noteq> 2" using dvd_imp_le [OF that] that by auto
      moreover have "d \<noteq> 0" using that by (metis dvd_0_left_iff zero_neq_numeral)
      ultimately show ?thesis by auto
    qed
    ultimately show "is_prime 2" "is_prime 3" by (auto simp: is_prime_def)
  qed
  consider "num \<le> 1" | "num = 2 \<or> num = 3" | "\<not> num \<le> 1" "num \<noteq> 2" "num \<noteq> 3" by blast
  then show ?thesis
  proof cases
    case 1
    then show ?thesis by (auto simp: IsPrime_def is_prime_def word_le_nat_alt)
  next
    case 2
    then show ?thesis using small by (auto simp: IsPrime_def word_le_nat_alt)
  next
    case 3
    then have n: "3 < unat num"
      by (auto simp: word_le_nat_alt word_unat_eq_iff)
    show ?thesis
    proof (cases "2 dvd unat num \<or> 3 dvd unat num")
      case True
      then have "\<not> is_prime (unat num)"
        using n not_prime_dvd [of 2 "unat num"] not_prime_dvd [of 3 "unat num"] by linarith
      then show ?thesis using 3 True md [of 2] md [of 3] by (auto simp: IsPrime_def)
    next
      case False
      have "no_divisor (unat num) 5"
        unfolding no_divisor_def
      proof (intro allI impI notI)
        fix d :: nat assume "1 < d" "d < 5" "d dvd unat num"
        then have "d = 2 \<or> d = 3 \<or> d = 4" by auto
        with False \<open>d dvd unat num\<close> show False
          by (auto dest: dvd_trans [of 2 4])
      qed
      then have "prime_loop num 5 = Some (if is_prime (unat num) then 1 else 0)"
        using prime_loop_spec [OF assms, of 5] n False by simp
      then show ?thesis using 3 False md [of 2] md [of 3] by (auto simp: IsPrime_def)
    qed
  qed
qed

text \<open>The search for the next prime ends at the least prime that is not smaller, if that is below the bound.\<close>

lemma GetNextPrime_spec:
  assumes "unat num \<le> p" "is_prime p" "p < prime_bound" "\<forall>q. unat num \<le> q \<longrightarrow> q < p \<longrightarrow> \<not> is_prime q"
  shows "GetNextPrime num = Some (word_of_nat p)"
  using assms(1,4)
proof (induction "p - unat num" arbitrary: num)
  case 0
  then have "num = word_of_nat p" "unat num = p" by auto
  then show ?case
    using IsPrime_spec [of num] assms by (subst GetNextPrime.simps) auto
next
  case (Suc k)
  have "p < 2 ^ 64" using assms(3) by (simp add: prime_bound_def power2_eq_square)
  then have u: "unat (num + 1) = unat num + 1"
    using Suc.hyps(2) by (intro unat_add_lem [THEN iffD1, THEN trans]) auto
  have "IsPrime num = Some 0"
    using IsPrime_spec [of num] Suc assms by auto
  moreover have "GetNextPrime (num + 1) = Some (word_of_nat p)"
    using Suc.hyps(2) Suc.prems u by (intro Suc.hyps(1)) auto
  ultimately show ?case by (subst GetNextPrime.simps) simp
qed

lemma prime_101: "is_prime 101"
proof -
  have "prime_loop 101 11 = Some 1" by (subst prime_loop.simps) simp
  then have "prime_loop 101 5 = Some 1" by (subst prime_loop.simps) (simp add: umod_def)
  then have "IsPrime 101 = Some 1" by (simp add: IsPrime_def word_le_nat_alt)
  then show ?thesis using IsPrime_spec [of 101] by (simp add: prime_bound_def split: if_splits)
qed

lemma after_100: "\<forall>q. 100 \<le> q \<longrightarrow> q < 101 \<longrightarrow> \<not> is_prime q"
proof (intro allI impI)
  fix q :: nat assume "100 \<le> q" "q < 101"
  then have "q = 100" by simp
  then show "\<not> is_prime q" using not_prime_dvd [of 2 100] by simp
qed

lemma GetNextPrime_100: "GetNextPrime 100 = Some 101"
  using GetNextPrime_spec [of 100 101] prime_101 after_100 by (simp add: prime_bound_def)

text \<open>
  C40: Capacities. For every number below \<open>(2 ^ 32 - 6) ^ 2\<close> the trial division of \<open>IsPrime\<close> returns and decides
  primality, although \<open>i * i\<close> is computed in 64 bits, and \<open>GetNextPrime\<close> returns the least
  prime that is not smaller than its argument, when there is one below that bound.
\<close>

theorem capacity_prime:
  assumes "unat num \<le> p" and "is_prime p" and "p < prime_bound"
    and "\<forall>q. unat num \<le> q \<longrightarrow> q < p \<longrightarrow> \<not> is_prime q"
  shows "GetNextPrime num = Some (word_of_nat p) \<and>
    (\<forall>n. unat n < prime_bound \<longrightarrow> IsPrime n = Some (if is_prime (unat n) then 1 else 0))"
  using GetNextPrime_spec [OF assms] IsPrime_spec by blast

theorem capacity_prime_witness: "GetNextPrime 100 = Some 101 \<and> IsPrime 100 = Some 0"
  using capacity_prime [of 100 101, THEN conjunct1]
    capacity_prime [of 100 101, THEN conjunct2, rule_format, of 100] prime_101 after_100
  by (simp add: prime_bound_def)

section \<open>The representation of a map\<close>

text \<open>
  \<open>bucket_lists h bks B\<close>: the store holds exactly the lists of the non-null buckets, and bucket \<open>i\<close> lists the
  pairs \<open>B i\<close>. \<open>pair_index s f n B\<close>: the pairs in the store have distinct keys, and bucket \<open>i\<close> lists, each
  once, those whose key hashes to \<open>i\<close>.
\<close>

definition bucket_at :: "lists \<Rightarrow> addr \<Rightarrow> addr list \<Rightarrow> bool" where
  "bucket_at A b as \<longleftrightarrow> (if b = NULL then as = [] else \<exists>xs. A b = Some xs \<and> map snd xs = as)"

definition buckets_in :: "lists \<Rightarrow> addr list \<Rightarrow> (nat \<Rightarrow> addr list) \<Rightarrow> bool" where
  "buckets_in A bks B \<longleftrightarrow> dom A = set bks - {NULL} \<and> (\<forall>i < length bks. bucket_at A (bks ! i) (B i)) \<and>
     (\<forall>i < length bks. \<forall>j < length bks. bks ! i = bks ! j \<longrightarrow> bks ! i \<noteq> NULL \<longrightarrow> i = j)"

definition bucket_lists :: "heap \<Rightarrow> addr list \<Rightarrow> (nat \<Rightarrow> addr list) \<Rightarrow> bool" where
  "bucket_lists h bks B \<longleftrightarrow> (\<exists>A. dlists h A \<and> buckets_in A bks B)"

definition pair_index :: "'k KeyValuePair store \<Rightarrow> ('k \<Rightarrow> nat) \<Rightarrow> nat \<Rightarrow> (nat \<Rightarrow> addr list) \<Rightarrow> bool" where
  "pair_index s f n B \<longleftrightarrow> store_wf s \<and>
     (\<forall>i < n. distinct (B i) \<and> set (B i) = {a. \<exists>p. mem s a = Some p \<and> f (kv_key p) = i}) \<and>
     (\<forall>a b p q. mem s a = Some p \<longrightarrow> mem s b = Some q \<longrightarrow> kv_key p = kv_key q \<longrightarrow> a = b)"

definition pairs_map :: "'k KeyValuePair store \<Rightarrow> ('k \<rightharpoonup> addr) \<Rightarrow> bool" where
  "pairs_map s M \<longleftrightarrow> (\<forall>k v. M k = Some v \<longleftrightarrow> (\<exists>a p. mem s a = Some p \<and> kv_key p = k \<and> kv_value p = v))"

definition idx :: "'k HashMap \<Rightarrow> 'k \<Rightarrow> nat" where
  "idx m k = unat (hashFunc m (Some k) mod capacity m)"

definition hm_rep :: "'k HashMap \<Rightarrow> (nat \<Rightarrow> addr list) \<Rightarrow> bool" where
  "hm_rep m B \<longleftrightarrow> length (buckets m) = unat (capacity m) \<and> capacity m \<noteq> 0 \<and>
     (\<forall>k k'. keysEqualFunc m (Some k) (Some k') \<noteq> 0 \<longleftrightarrow> k = k') \<and>
     bucket_lists (nodes m) (buckets m) B \<and> pair_index (kvps m) (idx m) (length (buckets m)) B \<and>
     map_size m = of_nat (card (dom (mem (kvps m))))"

definition hm_rel :: "'k HashMap \<Rightarrow> ('k \<rightharpoonup> addr) \<Rightarrow> bool" where
  "hm_rel m M \<longleftrightarrow> (\<exists>B. hm_rep m B) \<and> pairs_map (kvps m) M"

definition hm_ok :: "'k HashMap \<Rightarrow> bool" where
  "hm_ok m \<longleftrightarrow> (\<forall>n. alloc_ok (nodes m) n) \<and> (\<forall>n. alloc_ok (kvps m) n)"

subsection \<open>Bucket lists\<close>

lemma bucket_at_upd: "b \<noteq> c \<Longrightarrow> bucket_at (A(c := x)) b as \<longleftrightarrow> bucket_at A b as"
  by (simp add: bucket_at_def)

lemma buckets_in_get:
  assumes "buckets_in A bks B" "i < length bks" "bks ! i \<noteq> NULL"
  obtains xs where "A (bks ! i) = Some xs" "map snd xs = B i"
proof -
  have "bucket_at A (bks ! i) (B i)" using assms by (simp add: buckets_in_def)
  then show thesis using that assms(3) by (auto simp: bucket_at_def)
qed

lemma buckets_in_null: "buckets_in A bks B \<Longrightarrow> i < length bks \<Longrightarrow> bks ! i = NULL \<Longrightarrow> B i = []"
  by (auto simp: buckets_in_def bucket_at_def)

lemma buckets_in_update:
  assumes R: "buckets_in A bks B" and i: "i < length bks" "bks ! i \<noteq> NULL"
  shows "buckets_in (A(bks ! i := Some xs)) bks (B(i := map snd xs))"
proof -
  have "bucket_at (A(bks ! i := Some xs)) (bks ! j) ((B(i := map snd xs)) j)" if "j < length bks" for j
    using R i that by (cases "j = i") (auto simp: bucket_at_def buckets_in_def)
  moreover have "dom (A(bks ! i := Some xs)) = set bks - {NULL}"
    using R i by (auto simp: buckets_in_def)
  ultimately show ?thesis
    using R by (simp add: buckets_in_def)
qed

lemma buckets_in_create:
  assumes R: "buckets_in A bks B" and i: "i < length bks" "bks ! i = NULL" and l: "l \<noteq> NULL" "A l = None"
  shows "buckets_in (A(l := Some [])) (bks[i := l]) B"
proof -
  let ?b = "bks[i := l]"
  have nl: "l \<notin> set bks" using R l by (auto simp: buckets_in_def)
  have "bucket_at (A(l := Some [])) (?b ! j) (B j)" if "j < length bks" for j
    using R i that l nl nth_mem [of j bks] by (cases "j = i") (auto simp: bucket_at_def buckets_in_def)
  moreover have "j = k" if "j < length bks" "k < length bks" "?b ! j = ?b ! k" "?b ! j \<noteq> NULL" for j k
    using that R nl nth_mem [of j bks] nth_mem [of k bks]
    by (cases "j = i"; cases "k = i") (auto simp: buckets_in_def)
  moreover have "dom (A(l := Some [])) = set ?b - {NULL}"
  proof -
    have "set ?b = insert l (set (take i bks) \<union> set (drop (Suc i) bks))"
      using i(1) by (simp add: upd_conv_take_nth_drop)
    moreover have "set bks = insert NULL (set (take i bks) \<union> set (drop (Suc i) bks))"
      using i id_take_nth_drop [of i bks] by (metis Un_insert_right list.simps(15) set_append)
    ultimately have "set ?b - {NULL} = insert l (set bks - {NULL})" using l(1) by blast
    then show ?thesis using R by (simp add: buckets_in_def)
  qed
  ultimately show ?thesis by (simp add: buckets_in_def)
qed

subsection \<open>Pairs\<close>

lemma pair_index_wf: "pair_index s f n B \<Longrightarrow> store_wf s"
  by (simp add: pair_index_def)

lemma pair_index_in: "pair_index s f n B \<Longrightarrow> i < n \<Longrightarrow> a \<in> set (B i) \<Longrightarrow> \<exists>p. mem s a = Some p \<and> f (kv_key p) = i"
  by (auto simp: pair_index_def)

lemma pair_index_at: "pair_index s f n B \<Longrightarrow> mem s a = Some p \<Longrightarrow> f (kv_key p) < n \<Longrightarrow> a \<in> set (B (f (kv_key p)))"
  by (auto simp: pair_index_def)

lemma pair_index_inj:
  "pair_index s f n B \<Longrightarrow> mem s a = Some p \<Longrightarrow> mem s b = Some q \<Longrightarrow> kv_key p = kv_key q \<Longrightarrow> a = b"
  by (auto simp: pair_index_def)

lemma pair_index_finite: "pair_index s f n B \<Longrightarrow> finite (dom (mem s))"
  by (rule finite_subset [of _ "{..<brk s}"]) (auto simp: pair_index_def store_wf_def)

lemma pair_index_same_mem: "pair_index s f n B \<Longrightarrow> store_wf s' \<Longrightarrow> mem s' = mem s \<Longrightarrow> pair_index s' f n B"
  by (simp add: pair_index_def)

lemma pair_index_add:
  assumes R: "pair_index s f n B" and a: "mem s a = None" "mem s' = (mem s)(a := Some p)" "store_wf s'"
    and k: "\<And>b q. mem s b = Some q \<Longrightarrow> kv_key q \<noteq> kv_key p" and i: "f (kv_key p) = i"
  shows "pair_index s' f n (B(i := B i @ [a]))"
proof -
  have "distinct ((B(i := B i @ [a])) j) \<and>
      set ((B(i := B i @ [a])) j) = {b. \<exists>p. mem s' b = Some p \<and> f (kv_key p) = j}" if "j < n" for j
    using R that a(1,2) i by (auto simp: pair_index_def split: if_splits)
  moreover have "b = c" if "mem s' b = Some q" "mem s' c = Some r" "kv_key q = kv_key r" for b c q r
    using that R k a(2) by (metis fun_upd_apply option.inject pair_index_inj)
  ultimately show ?thesis
    using a(3) unfolding pair_index_def by blast
qed

lemma pair_index_del:
  assumes R: "pair_index s f n B" and a: "mem s a = Some p" "mem s' = (mem s)(a := None)" "store_wf s'"
    and i: "f (kv_key p) = i" "i < n" "B i = xs @ a # ys"
  shows "pair_index s' f n (B(i := xs @ ys))"
proof -
  have old: "distinct (B i) \<and> set (B i) = {b. \<exists>p. mem s b = Some p \<and> f (kv_key p) = i}"
    using R i(2) by (simp add: pair_index_def)
  then have d: "distinct (xs @ a # ys)" by (simp add: i(3))
  have "distinct ((B(i := xs @ ys)) j) \<and>
      set ((B(i := xs @ ys)) j) = {b. \<exists>p. mem s' b = Some p \<and> f (kv_key p) = j}" if "j < n" for j
  proof (cases "j = i")
    case True
    have "set (xs @ a # ys) = {b. \<exists>p. mem s b = Some p \<and> f (kv_key p) = i}"
      using old by (simp only: i(3))
    moreover have "set (xs @ ys) = set (xs @ a # ys) - {a}" using d by auto
    ultimately show ?thesis using True d a(2) by auto
  next
    case False
    then show ?thesis
      using R that a i(1) by (auto simp: pair_index_def)
  qed
  moreover have "b = c" if "mem s' b = Some q" "mem s' c = Some r" "kv_key q = kv_key r" for b c q r
    using that R a(2) by (auto dest: pair_index_inj split: if_splits)
  ultimately show ?thesis
    using a(3) unfolding pair_index_def by blast
qed

lemma pairs_map_absent: "pairs_map s M \<Longrightarrow> M k = None \<Longrightarrow> mem s b = Some q \<Longrightarrow> kv_key q \<noteq> k"
  unfolding pairs_map_def by (metis option.distinct(1))

lemma pairs_map_add:
  assumes R: "pairs_map s M" and a: "mem s a = None" "mem s' = (mem s)(a := Some p)" and k: "M (kv_key p) = None"
  shows "pairs_map s' (M(kv_key p := Some (kv_value p)))"
  unfolding pairs_map_def
proof (intro allI)
  fix k v
  have old: "M k = Some v \<longleftrightarrow> (\<exists>b q. mem s b = Some q \<and> kv_key q = k \<and> kv_value q = v)"
    using R by (simp add: pairs_map_def)
  have "(\<exists>b q. mem s' b = Some q \<and> kv_key q = k \<and> kv_value q = v) \<longleftrightarrow>
      kv_key p = k \<and> kv_value p = v \<or> (\<exists>b q. mem s b = Some q \<and> kv_key q = k \<and> kv_value q = v)"
    (is "?L \<longleftrightarrow> ?R")
  proof
    assume ?L then show ?R using a(2) by (auto split: if_splits)
  next
    have "mem s' a = Some p" "\<And>b q. mem s b = Some q \<Longrightarrow> mem s' b = Some q"
      using a by auto
    then show "?R \<Longrightarrow> ?L" by blast
  qed
  then show "((M(kv_key p := Some (kv_value p))) k = Some v) =
      (\<exists>b q. mem s' b = Some q \<and> kv_key q = k \<and> kv_value q = v)"
    using old pairs_map_absent [OF R assms(4)] by auto
qed

lemma pairs_map_del:
  assumes R: "pairs_map s M" and a: "mem s a = Some p" "mem s' = (mem s)(a := None)" and I: "pair_index s f n B"
  shows "pairs_map s' (M(kv_key p := None))"
  unfolding pairs_map_def
proof (intro allI)
  fix k v
  have old: "M k = Some v \<longleftrightarrow> (\<exists>b q. mem s b = Some q \<and> kv_key q = k \<and> kv_value q = v)"
    using R by (simp add: pairs_map_def)
  have "(\<exists>b q. mem s' b = Some q \<and> kv_key q = k \<and> kv_value q = v) \<longleftrightarrow>
      (\<exists>b q. b \<noteq> a \<and> mem s b = Some q \<and> kv_key q = k \<and> kv_value q = v)"
    using a(2) by auto
  also have "\<dots> \<longleftrightarrow> k \<noteq> kv_key p \<and> M k = Some v"
    unfolding old using pair_index_inj [OF I _ a(1)] a(1) by (metis option.inject)
  finally show "((M(kv_key p := None)) k = Some v) =
      (\<exists>b q. mem s' b = Some q \<and> kv_key q = k \<and> kv_value q = v)"
    by auto
qed

section \<open>The operations on the represented map\<close>

lemma find_in_bucket:
  assumes R: "dlists h A" "A b = Some xs" and s: "store_wf s" "\<forall>a \<in> set (map snd xs). \<exists>p. mem s a = Some p"
    and eq: "\<And>k k'. eq (Some k) (Some k') \<noteq> 0 \<longleftrightarrow> k = k'"
  obtains (found) ys n a zs p where "xs = ys @ (n, a) # zs" "FindInList h s b (Some k) eq = Some (a, n)"
      "a \<noteq> NULL" "mem s a = Some p" "kv_key p = k"
  | (absent) "FindInList h s b (Some k) eq = Some (NULL, NULL)"
      "\<And>a p. a \<in> set (map snd xs) \<Longrightarrow> mem s a = Some p \<Longrightarrow> kv_key p \<noteq> k"
proof -
  let ?P = "\<lambda>a. \<exists>p. mem s a = Some p \<and> kv_key p = k"
  have m: "\<forall>x \<in> set xs. kvp_matches s eq (Some k) (snd x) = Some (?P (snd x))"
    using s eq by (fastforce simp: kvp_matches_def deref_def dest: store_wf_NULL)
  have b: "b \<noteq> NULL" using dl.nodes_law [OF R] by simp
  note S = dl.search_from_begin [OF R m]
  show thesis
  proof (cases "dropWhile (\<lambda>x. \<not> ?P (snd x)) xs")
    case Nil
    then have none: "\<forall>x \<in> set xs. \<not> ?P (snd x)" by (auto simp: dropWhile_eq_Nil_conv)
    have "search_itr (ListItrGet h) (ListItrNext h) (kvp_matches s eq (Some k)) (itr_at b xs) b = Some b"
      using S unfolding Nil by simp
    then have "FindInList h s b (Some k) eq = Some (NULL, NULL)"
      using b dl.begin_law [OF R] dl.end_law [OF R] by (simp add: FindInList_def)
    then show thesis
      using absent none by auto
  next
    case (Cons x zs)
    obtain n a where x: "x = (n, a)" by fastforce
    have xs: "xs = takeWhile (\<lambda>x. \<not> ?P (snd x)) xs @ (n, a) # zs"
      using takeWhile_dropWhile_id [of "\<lambda>x. \<not> ?P (snd x)" xs] Cons x by metis
    have "?P (snd x)" using hd_dropWhile [of "\<lambda>x. \<not> ?P (snd x)" xs] Cons by (metis list.distinct(1) list.sel(1))
    then obtain p where p: "mem s a = Some p" "kv_key p = k" using x by auto
    have "A b = Some (takeWhile (\<lambda>x. \<not> ?P (snd x)) xs @ (n, a) # zs)"
      using R(2) xs by simp
    then have g: "ListItrGet (h) n = Some a" "n \<noteq> b"
      using dl.get_law [OF R(1)] dl.not_end [OF R(1)] by blast+
    have "FindInList h s b (Some k) eq = Some (a, n)"
      using S Cons x g b dl.begin_law [OF R] dl.end_law [OF R] by (simp add: FindInList_def)
    then show thesis
      using found [OF xs _ _ p] store_wf_live [OF s(1) p(1)] by simp
  qed
qed

lemma idx_less: "length (buckets m) = unat (capacity m) \<Longrightarrow> capacity m \<noteq> 0 \<Longrightarrow> idx m k < length (buckets m)"
  by (simp add: idx_def unat_mod word_unat_eq_iff)

lemma GetBucketIndex_idx: "capacity m \<noteq> 0 \<Longrightarrow> \<exists>j. GetBucketIndex (Some m) (Some k) = Some j \<and> unat j = idx m k"
  by (simp add: GetBucketIndex_def umod_def idx_def)

text \<open>What the operations see of a represented map at the bucket of a key.\<close>

lemma hm_bucket:
  assumes "hm_rep m B"
  obtains A j where "dlists (nodes m) A" "buckets_in A (buckets m) B" "pair_index (kvps m) (idx m) (length (buckets m)) B"
    "GetBucketIndex (Some m) (Some k) = Some j" "unat j = idx m k" "idx m k < length (buckets m)"
    "rd (buckets m) (unat j) = Some (buckets m ! idx m k)"
    "\<And>k k'. keysEqualFunc m (Some k) (Some k') \<noteq> 0 \<longleftrightarrow> k = k'"
proof -
  have l: "idx m k < length (buckets m)"
    using assms by (intro idx_less) (auto simp: hm_rep_def)
  obtain j where "GetBucketIndex (Some m) (Some k) = Some j" "unat j = idx m k"
    using GetBucketIndex_idx [of m k] assms by (auto simp: hm_rep_def)
  then show thesis
    using that l assms by (fastforce simp: hm_rep_def bucket_lists_def rd_def)
qed

lemma find_in_map:
  assumes "hm_rep m B" "pairs_map (kvps m) M" "buckets m ! idx m k \<noteq> NULL"
  obtains (found) A ys n a zs p where "dlists (nodes m) A" "buckets_in A (buckets m) B"
      "A (buckets m ! idx m k) = Some (ys @ (n, a) # zs)" "map snd ys @ a # map snd zs = B (idx m k)"
      "FindInList (nodes m) (kvps m) (buckets m ! idx m k) (Some k) (keysEqualFunc m) = Some (a, n)" "a \<noteq> NULL"
      "mem (kvps m) a = Some p" "kv_key p = k" "M k = Some (kv_value p)"
  | (absent) "FindInList (nodes m) (kvps m) (buckets m ! idx m k) (Some k) (keysEqualFunc m) = Some (NULL, NULL)"
      "M k = None"
proof -
  obtain A j where A: "dlists (nodes m) A" "buckets_in A (buckets m) B"
    "pair_index (kvps m) (idx m) (length (buckets m)) B" "idx m k < length (buckets m)"
    "\<And>k k'. keysEqualFunc m (Some k) (Some k') \<noteq> 0 \<longleftrightarrow> k = k'"
    using hm_bucket [OF assms(1), of k] by metis
  obtain xs where xs: "A (buckets m ! idx m k) = Some xs" "map snd xs = B (idx m k)"
    by (rule buckets_in_get [OF A(2,4) assms(3)])
  have live: "\<forall>a \<in> set (map snd xs). \<exists>p. mem (kvps m) a = Some p"
    using pair_index_in [OF A(3,4)] xs(2) by auto
  show thesis
  proof (cases rule: find_in_bucket [OF A(1) xs(1) pair_index_wf [OF A(3)] live A(5), of k])
    case (1 ys n a zs p)
    moreover have "M k = Some (kv_value p)"
      using assms(2) 1(4,5) unfolding pairs_map_def by blast
    moreover have "map snd ys @ a # map snd zs = B (idx m k)" using 1(1) xs(2) by auto
    ultimately show thesis using found A xs by blast
  next
    case 2
    have "M k \<noteq> Some v" for v
    proof
      assume "M k = Some v"
      then obtain a p where "mem (kvps m) a = Some p" "kv_key p = k"
        using assms(2) unfolding pairs_map_def by blast
      then show False
        using 2(2) [of a p] pair_index_at [OF A(3), of a p] A(4) xs(2) by auto
    qed
    then show thesis using absent 2(1) by blast
  qed
qed

lemma null_bucket_absent:
  assumes "hm_rep m B" "pairs_map (kvps m) M" "buckets m ! idx m k = NULL"
  shows "M k = None"
proof (rule ccontr)
  assume "M k \<noteq> None"
  then obtain a p where ap: "mem (kvps m) a = Some p" "kv_key p = k"
    using assms(2) unfolding pairs_map_def by blast
  obtain A j where A: "buckets_in A (buckets m) B" "pair_index (kvps m) (idx m) (length (buckets m)) B"
      "idx m k < length (buckets m)"
    using hm_bucket [OF assms(1), of k] by metis
  show False
    using pair_index_at [OF A(2) ap(1)] buckets_in_null [OF A(1,3) assms(3)] ap(2) A(3) by simp
qed

lemma hm_find:
  assumes "hm_rel m M"
  shows "HashMap_Find (Some m) (Some k) pv = Some (case M k of
      None \<Rightarrow> (MAP_KEY_NOT_FOUND_ERROR, pv) | Some v \<Rightarrow> (MAP_SUCCESS, map_option (\<lambda>_. v) pv))"
proof -
  obtain B where B: "hm_rep m B" and M: "pairs_map (kvps m) M"
    using assms by (auto simp: hm_rel_def)
  obtain j where j: "GetBucketIndex (Some m) (Some k) = Some j" "rd (buckets m) (unat j) = Some (buckets m ! idx m k)"
    using hm_bucket [OF B, of k] by metis
  show ?thesis
  proof (cases "buckets m ! idx m k = NULL")
    case True
    then show ?thesis using j null_bucket_absent [OF B M] by (simp add: HashMap_Find_def)
  next
    case False
    show ?thesis
      by (cases rule: find_in_map [OF B M False]) (use j False in \<open>simp_all add: HashMap_Find_def deref_def\<close>)
  qed
qed

lemma hm_rep_upd:
  assumes "hm_rep m B" and "capacity m' = capacity m" "hashFunc m' = hashFunc m" "keysEqualFunc m' = keysEqualFunc m"
    and "length (buckets m') = length (buckets m)" and "bucket_lists (nodes m') (buckets m') B'"
    and "pair_index (kvps m') (idx m) (length (buckets m)) B'" and "map_size m' = of_nat (card (dom (mem (kvps m'))))"
  shows "hm_rep m' B'"
proof -
  have "idx m' = idx m" using assms(2,3) by (simp add: idx_def fun_eq_iff)
  then show ?thesis using assms by (simp add: hm_rep_def)
qed

lemma hm_repD:
  assumes "hm_rep m B"
  shows "bucket_lists (nodes m) (buckets m) B" "pair_index (kvps m) (idx m) (length (buckets m)) B"
    "map_size m = of_nat (card (dom (mem (kvps m))))" "idx m k < length (buckets m)"
  using assms idx_less [of m k] by (auto simp: hm_rep_def)

lemma bucket_lists_push:
  assumes "bucket_lists h bks B" and i: "i < length bks" "bks ! i \<noteq> NULL"
  obtains (fails) h' where "ListPushTail h (bks ! i) a = Some (NULL, h')" "bucket_lists h' bks B"
      "alloc_ok h' = alloc_ok h" "\<exists>n. \<not> alloc_ok h n"
  | (pushed) n h' where "ListPushTail h (bks ! i) a = Some (n, h')" "n \<noteq> NULL"
      "bucket_lists h' bks (B(i := B i @ [a]))" "alloc_ok h' = alloc_ok h"
proof -
  obtain A where A: "dlists h A" "buckets_in A bks B"
    using assms(1) by (auto simp: bucket_lists_def)
  obtain xs where xs: "A (bks ! i) = Some xs" "map snd xs = B i"
    by (rule buckets_in_get [OF A(2) i])
  show thesis
  proof (cases rule: dl.push_cases [OF A(1) xs(1), of a])
    case (1 h')
    then have "bucket_lists h' bks B" using A(2) by (auto simp: bucket_lists_def)
    with 1 show thesis by (intro fails)
  next
    case (2 n h')
    have "bucket_lists h' bks (B(i := B i @ [a]))"
      using buckets_in_update [OF A(2) i, of "xs @ [(n, a)]"] 2(3) xs(2) by (auto simp: bucket_lists_def)
    with 2 show thesis by (intro pushed)
  qed
qed

lemma bucket_lists_create:
  assumes "bucket_lists h bks B" and i: "i < length bks" "bks ! i = NULL"
  obtains (fails) h' where "ListCreate h = Some (NULL, h')" "bucket_lists h' bks B"
      "alloc_ok h' = alloc_ok h" "\<exists>n. \<not> alloc_ok h n"
  | (created) l h' where "ListCreate h = Some (l, h')" "l \<noteq> NULL" "bucket_lists h' (bks[i := l]) B"
      "alloc_ok h' = alloc_ok h"
proof -
  obtain A where A: "dlists h A" "buckets_in A bks B"
    using assms(1) by (auto simp: bucket_lists_def)
  show thesis
  proof (cases rule: dl.create_cases [OF A(1)])
    case (1 h')
    then have "bucket_lists h' bks B" using A(2) by (auto simp: bucket_lists_def)
    with 1 show thesis by (intro fails)
  next
    case (2 l h')
    have "bucket_lists h' (bks[i := l]) B"
      using buckets_in_create [OF A(2) i 2(2,3)] 2(4) by (auto simp: bucket_lists_def)
    with 2 show thesis by (intro created)
  qed
qed

text \<open>The possible outcomes of an insertion of an absent key.\<close>

definition inserted :: "(Map_Result \<times> 'k HashMap option) option \<Rightarrow> 'k HashMap \<Rightarrow> ('k \<rightharpoonup> addr) \<Rightarrow> 'k \<Rightarrow> addr \<Rightarrow> bool" where
  "inserted r m M k v \<longleftrightarrow> (\<exists>c m'. r = Some (c, Some m') \<and> hm_ok m' = hm_ok m \<and>
     (c = MAP_SUCCESS \<and> hm_rel m' (M(k := Some v)) \<or> c = MAP_ALLOCATION_ERROR \<and> hm_rel m' M \<and> \<not> hm_ok m))"

lemma insert_new_spec:
  assumes rep: "hm_rep m B" and M: "pairs_map (kvps m) M" and k: "M k = None" and b: "buckets m ! idx m k \<noteq> NULL"
  shows "inserted (insert_new m (buckets m ! idx m k) k v) m M k v"
proof -
  let ?p = "\<lparr>kv_key = k, kv_value = v\<rparr>" and ?i = "idx m k"
  note D = hm_repD [OF rep]
  note wf = pair_index_wf [OF D(2)]
  obtain a s where ms: "malloc (kvps m) ?p = (a, s)" by fastforce
  have swf: "store_wf s" by (rule store_wf_malloc [OF wf ms])
  show ?thesis
  proof (cases rule: malloc_cases [OF wf ms])
    case 1
    have "\<not> hm_ok m" using ms 1 wf by (auto simp: malloc_def hm_ok_def store_wf_def split: if_splits)
    moreover have "hm_rel (m\<lparr>kvps := s\<rparr>) M"
      unfolding hm_rel_def using M D 1 pair_index_same_mem [OF D(2) swf]
      by (auto simp: pairs_map_def intro!: exI [of _ B] hm_rep_upd [OF rep])
    ultimately show ?thesis
      using ms 1 by (simp add: inserted_def insert_new_def CreateKeyValuePair_def hm_ok_def)
  next
    case 2
    show ?thesis
    proof (cases rule: bucket_lists_push [OF D(1) D(4) b, of a])
      case (1 h)
      let ?s = "s\<lparr>mem := (mem s)(a := None)\<rparr>"
      have same: "mem ?s = mem (kvps m)" using 2 by (auto simp: fun_eq_iff)
      have f: "free s a = Some ?s" using 2 by (simp add: store_simps)
      have "hm_rel (m\<lparr>nodes := h, kvps := ?s\<rparr>) M"
        unfolding hm_rel_def using M D 1(2) same pair_index_same_mem [OF D(2) store_wf_free [OF swf f]]
        by (auto simp: pairs_map_def intro!: exI [of _ B] hm_rep_upd [OF rep])
      then show ?thesis
        using ms 1 2 f by (auto simp: inserted_def insert_new_def CreateKeyValuePair_def DestroyKeyValuePair_def hm_ok_def)
    next
      case (2 n h)
      note a = \<open>a \<noteq> NULL\<close> \<open>mem (kvps m) a = None\<close> \<open>mem s = (mem (kvps m))(a := Some ?p)\<close> \<open>alloc_ok s = alloc_ok (kvps m)\<close>
      have "pair_index s (idx m) (length (buckets m)) (B(?i := B ?i @ [a]))"
        using pairs_map_absent [OF M k] by (intro pair_index_add [OF D(2) a(2,3) swf]) auto
      moreover have "card (dom (mem s)) = Suc (card (dom (mem (kvps m))))"
        using pair_index_finite [OF D(2)] a by (simp add: domIff)
      moreover have "pairs_map s (M(k := Some v))"
        using pairs_map_add [OF M a(2,3)] k by simp
      ultimately have "hm_rel (m\<lparr>kvps := s, nodes := h, map_size := map_size m + 1\<rparr>) (M(k := Some v))"
        unfolding hm_rel_def using D(3) 2(3) by (auto intro!: hm_rep_upd [OF rep])
      then show ?thesis
        using ms 2 a by (auto simp: inserted_def insert_new_def CreateKeyValuePair_def hm_ok_def)
    qed
  qed
qed

lemma hm_insert:
  assumes "hm_rel m M"
  shows "if M k = None then inserted (HashMap_Insert (Some m) (Some k) v) m M k v
    else HashMap_Insert (Some m) (Some k) v = Some (MAP_KEY_DUPLICATE_ERROR, Some m)"
proof -
  obtain B where B: "hm_rep m B" and M: "pairs_map (kvps m) M"
    using assms by (auto simp: hm_rel_def)
  obtain j where j: "GetBucketIndex (Some m) (Some k) = Some j" "rd (buckets m) (unat j) = Some (buckets m ! idx m k)"
    "unat j = idx m k"
    using hm_bucket [OF B, of k] by metis
  note D = hm_repD [OF B]
  show ?thesis
  proof (cases "buckets m ! idx m k = NULL")
    case False
    show ?thesis
      by (cases rule: find_in_map [OF B M False])
        (use j False insert_new_spec [OF B M _ False, of v] in \<open>simp_all add: HashMap_Insert_def deref_def\<close>)
  next
    case True
    have k: "M k = None" by (rule null_bucket_absent [OF B M True])
    show ?thesis
    proof (cases rule: bucket_lists_create [OF D(1,4) True])
      case (1 h)
      have "(buckets m)[idx m k := NULL] = buckets m" using True by (metis list_update_id)
      moreover have "hm_rel (m\<lparr>nodes := h\<rparr>) M"
        unfolding hm_rel_def using M D 1 by (auto intro!: hm_rep_upd [OF B])
      ultimately show ?thesis
        using 1 j True k D(4) by (simp add: HashMap_Insert_def inserted_def wr_def hm_ok_def)
    next
      case (2 l h)
      let ?m = "m\<lparr>nodes := h, buckets := (buckets m)[idx m k := l]\<rparr>"
      have rep: "hm_rep ?m B"
        using D 2(3) by (auto intro!: hm_rep_upd [OF B])
      have i: "idx ?m k = idx m k" by (simp add: idx_def)
      have "inserted (insert_new ?m (buckets ?m ! idx ?m k) k v) ?m M k v"
        using M k 2(2) D(4) i by (intro insert_new_spec [OF rep]) simp_all
      moreover have "hm_ok ?m = hm_ok m" using 2(4) by (simp add: hm_ok_def)
      ultimately show ?thesis
        using 2 j True k D(4) i by (simp add: HashMap_Insert_def inserted_def wr_def)
    qed
  qed
qed

lemma hm_remove_absent:
  assumes "hm_rel m M" "M k = None"
  shows "HashMap_Remove (Some m) (Some k) pk pv = Some (MAP_KEY_NOT_FOUND_ERROR, pk, pv, Some m)"
proof -
  obtain B where B: "hm_rep m B" and M: "pairs_map (kvps m) M"
    using assms by (auto simp: hm_rel_def)
  obtain j where j: "GetBucketIndex (Some m) (Some k) = Some j" "rd (buckets m) (unat j) = Some (buckets m ! idx m k)"
    using hm_bucket [OF B, of k] by metis
  show ?thesis
  proof (cases "buckets m ! idx m k = NULL")
    case True
    then show ?thesis using j by (simp add: HashMap_Remove_def)
  next
    case False
    show ?thesis
      by (cases rule: find_in_map [OF B M False]) (use j False assms(2) in \<open>simp_all add: HashMap_Remove_def\<close>)
  qed
qed

lemma hm_remove_present:
  assumes "hm_rel m M" "M k = Some v"
  shows "\<exists>m'. HashMap_Remove (Some m) (Some k) pk pv =
      Some (MAP_SUCCESS, map_option (\<lambda>_. Some k) pk, map_option (\<lambda>_. v) pv, Some m') \<and>
    hm_rel m' (M(k := None)) \<and> hm_ok m' = hm_ok m"
proof -
  obtain B where B: "hm_rep m B" and M: "pairs_map (kvps m) M"
    using assms by (auto simp: hm_rel_def)
  obtain j where j: "GetBucketIndex (Some m) (Some k) = Some j" "rd (buckets m) (unat j) = Some (buckets m ! idx m k)"
    using hm_bucket [OF B, of k] by metis
  note D = hm_repD [OF B]
  have b: "buckets m ! idx m k \<noteq> NULL"
    using null_bucket_absent [OF B M, of k] assms(2) by auto
  show ?thesis
  proof (cases rule: find_in_map [OF B M b])
    case (1 A ys n a zs p)
    let ?s = "(kvps m)\<lparr>mem := (mem (kvps m))(a := None)\<rparr>"
    obtain h where h: "ListItrRemove (nodes m) n = Some (a, h)"
      "dlists h (A(buckets m ! idx m k := Some (ys @ zs)))" "alloc_ok h = alloc_ok (nodes m)"
      using dl.remove_law [OF 1(1,3)] by blast
    have f: "free (kvps m) a = Some ?s" using 1 by (simp add: store_simps)
    have bl: "bucket_lists h (buckets m) (B(idx m k := map snd ys @ map snd zs))"
      using buckets_in_update [OF 1(2) D(4) b, of "ys @ zs"] h(2) by (auto simp: bucket_lists_def)
    have "pair_index ?s (idx m) (length (buckets m)) (B(idx m k := map snd ys @ map snd zs))"
      using 1 D store_wf_free [OF pair_index_wf [OF D(2)] f] by (intro pair_index_del [OF D(2) 1(7)]) auto
    moreover have "card (dom (mem (kvps m))) = Suc (card (dom (mem ?s)))"
      using pair_index_finite [OF D(2)] 1(7) card.remove [of "dom (mem (kvps m))" a] by (metis (lifting) domI dom_fun_upd
          store.simps(1) store.surjective store.update_convs(1))
    then have "map_size m - 1 = of_nat (card (dom (mem ?s)))" using D(3) by simp
    moreover have "pairs_map ?s (M(k := None))"
      using pairs_map_del [OF M 1(7) _ D(2)] 1(8) by simp
    ultimately have "hm_rel (m\<lparr>nodes := h, kvps := ?s, map_size := map_size m - 1\<rparr>) (M(k := None))"
      unfolding hm_rel_def using bl by (auto intro!: hm_rep_upd [OF B])
    moreover have "HashMap_Remove (Some m) (Some k) pk pv = Some (MAP_SUCCESS, map_option (\<lambda>_. Some k) pk,
        map_option (\<lambda>_. v) pv, Some (m\<lparr>nodes := h, kvps := ?s, map_size := map_size m - 1\<rparr>))"
      using j b 1 h f assms(2) by (simp add: HashMap_Remove_def deref_def DestroyKeyValuePair_def)
    ultimately show ?thesis using h(3) by (simp add: hm_ok_def)
  next
    case 2
    then show ?thesis using assms(2) by simp
  qed
qed

lemma hm_create:
  assumes "GetNextPrime cap = Some p" "p \<noteq> 0" "cap \<noteq> 0" and eq: "\<And>k k'. eq (Some k) (Some k') \<noteq> 0 \<longleftrightarrow> k = k'"
  shows "if al 0 \<and> al 1 then \<exists>m. HashMap_Create al okn okk cap (Some hash) (Some eq) = Some (Some m) \<and>
      hm_rel m Map.empty \<and> hm_ok m = ((\<forall>n. okn n) \<and> (\<forall>n. okk n))
    else HashMap_Create al okn okk cap (Some hash) (Some eq) = Some None"
proof -
  let ?m = "\<lparr>buckets = replicate (unat p) NULL, capacity = p, map_size = 0,
          hashFunc = hash, keysEqualFunc = eq, nodes = empty_store okn, kvps = empty_store okk\<rparr>"
  have "buckets_in Map.empty (replicate (unat p) NULL) (\<lambda>_. [])"
    by (auto simp: buckets_in_def bucket_at_def)
  then have "bucket_lists (empty_store okn) (replicate (unat p) NULL) (\<lambda>_. [])"
    using dlists_empty by (auto simp: bucket_lists_def)
  then have "hm_rep ?m (\<lambda>_. [])"
    using assms(2) eq by (simp add: hm_rep_def pair_index_def) (simp add: empty_store_def)
  then have "hm_rel ?m Map.empty"
    by (auto simp: hm_rel_def pairs_map_def empty_store_def)
  moreover have "hm_ok ?m = ((\<forall>n. okn n) \<and> (\<forall>n. okk n))"
    by (simp add: hm_ok_def empty_store_def)
  ultimately show ?thesis
    using assms by (simp add: HashMap_Create_def)
qed

subsection \<open>Walks over all entries\<close>

definition entry :: "'k KeyValuePair store \<Rightarrow> addr \<Rightarrow> 'k \<times> addr" where
  "entry s a = (let p = the (mem s a) in (kv_key p, kv_value p))"

definition all_pairs :: "(nat \<Rightarrow> addr list) \<Rightarrow> nat list \<Rightarrow> addr list" where
  "all_pairs B is = concat (map B is)"

lemma all_pairs_simps [simp]: "all_pairs B [] = []" "all_pairs B (i # is) = B i @ all_pairs B is"
  by (simp_all add: all_pairs_def)

lemma all_pairs_set:
  assumes "pair_index s f n B" "\<And>k. f k < n"
  shows "set (all_pairs B [0..<n]) = dom (mem s)"
  using assms by (auto simp: all_pairs_def pair_index_def)

lemma all_pairs_distinct:
  assumes R: "pair_index s f n B"
  shows "distinct is \<Longrightarrow> \<forall>i \<in> set is. i < n \<Longrightarrow> distinct (all_pairs B is)"
proof (induction "is")
  case (Cons i "is")
  have "set (B i) \<inter> set (B j) = {}" if "j \<in> set is" for j
    using R Cons.prems that by (auto simp: pair_index_def)
  then show ?case
    using Cons R by (auto simp: all_pairs_def pair_index_def)
qed simp

lemma entries_map:
  assumes I: "pair_index s f n B" "\<And>k. f k < n" and M: "pairs_map s M"
  defines "es \<equiv> map (entry s) (all_pairs B [0..<n])"
  shows "distinct (map fst es)" "map_of es = M"
proof -
  have d: "distinct (all_pairs B [0..<n])" and S: "set (all_pairs B [0..<n]) = dom (mem s)"
    using all_pairs_distinct [OF I(1)] all_pairs_set [OF I] by auto
  have "inj_on (\<lambda>a. fst (entry s a)) (dom (mem s))"
    using pair_index_inj [OF I(1)] by (fastforce simp: inj_on_def entry_def)
  then show dk: "distinct (map fst es)"
    using d S by (simp add: es_def comp_def distinct_map)
  have "map_of es k = Some v \<longleftrightarrow> M k = Some v" for k v
  proof -
    have "map_of es k = Some v \<longleftrightarrow> (k, v) \<in> set es"
      using dk by (rule map_of_eq_Some_iff)
    also have "\<dots> \<longleftrightarrow> (\<exists>a \<in> dom (mem s). (k, v) = entry s a)"
      using S by (auto simp: es_def)
    also have "\<dots> \<longleftrightarrow> M k = Some v"
      using M by (force simp: pairs_map_def entry_def)
    finally show ?thesis .
  qed
  then show "map_of es = M"
    by (metis ext not_None_eq)
qed

fun visit_entries :: "('k \<Rightarrow> addr \<Rightarrow> 's \<Rightarrow> int \<times> 's) \<Rightarrow> ('k \<times> addr) list \<Rightarrow> size_t \<times> 's \<Rightarrow> bool \<times> size_t \<times> 's" where
  "visit_entries act [] st = (True, st)"
| "visit_entries act ((k, v) # es) (count, c) =
     (let (r, c) = act k v c in if r = 0 then (False, count + 1, c) else visit_entries act es (count + 1, c))"

lemma visit_entries_append:
  "visit_entries act (es @ es') st =
   (let (go, st) = visit_entries act es st in if go then visit_entries act es' st else (False, st))"
  by (induction act es st rule: visit_entries.induct) (auto split: prod.splits)

lemma walk_visit:
  assumes "store_wf s" "\<forall>a \<in> set as. mem s a \<noteq> None"
  shows "walk_elems (visit_kvp s act) as st = Some (visit_entries act (map (entry s) as) st)"
  using assms(2)
proof (induction as arbitrary: st)
  case (Cons a as)
  obtain p where p: "mem s a = Some p" using Cons.prems by auto
  have "a \<noteq> NULL" using store_wf_live [OF assms(1) p] .
  then show ?case
    using Cons p by (cases st) (auto simp: visit_kvp_def deref_def entry_def split: prod.splits)
qed simp

lemma visit_buckets_spec:
  assumes rep: "hm_rep m B" and "\<forall>i \<in> set is. i < length (buckets m)"
  shows "visit_buckets is m act st = Some (visit_entries act (map (entry (kvps m)) (all_pairs B is)) st)"
  using assms(2)
proof (induction "is" arbitrary: st)
  case (Cons i "is")
  note D = hm_repD [OF rep]
  obtain A where A: "dlists (nodes m) A" "buckets_in A (buckets m) B"
    using D(1) by (auto simp: bucket_lists_def)
  have i: "i < length (buckets m)" using Cons.prems by simp
  have live: "\<forall>a \<in> set (B i). mem (kvps m) a \<noteq> None"
    using pair_index_in [OF D(2) i] by auto
  have "(if buckets m ! i \<noteq> NULL
       then do {
         itr \<leftarrow> ListItrBegin (nodes m) (buckets m ! i);
         e \<leftarrow> ListItrEnd (nodes m) (buckets m ! i);
         walk_itr (ListItrGet (nodes m)) (ListItrNext (nodes m)) (visit_kvp (kvps m) act) itr e st
       }
       else Some (True, st)) = Some (visit_entries act (map (entry (kvps m)) (B i)) st)"
  proof (cases "buckets m ! i = NULL")
    case True
    then show ?thesis using buckets_in_null [OF A(2) i] by simp
  next
    case False
    obtain xs where xs: "A (buckets m ! i) = Some xs" "map snd xs = B i"
      by (rule buckets_in_get [OF A(2) i False])
    show ?thesis
      using False dl.begin_law [OF A(1) xs(1)] dl.end_law [OF A(1) xs(1)] xs(2)
      by (simp add: dl.walk_from_begin [OF A(1) xs(1)] walk_visit [OF pair_index_wf [OF D(2)] live])
  qed
  then show ?case
    using Cons.IH Cons.prems i by (auto simp: rd_def visit_entries_append split: prod.splits)
qed simp

lemma hm_foreach:
  assumes "hm_rel m M"
  shows "\<exists>es. distinct (map fst es) \<and> map_of es = M \<and>
    HashMap_ForEach (Some m) (Some act) c = Some (snd (visit_entries act es (0, c)))"
proof -
  obtain B where B: "hm_rep m B" and M: "pairs_map (kvps m) M"
    using assms by (auto simp: hm_rel_def)
  note D = hm_repD [OF B]
  have n: "length (buckets m) = unat (capacity m)" using B by (simp add: hm_rep_def)
  show ?thesis
    using entries_map [OF D(2) D(4) M] visit_buckets_spec [OF B, of "[0..<length (buckets m)]" act "(0, c)"] n
    by (intro exI [of _ "map (entry (kvps m)) (all_pairs B [0..<length (buckets m)])"])
      (auto simp: HashMap_ForEach_def split: prod.splits)
qed

fun destroy_entries :: "('k, 's) destructor \<Rightarrow> (addr, 's) destructor \<Rightarrow> ('k \<times> addr) list \<Rightarrow> 's \<Rightarrow> 's option" where
  "destroy_entries kd vd [] c = Some c"
| "destroy_entries kd vd ((k, v) # es) c =
     do { c \<leftarrow> run_destructor kd k c; c \<leftarrow> run_destructor vd v c; destroy_entries kd vd es c }"

lemma destroy_entries_append:
  "destroy_entries kd vd (es @ es') c = do { c \<leftarrow> destroy_entries kd vd es c; destroy_entries kd vd es' c }"
  by (induction kd vd es c rule: destroy_entries.induct) (simp_all split: option.splits cong: Option.bind_cong)

lemma entry_without: "a \<notin> X \<Longrightarrow> entry (without s X) a = entry s a"
  by (simp add: entry_def)

lemma walk_destroy:
  assumes "store_wf s" "\<forall>a \<in> set as. mem s a \<noteq> None" "distinct as"
  shows "walk_elems (destroy_kvp kd vd) as (s, c) =
    map_option (\<lambda>c. (True, without s (set as), c)) (destroy_entries kd vd (map (entry s) as) c)"
  using assms
proof (induction as arbitrary: s c)
  case (Cons a as)
  obtain p where p: "mem s a = Some p" using Cons.prems(2) by auto
  have a: "a \<noteq> NULL" using store_wf_live [OF Cons.prems(1) p] .
  let ?s = "without s {a}"
  have f: "free s a = Some ?s" using p a by (simp add: free_def without_def fun_upd_def)
  have e: "map (entry ?s) as = map (entry s) as"
    using Cons.prems(3) by (intro map_cong refl entry_without) auto
  have "walk_elems (destroy_kvp kd vd) as (?s, c) =
      map_option (\<lambda>c. (True, without s (set (a # as)), c)) (destroy_entries kd vd (map (entry s) as) c)" for c
  proof -
    have "\<forall>x \<in> set as. mem ?s x \<noteq> None" using Cons.prems(2,3) by auto
    then show ?thesis using Cons.IH [of ?s c] Cons.prems(1,3) by (simp add: e)
  qed
  moreover have "destroy_kvp kd vd a (s, c) =
      do { c \<leftarrow> run_destructor kd (kv_key p) c; c \<leftarrow> run_destructor vd (kv_value p) c; Some (True, ?s, c) }"
    using p a f by (simp add: destroy_kvp_def deref_def DestroyKeyValuePair_def)
  moreover have "entry s a = (kv_key p, kv_value p)" using p by (simp add: entry_def)
  ultimately show ?case
    by (simp split: bind_splits)
qed simp

lemma destroy_bucket:
  assumes A: "dlists h A" "A b = Some xs" and s: "store_wf s" "\<forall>a \<in> set (map snd xs). mem s a \<noteq> None"
    "distinct (map snd xs)" and d: "destroy_entries kd vd (map (entry s) (map snd xs)) c = Some c'"
  shows "\<exists>h'. DestroySingleBucket h s b kd vd c = Some (h', without s (set (map snd xs)), c') \<and> dlists h' (A(b := None))"
proof -
  obtain h' where h': "ListDestroy h (Some b) False = Some ([], Some NULL, h')" "dlists h' (A(b := None))"
    using dl.destroy_law [OF A, of False] by auto
  have "b \<noteq> NULL" using dl.nodes_law [OF A] by simp
  then show ?thesis
    using h' dl.begin_law [OF A] dl.end_law [OF A] d
    by (simp add: DestroySingleBucket_def dl.walk_from_begin [OF A] walk_destroy [OF s])
qed

text \<open>The lists that are left once the buckets of some indices are destroyed.\<close>

definition rest_lists :: "lists \<Rightarrow> addr list \<Rightarrow> nat list \<Rightarrow> lists" where
  "rest_lists A bks is = (\<lambda>l. if \<exists>i \<in> set is. bks ! i = l then A l else None)"

lemma destroy_buckets_spec:
  assumes A: "buckets_in A bks B" and I: "pair_index s f (length bks) B" and "is": "distinct is" "\<forall>i \<in> set is. i < length bks"
    and h: "dlists h (rest_lists A bks is)" and X: "X \<inter> set (all_pairs B is) = {}"
    and d: "destroy_entries kd vd (map (entry s) (all_pairs B is)) c = Some c'"
  shows "\<exists>h'. destroy_buckets is bks kd vd (h, without s X, c) =
      Some (h', without s (X \<union> set (all_pairs B is)), c') \<and> dlists h' Map.empty"
  using "is" h X d
proof (induction "is" arbitrary: h X c)
  case Nil
  then show ?case by (simp add: rest_lists_def)
next
  case (Cons i "is")
  have i: "i < length bks" using Cons.prems by simp
  obtain c1 where c1: "destroy_entries kd vd (map (entry s) (B i)) c = Some c1"
    "destroy_entries kd vd (map (entry s) (all_pairs B is)) c1 = Some c'"
    using Cons.prems(5) by (auto simp: destroy_entries_append split: bind_splits)
  have dj: "set (B i) \<inter> set (all_pairs B is) = {}"
    using all_pairs_distinct [OF I Cons.prems(1,2)] by simp
  have step: "\<exists>h1. (if bks ! i \<noteq> NULL then DestroySingleBucket h (without s X) (bks ! i) kd vd c
      else Some (h, without s X, c)) = Some (h1, without s (X \<union> set (B i)), c1) \<and> dlists h1 (rest_lists A bks is)"
  proof (cases "bks ! i = NULL")
    case True
    then have "B i = []" "rest_lists A bks (i # is) = rest_lists A bks is"
      using buckets_in_null [OF A i] A by (auto simp: rest_lists_def fun_eq_iff buckets_in_def domIff) 
    then show ?thesis using True Cons.prems(3) c1(1) by simp
  next
    case False
    obtain xs where xs: "A (bks ! i) = Some xs" "map snd xs = B i"
      by (rule buckets_in_get [OF A i False])
    have R: "rest_lists A bks (i # is) (bks ! i) = Some xs"
      using xs(1) by (simp add: rest_lists_def)
    have disj: "X \<inter> set (B i) = {}" using Cons.prems(4) by auto
    have "\<forall>a \<in> set (map snd xs). mem (without s X) a \<noteq> None"
      unfolding xs(2) using disj pair_index_in [OF I i] by fastforce
    moreover have "distinct (map snd xs)"
      unfolding xs(2) using I i by (simp add: pair_index_def)
    moreover have "store_wf (without s X)"
      using pair_index_wf [OF I] by simp
    moreover have "map (entry (without s X)) (map snd xs) = map (entry s) (B i)"
      unfolding xs(2) using disj by (intro map_cong refl entry_without) auto
    ultimately have live: "\<forall>a \<in> set (map snd xs). mem (without s X) a \<noteq> None" "distinct (map snd xs)"
      "store_wf (without s X)" "map (entry (without s X)) (map snd xs) = map (entry s) (B i)"
      by blast+
    have "(rest_lists A bks (i # is))(bks ! i := None) = rest_lists A bks is"
      using A i False Cons.prems(1,2) by (auto simp: rest_lists_def fun_eq_iff buckets_in_def)
    then show ?thesis
      using destroy_bucket [OF Cons.prems(3) R live(3,1,2), of kd vd c c1, unfolded live(4)] c1(1) False xs(2)
      by simp
  qed
  then obtain h1 where h1: "dlists h1 (rest_lists A bks is)"
    "(if bks ! i \<noteq> NULL then DestroySingleBucket h (without s X) (bks ! i) kd vd c
      else Some (h, without s X, c)) = Some (h1, without s (X \<union> set (B i)), c1)" by blast
  have "(X \<union> set (B i)) \<inter> set (all_pairs B is) = {}"
    using Cons.prems(4) dj by auto
  then show ?case
    using Cons.IH [OF _ _ h1(1) _ c1(2), of "X \<union> set (B i)"] h1(2) i Cons.prems
    by (simp add: rd_def Un_assoc)
qed

lemma hm_destroy:
  assumes "hm_rel m M"
  shows "\<exists>es. distinct (map fst es) \<and> map_of es = M \<and>
    (\<forall>c c'. destroy_entries kd vd es c = Some c' \<longrightarrow>
      (\<exists>h s. HashMap_Destroy (Some (Some m)) kd vd c = Some (Some None, Some (h, s), c') \<and>
        mem h = Map.empty \<and> mem s = Map.empty))"
proof -
  obtain B where B: "hm_rep m B" and M: "pairs_map (kvps m) M"
    using assms by (auto simp: hm_rel_def)
  note D = hm_repD [OF B]
  let ?n = "length (buckets m)" and ?s = "kvps m"
  let ?es = "map (entry ?s) (all_pairs B [0..<?n])"
  obtain A where A: "dlists (nodes m) A" "buckets_in A (buckets m) B"
    using D(1) by (auto simp: bucket_lists_def)
  have n: "?n = unat (capacity m)" using B by (simp add: hm_rep_def)
  have "rest_lists A (buckets m) [0..<?n] = A"
  proof
    fix l
    have "\<exists>i \<in> set [0..<?n]. buckets m ! i = l" if "A l \<noteq> None"
    proof -
      have "l \<in> set (buckets m)" using A(2) that by (auto simp: buckets_in_def)
      then show ?thesis by (auto simp: in_set_conv_nth)
    qed
    then show "rest_lists A (buckets m) [0..<?n] l = A l"
      by (cases "A l") (auto simp: rest_lists_def)
  qed
  then have h: "dlists (nodes m) (rest_lists A (buckets m) [0..<?n])" using A(1) by simp
  have "\<exists>h s. HashMap_Destroy (Some (Some m)) kd vd c = Some (Some None, Some (h, s), c') \<and>
      mem h = Map.empty \<and> mem s = Map.empty" if d: "destroy_entries kd vd ?es c = Some c'" for c c'
  proof -
    obtain h' where h': "destroy_buckets [0..<?n] (buckets m) kd vd (nodes m, ?s, c) =
        Some (h', without ?s (set (all_pairs B [0..<?n])), c')" "dlists h' Map.empty"
      using destroy_buckets_spec [OF A(2) D(2) _ _ h _ d, of "{}"] by auto
    have "mem h' = Map.empty" using h'(2) by (simp add: dlists_def)
    moreover have "mem (without ?s (set (all_pairs B [0..<?n]))) = Map.empty"
      unfolding all_pairs_set [OF D(2,4)] by (auto simp: fun_eq_iff)
    ultimately show ?thesis using h'(1) n by (simp add: HashMap_Destroy_def)
  qed
  then show ?thesis
    using entries_map [OF D(2) D(4) M] by blast
qed

section \<open>The contract of a map\<close>

text \<open>
  What the managers rely on. \<open>rel m M\<close> says that \<open>m\<close> represents the finite map \<open>M\<close>, \<open>ok m\<close> that no allocation of
  the map fails.
\<close>

locale map_adt =
  fixes rel :: "'m \<Rightarrow> ('k \<rightharpoonup> addr) \<Rightarrow> bool"
    and ok :: "'m \<Rightarrow> bool"
    and find :: "'m option \<Rightarrow> 'k option \<Rightarrow> addr option \<Rightarrow> (Map_Result \<times> addr option) option"
    and ins :: "'m option \<Rightarrow> 'k option \<Rightarrow> addr \<Rightarrow> (Map_Result \<times> 'm option) option"
    and rmv :: "'m option \<Rightarrow> 'k option \<Rightarrow> 'k option option \<Rightarrow> addr option \<Rightarrow>
      (Map_Result \<times> 'k option option \<times> addr option \<times> 'm option) option"
  assumes find_law: "rel m M \<Longrightarrow> find (Some m) (Some k) pv = Some (case M k of
      None \<Rightarrow> (MAP_KEY_NOT_FOUND_ERROR, pv) | Some v \<Rightarrow> (MAP_SUCCESS, map_option (\<lambda>_. v) pv))"
    and insert_new_law: "rel m M \<Longrightarrow> M k = None \<Longrightarrow> \<exists>c m'. ins (Some m) (Some k) v = Some (c, Some m') \<and> ok m' = ok m \<and>
      (c = MAP_SUCCESS \<and> rel m' (M(k := Some v)) \<or> c = MAP_ALLOCATION_ERROR \<and> rel m' M \<and> \<not> ok m)"
    and insert_dup_law: "rel m M \<Longrightarrow> M k = Some u \<Longrightarrow>
      ins (Some m) (Some k) v = Some (MAP_KEY_DUPLICATE_ERROR, Some m)"
    and remove_absent_law: "rel m M \<Longrightarrow> M k = None \<Longrightarrow>
      rmv (Some m) (Some k) pk pv = Some (MAP_KEY_NOT_FOUND_ERROR, pk, pv, Some m)"
    and remove_law: "rel m M \<Longrightarrow> M k = Some v \<Longrightarrow> \<exists>m'. rmv (Some m) (Some k) pk pv =
      Some (MAP_SUCCESS, map_option (\<lambda>_. Some k) pk, map_option (\<lambda>_. v) pv, Some m') \<and>
      rel m' (M(k := None)) \<and> ok m' = ok m"
    and dom_finite_law: "rel m M \<Longrightarrow> finite (dom M)"
begin

lemma find_found: "rel m M \<Longrightarrow> M k = Some v \<Longrightarrow> find (Some m) (Some k) (Some u) = Some (MAP_SUCCESS, Some v)"
  using find_law by simp

lemma find_absent: "rel m M \<Longrightarrow> M k = None \<Longrightarrow> find (Some m) (Some k) pv = Some (MAP_KEY_NOT_FOUND_ERROR, pv)"
  using find_law by simp

lemma insert_cases:
  assumes "rel m M" "M k = None"
  obtains (inserted) m' where "ins (Some m) (Some k) v = Some (MAP_SUCCESS, Some m')" "rel m' (M(k := Some v))" "ok m' = ok m"
  | (fails) m' where "ins (Some m) (Some k) v = Some (MAP_ALLOCATION_ERROR, Some m')" "rel m' M" "ok m' = ok m" "\<not> ok m"
  using insert_new_law [OF assms, of v] by blast

lemma remove_gives:
  assumes "rel m M" "M k = Some v"
  obtains m' where "rmv (Some m) (Some k) (Some pk) (Some pv) = Some (MAP_SUCCESS, Some (Some k), Some v, Some m')"
    "rel m' (M(k := None))" "ok m' = ok m"
  using remove_law [OF assms, of "Some pk" "Some pv"] by auto

text \<open>A key that was inserted is found, and removing it gives a map that behaves as before.\<close>

lemma insert_find_remove:
  assumes "rel m M" "ok m" "M k = None"
  obtains m1 m2 where "ins (Some m) (Some k) v = Some (MAP_SUCCESS, Some m1)"
    "find (Some m1) (Some k) (Some u) = Some (MAP_SUCCESS, Some v)"
    "rmv (Some m1) (Some k) (Some pk) (Some pv) = Some (MAP_SUCCESS, Some (Some k), Some v, Some m2)" "rel m2 M"
proof -
  obtain m1 where m1: "ins (Some m) (Some k) v = Some (MAP_SUCCESS, Some m1)" "rel m1 (M(k := Some v))"
    using insert_cases [OF assms(1,3), of v] assms(2) by metis
  obtain m2 where "rmv (Some m1) (Some k) (Some pk) (Some pv) = Some (MAP_SUCCESS, Some (Some k), Some v, Some m2)"
    "rel m2 ((M(k := Some v))(k := None))"
    using remove_gives [OF m1(2), of k v pk pv] by auto
  moreover have "(M(k := Some v))(k := None) = M" using assms(3) by auto
  moreover have "find (Some m1) (Some k) (Some u) = Some (MAP_SUCCESS, Some v)"
    using find_found [OF m1(2)] by simp
  ultimately show thesis using that m1(1) by metis
qed

end

lemma hm_finite:
  assumes "hm_rel m M"
  shows "finite (dom M)"
proof -
  obtain es where "map_of es = M"
    using hm_foreach [OF assms] by metis
  then show ?thesis by (metis finite_dom_map_of)
qed

interpretation hm: map_adt hm_rel hm_ok HashMap_Find HashMap_Insert HashMap_Remove
proof
  fix m :: "'a HashMap" and M k v u pk pv
  assume R: "hm_rel m M"
  show "HashMap_Find (Some m) (Some k) pv = Some (case M k of
      None \<Rightarrow> (MAP_KEY_NOT_FOUND_ERROR, pv) | Some v \<Rightarrow> (MAP_SUCCESS, map_option (\<lambda>_. v) pv))"
    by (rule hm_find [OF R])
  show "finite (dom M)" by (rule hm_finite [OF R])
  show "\<exists>c m'. HashMap_Insert (Some m) (Some k) v = Some (c, Some m') \<and> hm_ok m' = hm_ok m \<and>
      (c = MAP_SUCCESS \<and> hm_rel m' (M(k := Some v)) \<or> c = MAP_ALLOCATION_ERROR \<and> hm_rel m' M \<and> \<not> hm_ok m)"
    if "M k = None"
    using hm_insert [OF R, of k v] that by (simp add: inserted_def)
  show "HashMap_Insert (Some m) (Some k) v = Some (MAP_KEY_DUPLICATE_ERROR, Some m)" if "M k = Some u"
    using hm_insert [OF R, of k v] that by simp
qed (auto intro: hm_remove_absent hm_remove_present)

section \<open>Correctness of the hash map\<close>

lemma hm_size:
  assumes "hm_rel m M"
  shows "HashMap_Size (Some m) = of_nat (card (dom M))"
proof -
  obtain B where B: "hm_rep m B" and M: "pairs_map (kvps m) M"
    using assms by (auto simp: hm_rel_def)
  note D = hm_repD [OF B]
  let ?as = "all_pairs B [0..<length (buckets m)]"
  let ?es = "map (entry (kvps m)) ?as"
  have "distinct (map fst ?es)" "map_of ?es = M"
    using entries_map [OF D(2,4) M] by auto
  then have "card (dom M) = length ?as"
    by (metis distinct_card dom_map_of_conv_image_fst length_map list.set_map)
  also have "\<dots> = card (dom (mem (kvps m)))"
    using all_pairs_distinct [OF D(2), of "[0..<length (buckets m)]"] all_pairs_set [OF D(2,4)]
    by (metis distinct_card distinct_upt atLeastLessThan_iff set_upt)
  finally show ?thesis using D(3) by (simp add: HashMap_Size_def)
qed

text \<open>Sequences of calls on the map in memory and on a finite map.\<close>

datatype 'k mop = MFind 'k | MInsert 'k addr | MRemove 'k | MSize

datatype mres = RFind Map_Result addr | RInsert Map_Result | RRemove Map_Result addr | RSize size_t

fun map_run :: "'k HashMap option \<Rightarrow> 'k mop list \<Rightarrow> mres list option" where
  "map_run m [] = Some []"
| "map_run m (MFind k # ops) = do {
     (r, v) \<leftarrow> HashMap_Find m (Some k) (Some NULL);
     rs \<leftarrow> map_run m ops;
     Some (RFind r (the v) # rs) }"
| "map_run m (MInsert k v # ops) = do {
     (r, m) \<leftarrow> HashMap_Insert m (Some k) v;
     rs \<leftarrow> map_run m ops;
     Some (RInsert r # rs) }"
| "map_run m (MRemove k # ops) = do {
     (r, _, v, m) \<leftarrow> HashMap_Remove m (Some k) (Some None) (Some NULL);
     rs \<leftarrow> map_run m ops;
     Some (RRemove r (the v) # rs) }"
| "map_run m (MSize # ops) = do {
     rs \<leftarrow> map_run m ops;
     Some (RSize (HashMap_Size m) # rs) }"

fun fm_run :: "('k \<rightharpoonup> addr) \<Rightarrow> 'k mop list \<Rightarrow> mres list" where
  "fm_run M [] = []"
| "fm_run M (MFind k # ops) =
     (case M k of None \<Rightarrow> RFind MAP_KEY_NOT_FOUND_ERROR NULL | Some v \<Rightarrow> RFind MAP_SUCCESS v) # fm_run M ops"
| "fm_run M (MInsert k v # ops) =
     (if M k = None then RInsert MAP_SUCCESS # fm_run (M(k := Some v)) ops
      else RInsert MAP_KEY_DUPLICATE_ERROR # fm_run M ops)"
| "fm_run M (MRemove k # ops) =
     (case M k of None \<Rightarrow> RRemove MAP_KEY_NOT_FOUND_ERROR NULL # fm_run M ops
      | Some v \<Rightarrow> RRemove MAP_SUCCESS v # fm_run (M(k := None)) ops)"
| "fm_run M (MSize # ops) = RSize (of_nat (card (dom M))) # fm_run M ops"

lemma map_run_spec: "hm_rel m M \<Longrightarrow> hm_ok m \<Longrightarrow> map_run (Some m) ops = Some (fm_run M ops)"
proof (induction M ops arbitrary: m rule: fm_run.induct)
  case (2 M k ops)
  then show ?case using hm.find_law [of m M k "Some NULL"] by (simp split: option.splits)
next
  case (3 M k v ops)
  show ?case
  proof (cases "M k")
    case None
    then show ?thesis
      using "3.IH"(1) "3.prems"
      by (cases rule: hm.insert_cases [OF "3.prems"(1) None, of v]) (simp_all del: fun_upd_apply)
  next
    case (Some u)
    then show ?thesis
      using "3.IH"(2) "3.prems" hm.insert_dup_law [OF "3.prems"(1) Some] by simp
  qed
next
  case (4 M k ops)
  show ?case
  proof (cases "M k")
    case None
    then show ?thesis
      using "4.IH"(1) "4.prems" hm.remove_absent_law [OF "4.prems"(1) None] by simp
  next
    case (Some v)
    then obtain m' where "HashMap_Remove (Some m) (Some k) (Some None) (Some NULL) =
        Some (MAP_SUCCESS, Some (Some k), Some v, Some m')" "hm_rel m' (M(k := None))" "hm_ok m' = hm_ok m"
      by (rule hm.remove_gives [OF "4.prems"(1)])
    then show ?thesis using "4.IH"(2) "4.prems" Some by (simp del: fun_upd_apply)
  qed
qed (simp_all add: hm_size)

text \<open>A map on numbers, for the concrete instances below.\<close>

definition sample_eq :: "size_t option \<Rightarrow> size_t option \<Rightarrow> int" where
  "sample_eq a b = (if a = b then 1 else 0)"

lemma sample_map:
  obtains m where "HashMap_Create (\<lambda>_. True) okn okk 100 (Some the) (Some sample_eq) = Some (Some m)"
    "hm_rel m Map.empty"
proof -
  have eq: "sample_eq (Some k) (Some k') \<noteq> 0 \<longleftrightarrow> k = k'" for k k'
    by (simp add: sample_eq_def)
  show thesis
    using that hm_create [OF GetNextPrime_100 _ _ eq, of "\<lambda>_. True" okn okk the] by auto
qed

text \<open>
  C38: A map behaves as a finite map. A map created for 100 entries, with any hash function and an equality function
  that decides equality of keys, answers every sequence of finds, insertions, removals and size queries
  with the results a finite map gives, as long as no allocation fails: no call runs into an invalid
  pointer, an invalid bucket or a division by zero, and every loop ends.
\<close>

theorem map_refines_finite_map:
  assumes "al 0 \<and> al 1" and "\<forall>n. okn n \<and> okk n" and "\<forall>k k'. eq (Some k) (Some k') \<noteq> 0 \<longleftrightarrow> k = k'"
  shows "\<exists>m. HashMap_Create al okn okk 100 (Some hash) (Some eq) = Some (Some m) \<and>
    map_run (Some m) ops = Some (fm_run Map.empty ops)"
proof -
  obtain m where "HashMap_Create al okn okk 100 (Some hash) (Some eq) = Some (Some m)"
    "hm_rel m Map.empty" "hm_ok m"
    using hm_create [OF GetNextPrime_100, of eq al okn okk hash] assms by auto
  then show ?thesis using map_run_spec by blast
qed

theorem map_refines_finite_map_witness:
  "\<exists>m. HashMap_Create (\<lambda>_. True) (\<lambda>_. True) (\<lambda>_. True) 100
      (Some the) (Some sample_eq) = Some (Some m) \<and>
    map_run (Some m) [MInsert 5 7, MInsert 106 8, MInsert 5 9, MFind 106, MRemove 5, MFind 5, MSize] =
      Some [RInsert MAP_SUCCESS, RInsert MAP_SUCCESS, RInsert MAP_KEY_DUPLICATE_ERROR, RFind MAP_SUCCESS 8,
        RRemove MAP_SUCCESS 7, RFind MAP_KEY_NOT_FOUND_ERROR 0, RSize 1]"
proof -
  have "dom ([106 \<mapsto> 8] :: size_t \<rightharpoonup> addr) = {106}" by (auto split: if_splits)
  moreover have "([5 \<mapsto> 7, 106 \<mapsto> 8])(5 := None) = ([106 \<mapsto> 8] :: size_t \<rightharpoonup> addr)" by auto
  ultimately show ?thesis
    using map_refines_finite_map [of "\<lambda>_. True" "\<lambda>_. True" "\<lambda>_. True" sample_eq the
        "[MInsert 5 7, MInsert 106 8, MInsert 5 9, MFind 106, MRemove 5, MFind 5, MSize]"]
    by (simp add: sample_eq_def)
qed

text \<open>
  Allocation failures. Whatever allocations fail, \<open>HashMap_Insert\<close> of an absent key either stores it or returns
  \<open>MAP_ALLOCATION_ERROR\<close> and leaves a map with the same entries; the latter happens only when an
  allocation fails. An existing key is refused and nothing changes.
\<close>

theorem map_insert_outcomes:
  assumes "hm_rel m M"
  shows "\<exists>r m'. HashMap_Insert (Some m) (Some k) v = Some (r, Some m') \<and>
    (if M k \<noteq> None then r = MAP_KEY_DUPLICATE_ERROR \<and> m' = m
     else r = MAP_SUCCESS \<and> hm_rel m' (M(k := Some v)) \<or> r = MAP_ALLOCATION_ERROR \<and> hm_rel m' M \<and> \<not> hm_ok m)"
  using hm_insert [OF assms, of k v] by (cases "M k") (auto simp: inserted_def)



end
