(* ===== verification/Owned_Lists.thy ===== *)
theory Owned_Lists
  imports Gen_DList
begin

text \<open>
  Lists whose elements are heap objects that the list owns, as the lists of group names of the users. The list nodes
  live in one store and the objects in another; \<open>olists h s N\<close> says that the lists in \<open>h\<close> hold the objects of \<open>s\<close>,
  each object in exactly one position of one list, and that \<open>N\<close> gives for each list its sequence of objects. The lemmas
  lift the contract of the list store to such lists.
\<close>

definition cells :: "(addr \<times> addr) list \<Rightarrow> addr set" where
  "cells xs = snd ` set xs"

definition contents :: "'a store \<Rightarrow> (addr \<times> addr) list \<Rightarrow> 'a list" where
  "contents s xs = map (\<lambda>x. the (mem s (snd x))) xs"

definition olists_in :: "'a store \<Rightarrow> lists \<Rightarrow> (addr \<rightharpoonup> 'a list) \<Rightarrow> bool" where
  "olists_in s L N \<longleftrightarrow> store_wf s \<and> N = (\<lambda>l. map_option (contents s) (L l)) \<and>
     (\<forall>l xs. L l = Some xs \<longrightarrow> distinct (map snd xs)) \<and>
     (\<forall>l xs l' xs'. L l = Some xs \<longrightarrow> L l' = Some xs' \<longrightarrow> l \<noteq> l' \<longrightarrow> cells xs \<inter> cells xs' = {}) \<and>
     dom (mem s) = (\<Union>l \<in> dom L. cells (the (L l)))"

definition olists :: "heap \<Rightarrow> 'a store \<Rightarrow> (addr \<rightharpoonup> 'a list) \<Rightarrow> bool" where
  "olists h s N \<longleftrightarrow> (\<exists>L. dlists h L \<and> olists_in s L N)"

lemma diff_of_disjoint: "X = C \<union> U \<Longrightarrow> C \<inter> U = {} \<Longrightarrow> X - C = U"
  by blast

lemma contents_cong: "(\<And>a. a \<in> cells xs \<Longrightarrow> mem s' a = mem s a) \<Longrightarrow> contents s' xs = contents s xs"
  by (simp add: contents_def cells_def)

lemma cells_append [simp]: "cells (xs @ ys) = cells xs \<union> cells ys" "cells ((n, a) # ys) = insert a (cells ys)" "cells [] = {}"
  by (auto simp: cells_def)

lemma contents_append [simp]:
  "contents s (xs @ ys) = contents s xs @ contents s ys" "contents s ((n, a) # ys) = the (mem s a) # contents s ys"
  "contents s [] = []"
  by (auto simp: contents_def)

lemma olists_inD:
  assumes "olists_in s L N"
  shows "store_wf s" "N l = map_option (contents s) (L l)" "dom N = dom L"
    "L l = Some xs \<Longrightarrow> distinct (map snd xs)" "L l = Some xs \<Longrightarrow> cells xs \<subseteq> dom (mem s)"
    "L l = Some xs \<Longrightarrow> L l' = Some xs' \<Longrightarrow> l \<noteq> l' \<Longrightarrow> cells xs \<inter> cells xs' = {}"
  using assms unfolding olists_in_def by (auto split: option.splits)

lemma olists_in_get:
  assumes "olists_in s L N" "N l = Some gs"
  obtains xs where "L l = Some xs" "contents s xs = gs"
  using assms olists_inD(2) [OF assms(1), of l] by (cases "L l") auto

text \<open>One list is replaced, together with the objects it gained or lost.\<close>

lemma olists_in_update:
  assumes R: "olists_in s L N" and l: "L l = Some xs" and wf: "store_wf s'"
    and d: "distinct (map snd ys)" and new: "new \<inter> dom (mem s) = {}" and sub: "cells ys \<subseteq> cells xs \<union> new"
    and dm: "dom (mem s') = (dom (mem s) - cells xs) \<union> cells ys"
    and same: "\<And>a. a \<in> dom (mem s) - cells xs \<Longrightarrow> mem s' a = mem s a"
  shows "olists_in s' (L(l := Some ys)) (N(l := Some (contents s' ys)))"
proof -
  note D = olists_inD [OF R]
  have other: "cells zs \<subseteq> dom (mem s) - cells xs" if "L k = Some zs" "k \<noteq> l" for k zs
    using D(5) [OF that(1)] D(6) [OF that(1) l that(2)] by blast
  have keep: "contents s' zs = contents s zs" if "L k = Some zs" "k \<noteq> l" for k zs
    using other [OF that] same by (intro contents_cong) blast
  have N: "N(l := Some (contents s' ys)) = (\<lambda>k. map_option (contents s') ((L(l := Some ys)) k))"
  proof
    fix k show "(N(l := Some (contents s' ys))) k = map_option (contents s') ((L(l := Some ys)) k)"
      using D(2) [of k] keep [of k] by (cases "k = l"; cases "L k") auto
  qed
  have disj: "cells zs \<inter> cells zs' = {}"
    if "(L(l := Some ys)) k = Some zs" "(L(l := Some ys)) k' = Some zs'" "k \<noteq> k'" for k k' zs zs'
  proof -
    have "cells ys \<inter> cells us = {}" if "L j = Some us" "j \<noteq> l" for j us
      using other [OF that] sub new by blast
    then show ?thesis
      using that D(6) [of k zs k' zs'] by (auto split: if_splits)
  qed
  have "dom (mem s') = (\<Union>k \<in> dom (L(l := Some ys)). cells (the ((L(l := Some ys)) k)))"
  proof -
    let ?U = "\<Union>k \<in> dom L - {l}. cells (the (L k))"
    have "dom (mem s) = (\<Union>k \<in> insert l (dom L - {l}). cells (the (L k)))"
      using R l by (simp add: olists_in_def insert_absorb domI)
    then have "dom (mem s) = cells xs \<union> ?U" by (simp only: UN_insert l option.sel)
    moreover have "cells xs \<inter> ?U = {}" using other by fastforce
    ultimately have "dom (mem s') = ?U \<union> cells ys" unfolding dm by (simp only: diff_of_disjoint)
    also have "?U = (\<Union>k \<in> dom L - {l}. cells (the ((L(l := Some ys)) k)))" by (intro SUP_cong) auto
    also have "\<dots> \<union> cells ys = (\<Union>k \<in> insert l (dom L - {l}). cells (the ((L(l := Some ys)) k)))"
      unfolding UN_insert by (simp only: fun_upd_same option.sel Un_commute)
    also have "insert l (dom L - {l}) = dom (L(l := Some ys))" by auto
    finally show ?thesis .
  qed
  then show ?thesis
    unfolding olists_in_def using wf N disj d D(4) by (auto split: if_splits)
qed

lemma olists_wf: "olists h s N \<Longrightarrow> store_wf s"
  by (auto simp: olists_def dest: olists_inD(1))

lemma olists_not_null: "olists h s N \<Longrightarrow> N l = Some gs \<Longrightarrow> l \<noteq> NULL"
  unfolding olists_def using dl.nodes_law by (metis olists_in_get)

lemma olists_same_mem: "olists h s N \<Longrightarrow> store_wf s' \<Longrightarrow> mem s' = mem s \<Longrightarrow> olists h s' N"
proof -
  assume a: "olists h s N" "store_wf s'" "mem s' = mem s"
  then have "contents s' = contents s" by (simp add: contents_def fun_eq_iff)
  then show "olists h s' N" using a unfolding olists_def olists_in_def by auto
qed

lemma olists_create:
  assumes "olists h s N"
  obtains (fails) h' where "ListCreate h = Some (NULL, h')" "olists h' s N" "alloc_ok h' = alloc_ok h" "\<exists>n. \<not> alloc_ok h n"
  | (created) l h' where "ListCreate h = Some (l, h')" "l \<noteq> NULL" "N l = None" "olists h' s (N(l := Some []))"
      "alloc_ok h' = alloc_ok h"
proof -
  obtain L where L: "dlists h L" "olists_in s L N" using assms by (auto simp: olists_def)
  show thesis
  proof (cases rule: dl.create_cases [OF L(1)])
    case (1 h')
    then show thesis using L(2) by (intro fails [of h']) (auto simp: olists_def)
  next
    case (2 l h')
    have "N(l := Some []) = (\<lambda>k. map_option (contents s) ((L(l := Some [])) k))"
      using olists_inD(2) [OF L(2)] by (auto simp: fun_eq_iff)
    moreover have "(\<Union>k \<in> dom (L(l := Some [])). cells (the ((L(l := Some [])) k))) = (\<Union>k \<in> dom L. cells (the (L k)))"
    proof -
      have "(\<Union>k \<in> dom L. cells (the ((L(l := Some [])) k))) = (\<Union>k \<in> dom L. cells (the (L k)))"
        using 2(3) by (intro SUP_cong) auto
      then show ?thesis by simp
    qed
    ultimately have "olists_in s (L(l := Some [])) (N(l := Some []))"
      using L(2) unfolding olists_in_def by (auto split: if_splits)
    then have "olists h' s (N(l := Some []))" using 2(4) by (auto simp: olists_def)
    moreover have "N l = None" using olists_inD(2) [OF L(2)] 2(3) by simp
    ultimately show thesis by (intro created [OF 2(1,2) _ _ 2(5)])
  qed
qed

lemma olists_append:
  assumes R: "olists h s N" and l: "N l = Some gs" and m: "malloc s g = (a, s1)" "a \<noteq> NULL"
  obtains (fails) h' s' where "ListPushTail h l a = Some (NULL, h')" "free s1 a = Some s'" "olists h' s' N"
      "alloc_ok h' = alloc_ok h" "alloc_ok s' = alloc_ok s" "\<exists>n. \<not> alloc_ok h n"
  | (appended) n h' where "ListPushTail h l a = Some (n, h')" "n \<noteq> NULL" "olists h' s1 (N(l := Some (gs @ [g])))"
      "alloc_ok h' = alloc_ok h" "alloc_ok s1 = alloc_ok s"
proof -
  obtain L where L: "dlists h L" "olists_in s L N" using R by (auto simp: olists_def)
  obtain xs where xs: "L l = Some xs" "contents s xs = gs" by (rule olists_in_get [OF L(2) l])
  note D = olists_inD [OF L(2)]
  have f: "mem s a = None" "mem s1 = (mem s)(a := Some g)" "alloc_ok s1 = alloc_ok s"
    using malloc_cases [OF D(1) m(1)] m(2) by auto
  show thesis
  proof (cases rule: dl.push_cases [OF L(1) xs(1), of a])
    case (1 h')
    let ?s = "s1\<lparr>mem := (mem s1)(a := None)\<rparr>"
    have fr: "free s1 a = Some ?s" using f m(2) by (simp add: store_simps)
    have same: "mem ?s = mem s" using f by (auto simp: fun_eq_iff)
    have "contents ?s = contents s" using same by (simp add: contents_def fun_eq_iff)
    then have "olists_in ?s L N"
      using L(2) store_wf_free [OF store_wf_malloc [OF D(1) m(1)] fr] unfolding olists_in_def same by simp
    then have "olists h' ?s N" using 1(2) by (auto simp: olists_def)
    then show thesis using fails [OF 1(1) fr _ 1(3) _ 1(4)] f(3) by simp
  next
    case (2 n h')
    have na: "a \<notin> cells xs" using D(5) [OF xs(1)] f(1) by auto
    have "contents s1 xs = contents s xs" using na f(2) by (intro contents_cong) auto
    then have c: "contents s1 (xs @ [(n, a)]) = gs @ [g]" using f(2) xs(2) by simp
    have "olists_in s1 (L(l := Some (xs @ [(n, a)]))) (N(l := Some (contents s1 (xs @ [(n, a)]))))"
    proof (rule olists_in_update [OF L(2) xs(1), where new = "{a}"])
      show "store_wf s1" by (rule store_wf_malloc [OF D(1) m(1)])
      show "distinct (map snd (xs @ [(n, a)]))" using D(4) [OF xs(1)] na by (auto simp: cells_def)
      show "dom (mem s1) = dom (mem s) - cells xs \<union> cells (xs @ [(n, a)])"
        using f D(5) [OF xs(1)] by auto
      show "mem s1 b = mem s b" if "b \<in> dom (mem s) - cells xs" for b
        using f that by auto
    qed (use f in auto)
    then have "olists h' s1 (N(l := Some (gs @ [g])))"
      unfolding c using 2(3) by (auto simp: olists_def)
    then show thesis using appended [OF 2(1,2) _ 2(4) f(3)] by simp
  qed
qed

lemma olists_remove:
  assumes L: "dlists h L" "olists_in s L N" and l: "L l = Some (xs @ (n, a) # ys)"
  shows "\<exists>g h' s'. mem s a = Some g \<and> a \<noteq> NULL \<and> N l = Some (contents s xs @ g # contents s ys) \<and>
    ListItrRemove h n = Some (a, h') \<and> free s a = Some s' \<and>
    olists h' s' (N(l := Some (contents s xs @ contents s ys))) \<and> alloc_ok h' = alloc_ok h \<and> alloc_ok s' = alloc_ok s"
proof -
  note D = olists_inD [OF L(2)]
  obtain h' where h': "ListItrRemove h n = Some (a, h')" "dlists h' (L(l := Some (xs @ ys)))" "alloc_ok h' = alloc_ok h"
    using dl.remove_law [OF L(1) l] by blast
  obtain g where g: "mem s a = Some g" using D(5) [OF l] by auto
  have a0: "a \<noteq> NULL" by (rule store_wf_live [OF D(1) g])
  let ?s = "s\<lparr>mem := (mem s)(a := None)\<rparr>"
  have f: "free s a = Some ?s" using g a0 by (simp add: store_simps)
  have dist: "distinct (map snd (xs @ ys))" "a \<notin> cells (xs @ ys)"
    using D(4) [OF l] by (auto simp: cells_def)
  have c: "contents ?s (xs @ ys) = contents s xs @ contents s ys"
  proof -
    have "contents ?s (xs @ ys) = contents s (xs @ ys)" using dist(2) by (intro contents_cong) auto
    then show ?thesis by simp
  qed
  have "olists_in ?s (L(l := Some (xs @ ys))) (N(l := Some (contents ?s (xs @ ys))))"
  proof (rule olists_in_update [OF L(2) l, where new = "{}"])
    show "store_wf ?s" by (rule store_wf_free [OF D(1) f])
    show "dom (mem ?s) = dom (mem s) - cells (xs @ (n, a) # ys) \<union> cells (xs @ ys)"
      using D(5) [OF l] dist(2) by auto
  qed (use dist in auto)
  then have "olists h' ?s (N(l := Some (contents s xs @ contents s ys)))"
    unfolding c using h'(2) by (auto simp: olists_def)
  moreover have "N l = Some (contents s xs @ g # contents s ys)"
    using D(2) [of l] l g by simp
  ultimately show ?thesis using g a0 h' f by auto
qed

lemma olists_first:
  assumes R: "olists h s N" and l: "N l = Some gs"
  obtains (empty) "gs = []" "ListItrBegin h l = Some l" "ListItrEnd h l = Some l"
  | (first) n a g gs' h' s' where "gs = g # gs'" "ListItrBegin h l = Some n" "ListItrEnd h l = Some l" "n \<noteq> l"
      "ListItrRemove h n = Some (a, h')" "a \<noteq> NULL" "mem s a = Some g" "free s a = Some s'"
      "olists h' s' (N(l := Some gs'))" "alloc_ok h' = alloc_ok h" "alloc_ok s' = alloc_ok s"
proof -
  obtain L where L: "dlists h L" "olists_in s L N" using R by (auto simp: olists_def)
  obtain xs where xs: "L l = Some xs" "contents s xs = gs" by (rule olists_in_get [OF L(2) l])
  note b = dl.begin_law [OF L(1) xs(1)] dl.end_law [OF L(1) xs(1)]
  show thesis
  proof (cases xs)
    case Nil
    then show thesis using empty b xs(2) by simp
  next
    case (Cons x ys)
    obtain n a where x: "x = (n, a)" by fastforce
    have l': "L l = Some ([] @ (n, a) # ys)" using xs(1) Cons x by simp
    show thesis
      using olists_remove [OF L l'] first b dl.not_end [OF L(1) l'] xs Cons x by auto
  qed
qed

text \<open>Taking the first element is the removal at the first position.\<close>

lemma olists_pop:
  assumes R: "olists h s N" and l: "N l = Some gs"
  obtains (empty) h' where "gs = []" "ListPopHead h l = Some (NULL, h')" "olists h' s N" "alloc_ok h' = alloc_ok h"
  | (first) a g gs' h' s' where "gs = g # gs'" "ListPopHead h l = Some (a, h')" "a \<noteq> NULL" "mem s a = Some g" "free s a = Some s'"
      "olists h' s' (N(l := Some gs'))" "alloc_ok h' = alloc_ok h" "alloc_ok s' = alloc_ok s"
proof -
  obtain L where L: "dlists h L" "olists_in s L N" using R by (auto simp: olists_def)
  obtain xs where xs: "L l = Some xs" "contents s xs = gs" by (rule olists_in_get [OF L(2) l])
  obtain h' where h': "ListPopHead h l = Some (case xs of [] \<Rightarrow> NULL | x # _ \<Rightarrow> snd x, h')" "dlists h' (L(l := Some (tl xs)))"
      "alloc_ok h' = alloc_ok h"
    using dlists_pop_head [OF L(1) xs(1)] by blast
  show thesis
  proof (cases xs)
    case Nil
    then have "L(l := Some (tl xs)) = L" using xs(1) by auto
    then show thesis using empty [of h'] Nil xs(2) h' L(2) by (auto simp: olists_def)
  next
    case (Cons x ys)
    obtain n a where x: "x = (n, a)" by fastforce
    have l': "L l = Some ([] @ (n, a) # ys)" using xs(1) Cons x by simp
    obtain p where p: "mem h n = Some p" "n \<noteq> l" "n \<noteq> NULL" "\<not> is_sentinel p" by (rule dlists_node [OF L(1) l'])
    obtain q where q: "mem h l = Some q" "nxt q = n" "l \<noteq> NULL"
      using dlists_sentinel [OF L(1) l'] dlists_nodes(3) [OF L(1) xs(1)] by auto
    have "ListPopHead h l = ListItrRemove h n"
      using p q by (simp add: ListPopHead_def ListItrRemove_def deref_def)
    then show thesis
      using olists_remove [OF L l'] first [of _ "contents s ys" a] xs(2) Cons x by auto
  qed
qed

lemma olists_search:
  assumes R: "olists h s N" and l: "N l = Some gs" and t: "\<forall>a v. mem s a = Some v \<longrightarrow> test a = Some (P v)"
  obtains (absent) itr where "ListItrBegin h l = Some itr" "ListItrEnd h l = Some l" "\<forall>g \<in> set gs. \<not> P g"
      "search_itr (ListItrGet h) (ListItrNext h) test itr l = Some l"
  | (found) itr n a gs1 g gs2 h' s' where "ListItrBegin h l = Some itr" "ListItrEnd h l = Some l"
      "gs = gs1 @ g # gs2" "\<forall>g \<in> set gs1. \<not> P g" "P g" "search_itr (ListItrGet h) (ListItrNext h) test itr l = Some n"
      "n \<noteq> l" "ListItrGet h n = Some a" "a \<noteq> NULL" "mem s a = Some g" "ListItrRemove h n = Some (a, h')" "free s a = Some s'"
      "olists h' s' (N(l := Some (gs1 @ gs2)))" "alloc_ok h' = alloc_ok h" "alloc_ok s' = alloc_ok s"
proof -
  obtain L where L: "dlists h L" "olists_in s L N" using R by (auto simp: olists_def)
  obtain xs where xs: "L l = Some xs" "contents s xs = gs" by (rule olists_in_get [OF L(2) l])
  note b = dl.begin_law [OF L(1) xs(1)] dl.end_law [OF L(1) xs(1)]
  let ?Q = "\<lambda>a. P (the (mem s a))"
  have "\<forall>x \<in> set xs. test (snd x) = Some (?Q (snd x))"
    using t olists_inD(5) [OF L(2) xs(1)] by (fastforce simp: cells_def)
  note S = dl.search_from_begin [OF L(1) xs(1) this]
  show thesis
  proof (cases "dropWhile (\<lambda>x. \<not> ?Q (snd x)) xs")
    case Nil
    then have "\<forall>g \<in> set gs. \<not> P g" using xs(2) by (auto simp: contents_def)
    moreover have "search_itr (ListItrGet h) (ListItrNext h) test (itr_at l xs) l = Some l"
      using S unfolding Nil by simp
    ultimately show thesis using absent b by blast
  next
    case (Cons x zs)
    obtain n a where x: "x = (n, a)" by fastforce
    let ?ys = "takeWhile (\<lambda>x. \<not> ?Q (snd x)) xs"
    have sp: "xs = ?ys @ (n, a) # zs"
      using takeWhile_dropWhile_id [of "\<lambda>x. \<not> ?Q (snd x)" xs] Cons x by metis
    then have l': "L l = Some (?ys @ (n, a) # zs)" using xs(1) by simp
    have "?Q (snd x)" using hd_dropWhile [of "\<lambda>x. \<not> ?Q (snd x)" xs] Cons by (metis list.distinct(1) list.sel(1))
    moreover have "\<forall>g \<in> set (contents s ?ys). \<not> P g"
      by (auto simp: contents_def dest: set_takeWhileD)
    moreover have "search_itr (ListItrGet h) (ListItrNext h) test (itr_at l xs) l = Some n"
      using S unfolding Cons x by simp
    moreover note olists_remove [OF L l'] dl.get_law [OF L(1) l'] dl.not_end [OF L(1) l']
    ultimately show thesis
      using found [OF b, of "contents s ?ys" _ "contents s zs" n a] x l by auto
  qed
qed

lemma olists_destroy:
  assumes R: "olists h s N" and l: "N l = Some gs"
  obtains as h' s' where "ListDestroy h (Some l) True = Some (as, Some NULL, h')" "free_all s as = Some s'"
    "olists h' s' (N(l := None))" "alloc_ok h' = alloc_ok h" "alloc_ok s' = alloc_ok s"
proof -
  obtain L where L: "dlists h L" "olists_in s L N" using R by (auto simp: olists_def)
  obtain xs where xs: "L l = Some xs" "contents s xs = gs" by (rule olists_in_get [OF L(2) l])
  note D = olists_inD [OF L(2)]
  let ?s = "without s (cells xs)"
  obtain h' where h': "ListDestroy h (Some l) True = Some (map snd xs, Some NULL, h')"
    "dlists h' (L(l := None))" "alloc_ok h' = alloc_ok h"
    using dl.destroy_law [OF L(1) xs(1), of True] by auto
  have live: "\<forall>a \<in> set (map snd xs). a \<noteq> NULL \<and> mem s a \<noteq> None"
  proof
    fix a assume "a \<in> set (map snd xs)"
    then obtain v where "mem s a = Some v" using D(5) [OF xs(1)] by (auto simp: cells_def)
    then show "a \<noteq> NULL \<and> mem s a \<noteq> None" using store_wf_live [OF D(1)] by simp
  qed
  have f: "free_all s (map snd xs) = Some ?s"
    using free_all_live [OF live D(4) [OF xs(1)]] by (simp add: cells_def)
  have other: "cells zs \<inter> cells xs = {}" if "L k = Some zs" "k \<noteq> l" for k zs
    using D(6) [OF that(1) xs(1) that(2)] .
  have "N(l := None) = (\<lambda>k. map_option (contents ?s) ((L(l := None)) k))"
  proof
    fix k
    have "contents ?s zs = contents s zs" if "L k = Some zs" "k \<noteq> l" for zs
      using other [OF that] by (intro contents_cong) auto
    then show "(N(l := None)) k = map_option (contents ?s) ((L(l := None)) k)"
      using D(2) [of k] by (cases "L k") auto
  qed
  moreover have "dom (mem ?s) = (\<Union>k \<in> dom (L(l := None)). cells (the ((L(l := None)) k)))"
  proof -
    let ?U = "\<Union>k \<in> dom L - {l}. cells (the (L k))"
    have "dom (mem s) = (\<Union>k \<in> insert l (dom L - {l}). cells (the (L k)))"
      using L(2) xs(1) by (simp add: olists_in_def insert_absorb domI)
    then have "dom (mem s) = cells xs \<union> ?U" by (simp only: UN_insert xs(1) option.sel)
    moreover have "cells xs \<inter> ?U = {}" using other by fastforce
    ultimately have "dom (mem s) - cells xs = ?U" by (rule diff_of_disjoint)
    moreover have "dom (mem ?s) = dom (mem s) - cells xs" by (auto split: if_splits)
    moreover have "?U = (\<Union>k \<in> dom (L(l := None)). cells (the ((L(l := None)) k)))"
      by (intro SUP_cong) auto
    ultimately show ?thesis by (simp only:)
  qed
  ultimately have "olists_in ?s (L(l := None)) (N(l := None))"
    using D unfolding olists_in_def by (auto split: if_splits)
  then have "olists h' ?s (N(l := None))" using h'(2) by (auto simp: olists_def)
  then show thesis using that [OF h'(1) f _ h'(3)] by simp
qed

lemma olists_empty: "olists (empty_store okl) (empty_store oks) Map.empty"
  using dlists_empty [of okl] by (auto simp: olists_def olists_in_def intro!: exI [of _ Map.empty])
    (simp add: empty_store_def)

lemma olists_none: "olists h s Map.empty \<Longrightarrow> mem h = Map.empty \<and> mem s = Map.empty"
  by (auto simp: olists_def olists_in_def dlists_def fun_eq_iff)

lemma olists_destroy_empty:
  assumes R: "olists h s N" and l: "N l = Some []"
  shows "\<exists>h'. ListDestroy h (Some l) b = Some ([], Some NULL, h') \<and> olists h' s (N(l := None)) \<and> alloc_ok h' = alloc_ok h"
proof -
  obtain as h' s' where d: "ListDestroy h (Some l) True = Some (as, Some NULL, h')" "free_all s as = Some s'"
    "olists h' s' (N(l := None))" "alloc_ok h' = alloc_ok h"
    by (rule olists_destroy [OF R l])
  obtain L where L: "dlists h L" "olists_in s L N" using R by (auto simp: olists_def)
  obtain xs where xs: "L l = Some xs" "contents s xs = []" by (rule olists_in_get [OF L(2) l])
  have "xs = []" using xs(2) by (simp add: contents_def)
  then have "as = []" using dl.destroy_law [OF L(1) xs(1), of True] d(1) by simp
  moreover have "ListDestroy h (Some l) b = Some ([], Some NULL, h')"
    using d(1) \<open>as = []\<close> by (auto simp: ListDestroy_def Let_def split: if_splits bind_splits)
  ultimately show ?thesis using d by simp
qed

end
