(* ===== verification/User_Mng.thy ===== *)
theory User_Mng
  imports Protocol Hash_Utils Hash_Map Owned_Lists
begin

text \<open>
  The user manager of \<^verbatim>\<open>server/user_mng.c\<close> with the user record of \<^verbatim>\<open>server/user.h\<close>.

  The manager owns a hash map from user names to users, an array that gives the user of each socket, the users, and
  for each user a list of owned copies of the names of the groups the user has joined. Users, list nodes and names live
  in stores of the record. The fixed-size character arrays of a user are represented by the strings they hold.

  \<open>um_rel m U\<close> relates a manager to the accounts \<open>U\<close>: for each name the password, the socket (-1 when offline) and the
  groups joined, in order. It includes the invariant of the two indices: a socket entry points to the one user that is
  online on that socket.
\<close>

section \<open>Data\<close>

datatype UserState = USER_OFFLINE | USER_ONLINE

record User =
  username :: cstring
  password :: cstring
  state :: UserState
  socketFd :: int
  joinedGroups :: addr

definition FD_SETSIZE :: nat where "FD_SETSIZE = 1024"

record UserMng =
  usersByName :: "cstring HashMap option"
  activeSockets :: "addr list"
  users :: "User store"
  lists :: heap
  names :: "cstring store"

text \<open>Which allocations succeed, for each kind of object the manager allocates.\<close>

record um_alloc =
  ua_structs :: "nat \<Rightarrow> bool"
  ua_nodes :: "nat \<Rightarrow> bool"
  ua_kvps :: "nat \<Rightarrow> bool"
  ua_users :: "nat \<Rightarrow> bool"
  ua_lists :: "nat \<Rightarrow> bool"
  ua_names :: "nat \<Rightarrow> bool"

section \<open>Operations\<close>

definition UserMng_Create :: "um_alloc \<Rightarrow> UserMng option option" where
  "UserMng_Create ua =
     (if \<not> ua_structs ua 0 then Some None
      else do {
        hm \<leftarrow> HashMap_Create (\<lambda>i. ua_structs ua (i + 1)) (ua_nodes ua) (ua_kvps ua) 100
               (Some HashStringDjb2) (Some StringKeysEqual);
        if hm = None then Some None
        else Some (Some \<lparr>usersByName = hm, activeSockets = replicate FD_SETSIZE NULL,
          users = empty_store (ua_users ua), lists = empty_store (ua_lists ua), names = empty_store (ua_names ua)\<rparr>)
      })"

text \<open>The destructor of the values acts on the stores of users, list nodes and names.\<close>

type_synonym user_mem = "User store \<times> heap \<times> cstring store"

definition DestroyUserCallback :: "addr \<Rightarrow> user_mem \<Rightarrow> user_mem option" where
  "DestroyUserCallback a st =
     (let (us, h, s) = st in
      if a = NULL then Some (us, h, s)
      else do {
        u \<leftarrow> deref us a;
        (us, h, s) \<leftarrow> (if joinedGroups u \<noteq> NULL
          then do {
            (ns, l, h) \<leftarrow> ListDestroy h (Some (joinedGroups u)) True;
            s \<leftarrow> free_all s ns;
            us \<leftarrow> put us a (u\<lparr>joinedGroups := the l\<rparr>);
            Some (us, h, s)
          }
          else Some (us, h, s));
        us \<leftarrow> free us a;
        Some (us, h, s)
      })"

definition UserMng_Destroy ::
  "UserMng option option \<Rightarrow> (UserMng option option \<times> ((heap \<times> cstring KeyValuePair store) option \<times> user_mem) option) option"
where
  "UserMng_Destroy pm =
     (case pm of
        Some (Some m) \<Rightarrow> do {
          (_, rest, st) \<leftarrow> HashMap_Destroy (Some (usersByName m)) None (Some DestroyUserCallback) (users m, lists m, names m);
          Some (Some None, Some (rest, st))
        }
      | _ \<Rightarrow> Some (pm, None))"

definition UserMng_Register ::
  "UserMng option \<Rightarrow> cstring option \<Rightarrow> cstring option \<Rightarrow> (ChatStatus \<times> UserMng option) option"
where
  "UserMng_Register pm u p =
     (case (pm, u, p) of
        (Some m, Some name, Some pass) \<Rightarrow> do {
          (r, _) \<leftarrow> HashMap_Find (usersByName m) u (Some NULL);
          if r = MAP_SUCCESS then Some (ST_ERR_USER_EXISTS, pm)
          else
            let (newUser, us) = malloc (users m)
                  \<lparr>username = strncpy CHAT_MAX_USERNAME_LEN name, password = strncpy CHAT_MAX_PASSWORD_LEN pass,
                   state = USER_OFFLINE, socketFd = - 1, joinedGroups = NULL\<rparr>
            in if newUser = NULL then Some (ST_ERR_SERVER_FULL, Some (m\<lparr>users := us\<rparr>))
            else do {
              (l, h) \<leftarrow> ListCreate (lists m);
              x \<leftarrow> deref us newUser;
              us \<leftarrow> put us newUser (x\<lparr>joinedGroups := l\<rparr>);
              if l = NULL
              then do {
                us \<leftarrow> free us newUser;
                Some (ST_ERR_SERVER_FULL, Some (m\<lparr>users := us, lists := h\<rparr>))
              }
              else do {
                (r, hm) \<leftarrow> HashMap_Insert (usersByName m) (Some (username x)) newUser;
                let m = m\<lparr>usersByName := hm\<rparr>;
                if r \<noteq> MAP_SUCCESS
                then do {
                  (_, _, h) \<leftarrow> ListDestroy h (Some l) False;
                  us \<leftarrow> free us newUser;
                  Some (ST_ERR_SERVER_FULL, Some (m\<lparr>users := us, lists := h\<rparr>))
                }
                else Some (ST_OK, Some (m\<lparr>users := us, lists := h\<rparr>))
              }}}
      | _ \<Rightarrow> Some (ST_ERR_PROTOCOL, pm))"

definition UserMng_Login ::
  "UserMng option \<Rightarrow> cstring option \<Rightarrow> cstring option \<Rightarrow> int \<Rightarrow> (ChatStatus \<times> UserMng option) option"
where
  "UserMng_Login pm u p fd =
     (if pm = None \<or> u = None \<or> p = None \<or> 0 > fd \<or> fd \<ge> int FD_SETSIZE then Some (ST_ERR_PROTOCOL, pm)
      else let m = the pm in do {
        s \<leftarrow> rd (activeSockets m) (nat fd);
        if s \<noteq> NULL then Some (ST_ERR_ALREADY_LOGGED_IN, pm)
        else do {
          (r, a) \<leftarrow> HashMap_Find (usersByName m) u (Some NULL);
          if r \<noteq> MAP_SUCCESS then Some (ST_ERR_USER_NOT_FOUND, pm)
          else do {
            x \<leftarrow> deref (users m) (the a);
            if password x \<noteq> the p then Some (ST_ERR_BAD_PASSWORD, pm)
            else if state x = USER_ONLINE then Some (ST_ERR_ALREADY_LOGGED_IN, pm)
            else do {
              us \<leftarrow> put (users m) (the a) (x\<lparr>state := USER_ONLINE, socketFd := fd\<rparr>);
              act \<leftarrow> wr (activeSockets m) (nat fd) (the a);
              Some (ST_OK, Some (m\<lparr>users := us, activeSockets := act\<rparr>))
            }}}})"

text \<open>
  The loop of \<open>UserMng_Logout\<close>: it removes the first name, calls the callback on a state of the caller, frees the name
  and starts again at the head of the list.
\<close>

partial_function (option) drain_groups ::
  "heap \<Rightarrow> cstring store \<Rightarrow> addr \<Rightarrow> 's leave_cb \<Rightarrow> 's \<Rightarrow> (heap \<times> cstring store \<times> 's) option"
where
  "drain_groups h s l cb c = do {
     itr \<leftarrow> ListItrBegin h l;
     e \<leftarrow> ListItrEnd h l;
     if itr = e then Some (h, s, c)
     else do {
       (currentName, h) \<leftarrow> ListItrRemove h itr;
       (s, c) \<leftarrow> (if currentName \<noteq> NULL
         then do {
           name \<leftarrow> deref s currentName;
           c \<leftarrow> (case cb of None \<Rightarrow> Some c | Some f \<Rightarrow> f name c);
           s \<leftarrow> free s currentName;
           Some (s, c)
         }
         else Some (s, c));
       drain_groups h s l cb c
     }}"

definition UserMng_Logout ::
  "UserMng option \<Rightarrow> int \<Rightarrow> 's leave_cb \<Rightarrow> 's \<Rightarrow> (ChatStatus \<times> UserMng option \<times> 's) option"
where
  "UserMng_Logout pm fd cb c =
     (if pm = None \<or> 0 > fd \<or> fd \<ge> int FD_SETSIZE then Some (ST_ERR_PROTOCOL, pm, c)
      else let m = the pm in do {
        a \<leftarrow> rd (activeSockets m) (nat fd);
        if a = NULL then Some (ST_ERR_NOT_LOGGED_IN, pm, c)
        else do {
          u \<leftarrow> deref (users m) a;
          (h, s, c) \<leftarrow> drain_groups (lists m) (names m) (joinedGroups u) cb c;
          us \<leftarrow> put (users m) a (u\<lparr>state := USER_OFFLINE, socketFd := - 1\<rparr>);
          act \<leftarrow> wr (activeSockets m) (nat fd) NULL;
          Some (ST_OK, Some (m\<lparr>users := us, lists := h, names := s, activeSockets := act\<rparr>), c)
        }})"

definition UserMng_Disconnect ::
  "UserMng option \<Rightarrow> int \<Rightarrow> 's leave_cb \<Rightarrow> 's \<Rightarrow> (UserMng option \<times> 's) option"
where
  "UserMng_Disconnect pm fd cb c = do { (_, pm, c) \<leftarrow> UserMng_Logout pm fd cb c; Some (pm, c) }"

text \<open>
  The comparisons in the loops over the joined groups. The loop of \<open>UserMng_JoinGroup\<close> passes the element to \<open>strcmp\<close>
  unchecked, so a NULL element would be undefined; the one of \<open>UserMng_LeaveGroup\<close> skips it.
\<close>

definition name_is :: "cstring store \<Rightarrow> cstring \<Rightarrow> addr \<Rightarrow> bool option" where
  "name_is s g a = do { n \<leftarrow> deref s a; Some (n = g) }"

definition name_is_checked :: "cstring store \<Rightarrow> cstring \<Rightarrow> addr \<Rightarrow> bool option" where
  "name_is_checked s g a = (if a = NULL then Some False else name_is s g a)"

definition UserMng_JoinGroup :: "UserMng option \<Rightarrow> int \<Rightarrow> cstring option \<Rightarrow> (ChatStatus \<times> UserMng option) option" where
  "UserMng_JoinGroup pm fd g =
     (if pm = None \<or> 0 > fd \<or> fd \<ge> int FD_SETSIZE \<or> g = None then Some (ST_ERR_PROTOCOL, pm)
      else let m = the pm in do {
        a \<leftarrow> rd (activeSockets m) (nat fd);
        if a = NULL then Some (ST_ERR_NOT_LOGGED_IN, pm)
        else do {
          u \<leftarrow> deref (users m) a;
          let h = lists m;
          itr \<leftarrow> ListItrBegin h (joinedGroups u);
          e \<leftarrow> ListItrEnd h (joinedGroups u);
          itr \<leftarrow> search_itr (ListItrGet h) (ListItrNext h) (name_is (names m) (the g)) itr e;
          if itr \<noteq> e then Some (ST_ERR_ALREADY_IN_GROUP, pm)
          else
            let (copy, s) = malloc (names m) (the g)
            in if copy = NULL then Some (ST_ERR_SERVER_FULL, Some (m\<lparr>names := s\<rparr>))
            else do {
              (n, h) \<leftarrow> ListPushTail h (joinedGroups u) copy;
              if n = NULL
              then do {
                s \<leftarrow> free s copy;
                Some (ST_ERR_SERVER_FULL, Some (m\<lparr>lists := h, names := s\<rparr>))
              }
              else Some (ST_OK, Some (m\<lparr>lists := h, names := s\<rparr>))
            }}})"

definition UserMng_LeaveGroup :: "UserMng option \<Rightarrow> int \<Rightarrow> cstring option \<Rightarrow> (ChatStatus \<times> UserMng option) option" where
  "UserMng_LeaveGroup pm fd g =
     (if pm = None \<or> 0 > fd \<or> fd \<ge> int FD_SETSIZE \<or> g = None then Some (ST_ERR_PROTOCOL, pm)
      else let m = the pm in do {
        a \<leftarrow> rd (activeSockets m) (nat fd);
        if a = NULL then Some (ST_ERR_NOT_LOGGED_IN, pm)
        else do {
          u \<leftarrow> deref (users m) a;
          let h = lists m;
          itr \<leftarrow> ListItrBegin h (joinedGroups u);
          e \<leftarrow> ListItrEnd h (joinedGroups u);
          itr \<leftarrow> search_itr (ListItrGet h) (ListItrNext h) (name_is_checked (names m) (the g)) itr e;
          if itr = e then Some (ST_ERR_NOT_IN_GROUP, pm)
          else do {
            currentName \<leftarrow> ListItrGet h itr;
            (_, h) \<leftarrow> ListItrRemove h itr;
            s \<leftarrow> free (names m) currentName;
            Some (ST_OK, Some (m\<lparr>lists := h, names := s\<rparr>))
          }}})"

definition UserMng_IsLoggedIn :: "UserMng option \<Rightarrow> int \<Rightarrow> int option" where
  "UserMng_IsLoggedIn pm fd =
     (if pm = None \<or> 0 > fd \<or> fd \<ge> int FD_SETSIZE then Some 0
      else do { a \<leftarrow> rd (activeSockets (the pm)) (nat fd); Some (if a \<noteq> NULL then 1 else 0) })"

section \<open>Accounts\<close>

record Account =
  a_pwd :: cstring
  a_fd :: int
  a_groups :: "cstring list"

type_synonym accounts = "cstring \<rightharpoonup> Account"

definition account :: "(addr \<rightharpoonup> cstring list) \<Rightarrow> User \<Rightarrow> Account" where
  "account N u = \<lparr>a_pwd = password u, a_fd = socketFd u, a_groups = the (N (joinedGroups u))\<rparr>"

definition user_ok :: "User \<Rightarrow> bool" where
  "user_ok u \<longleftrightarrow> (state u = USER_ONLINE \<longleftrightarrow> socketFd u \<noteq> - 1) \<and> - 1 \<le> socketFd u \<and> socketFd u < int FD_SETSIZE"

text \<open>A socket entry points to the user that is online on this socket, and is NULL when there is none.\<close>

definition sockets_ok :: "User store \<Rightarrow> addr list \<Rightarrow> bool" where
  "sockets_ok us act \<longleftrightarrow> length act = FD_SETSIZE \<and>
     (\<forall>fd < FD_SETSIZE. \<forall>a. a \<noteq> NULL \<and> act ! fd = a \<longleftrightarrow> (\<exists>u. mem us a = Some u \<and> socketFd u = int fd))"

definition um_users ::
  "User store \<Rightarrow> addr list \<Rightarrow> (cstring \<rightharpoonup> addr) \<Rightarrow> (addr \<rightharpoonup> cstring list) \<Rightarrow> accounts \<Rightarrow> bool"
where
  "um_users us act M N U \<longleftrightarrow> store_wf us \<and> sockets_ok us act \<and>
     (\<forall>k a. M k = Some a \<longleftrightarrow> (\<exists>u. mem us a = Some u \<and> username u = k)) \<and>
     (\<forall>a u. mem us a = Some u \<longrightarrow> user_ok u) \<and>
     (\<forall>a b u v. mem us a = Some u \<longrightarrow> mem us b = Some v \<longrightarrow> joinedGroups u = joinedGroups v \<longrightarrow> a = b) \<and>
     dom N = {joinedGroups u |a u. mem us a = Some u} \<and>
     U = (\<lambda>k. Option.bind (M k) (\<lambda>a. map_option (account N) (mem us a)))"

definition um_rel :: "UserMng \<Rightarrow> accounts \<Rightarrow> bool" where
  "um_rel m U \<longleftrightarrow> (\<exists>hm M N. usersByName m = Some hm \<and> hm_rel hm M \<and> olists (lists m) (names m) N \<and>
     um_users (users m) (activeSockets m) M N U)"

definition um_ok :: "UserMng \<Rightarrow> bool" where
  "um_ok m \<longleftrightarrow> hm_ok (the (usersByName m)) \<and> (\<forall>n. alloc_ok (users m) n) \<and> (\<forall>n. alloc_ok (lists m) n) \<and>
     (\<forall>n. alloc_ok (names m) n)"

lemma sockets_user:
  assumes "sockets_ok us act" "fd < FD_SETSIZE" "mem us a = Some u" "socketFd u = int fd"
  shows "act ! fd = a" "a \<noteq> NULL"
  using assms unfolding sockets_ok_def by blast+

lemma sockets_entry:
  "sockets_ok us act \<Longrightarrow> fd < FD_SETSIZE \<Longrightarrow> act ! fd \<noteq> NULL \<Longrightarrow> \<exists>u. mem us (act ! fd) = Some u \<and> socketFd u = int fd"
  unfolding sockets_ok_def by blast

lemma um_usersD:
  assumes "um_users us act M N U"
  shows "store_wf us" "sockets_ok us act" "M k = Some a \<longleftrightarrow> (\<exists>u. mem us a = Some u \<and> username u = k)"
    "mem us a = Some u \<Longrightarrow> user_ok u"
    "mem us a = Some u \<Longrightarrow> mem us b = Some v \<Longrightarrow> joinedGroups u = joinedGroups v \<Longrightarrow> a = b"
    "mem us a = Some u \<Longrightarrow> \<exists>gs. N (joinedGroups u) = Some gs"
    "mem us a = Some u \<Longrightarrow> mem us b = Some v \<Longrightarrow> username u = username v \<Longrightarrow> a = b"
proof -
  show u: "M k = Some a \<longleftrightarrow> (\<exists>u. mem us a = Some u \<and> username u = k)" for k a
    using assms by (simp add: um_users_def)
  show "\<exists>gs. N (joinedGroups u) = Some gs" if "mem us a = Some u"
  proof -
    have "joinedGroups u \<in> dom N" using assms that by (auto simp: um_users_def)
    then show ?thesis by auto
  qed
  show "a = b" if "mem us a = Some u" "mem us b = Some v" "username u = username v" for a b
    using that u by (metis option.inject)
qed (use assms in \<open>auto simp: um_users_def\<close>)

lemma account_of:
  assumes "um_users us act M N U"
  shows "mem us a = Some u \<Longrightarrow> U (username u) = Some (account N u)"
    and "U k = Some x \<Longrightarrow> \<exists>a u. M k = Some a \<and> mem us a = Some u \<and> username u = k \<and> x = account N u"
    and "U k = None \<longleftrightarrow> M k = None"
proof -
  have U: "U = (\<lambda>k. Option.bind (M k) (\<lambda>a. map_option (account N) (mem us a)))"
    using assms by (simp add: um_users_def)
  note D = um_usersD [OF assms]
  show "U (username u) = Some (account N u)" if "mem us a = Some u"
    using D(3) [of "username u" a] that by (auto simp: U)
  show "\<exists>a u. M k = Some a \<and> mem us a = Some u \<and> username u = k \<and> x = account N u" if "U k = Some x"
    using D(3) [of k] that unfolding U by (fastforce simp: bind_eq_Some_conv)
  show "U k = None \<longleftrightarrow> M k = None"
  proof (cases "M k")
    case (Some a)
    then show ?thesis using D(3) [of k a] by (auto simp: U)
  qed (simp add: U)
qed

lemma socket_free:
  assumes "um_users us act M N U" "fd < FD_SETSIZE" "act ! fd = NULL" "U k = Some x"
  shows "a_fd x \<noteq> int fd"
proof -
  obtain a u where u: "mem us a = Some u" "x = account N u" using account_of(2) [OF assms(1,4)] by auto
  then show ?thesis
    using sockets_user [OF um_usersD(2) [OF assms(1)] assms(2) u(1)] assms(3) by (auto simp: account_def)
qed

lemma socket_user:
  assumes "um_users us act M N U" "fd < FD_SETSIZE" "act ! fd \<noteq> NULL"
  obtains u gs where "mem us (act ! fd) = Some u" "socketFd u = int fd" "N (joinedGroups u) = Some gs"
    "U (username u) = Some \<lparr>a_pwd = password u, a_fd = int fd, a_groups = gs\<rparr>"
    "\<forall>k x. U k = Some x \<longrightarrow> a_fd x = int fd \<longrightarrow> k = username u"
proof -
  note S = um_usersD(2) [OF assms(1)]
  obtain u where u: "mem us (act ! fd) = Some u" "socketFd u = int fd"
    using sockets_entry [OF S assms(2,3)] by blast
  obtain gs where gs: "N (joinedGroups u) = Some gs" using um_usersD(6) [OF assms(1) u(1)] by blast
  have "k = username u" if k: "U k = Some x" "a_fd x = int fd" for k x
  proof -
    obtain b v where v: "mem us b = Some v" "username v = k" "x = account N v"
      using account_of(2) [OF assms(1) k(1)] by auto
    then have "act ! fd = b" using sockets_user(1) [OF S assms(2) v(1)] k(2) by (simp add: account_def)
    then show ?thesis using u v by simp
  qed
  moreover have "U (username u) = Some \<lparr>a_pwd = password u, a_fd = int fd, a_groups = gs\<rparr>"
    using account_of(1) [OF assms(1) u(1)] u(2) gs by (simp add: account_def)
  ultimately show thesis by (intro that [OF u gs]) blast+
qed

lemma um_users_update:
  assumes R: "um_users us act M N U" and a: "mem us a = Some u" and us': "mem us' = (mem us)(a := Some u')" "store_wf us'"
    and u': "username u' = username u" "joinedGroups u' = joinedGroups u" "user_ok u'" and act': "sockets_ok us' act'"
  shows "um_users us' act' M (N(joinedGroups u := Some gs))
    (U(username u := Some \<lparr>a_pwd = password u', a_fd = socketFd u', a_groups = gs\<rparr>))"
proof -
  let ?N = "N(joinedGroups u := Some gs)"
  note D = um_usersD [OF R]
  have m': "mem us' b = Some v \<longleftrightarrow> (if b = a then v = u' else mem us b = Some v)" for b v
    using us'(1) by auto
  have c1: "M k = Some b \<longleftrightarrow> (\<exists>v. mem us' b = Some v \<and> username v = k)" for k b
    unfolding D(3) [of k b] m' using a u'(1) by (cases "b = a") auto
  have c2: "user_ok v" if "mem us' b = Some v" for b v
    using that m' D(4) u'(3) by (auto split: if_splits)
  have c3: "b = c" if "mem us' b = Some v" "mem us' c = Some w" "joinedGroups v = joinedGroups w" for b c v w
    using that m' D(5) a u'(2) by (metis (full_types))
  have "dom N = joinedGroups ` ran (mem us)" using R by (simp add: um_users_def objects_image)
  moreover have "dom ?N = dom N" using D(6) [OF a] by auto
  ultimately have c4: "dom ?N = {joinedGroups v |b v. mem us' b = Some v}"
    unfolding objects_image us'(1) image_ran_update [of "mem us" a u joinedGroups, OF a u'(2)] by simp
  have "(U(username u := Some \<lparr>a_pwd = password u', a_fd = socketFd u', a_groups = gs\<rparr>)) k =
      Option.bind (M k) (\<lambda>b. map_option (account ?N) (mem us' b))" for k
  proof (cases "M k")
    case None
    then have "k \<noteq> username u" using D(3) [of k a] a by auto
    then show ?thesis using None account_of(3) [OF R, of k] by simp
  next
    case (Some b)
    obtain v where v: "mem us b = Some v" "username v = k" using Some D(3) [of k b] by auto
    show ?thesis
    proof (cases "b = a")
      case True
      then show ?thesis using Some v a us'(1) u'(2) by (simp add: account_def)
    next
      case False
      then have "k \<noteq> username u" "joinedGroups v \<noteq> joinedGroups u" using D(7) [OF v(1) a] D(5) [OF v(1) a] v by auto
      then show ?thesis
        using False Some v us'(1) account_of(1) [OF R v(1)] by (auto simp: account_def)
    qed
  qed
  then show ?thesis
    unfolding um_users_def using us'(2) act' c1 c2 c3 c4 by (intro conjI) (blast | (rule ext, simp))+
qed

section \<open>The operations on accounts\<close>

definition fd_ok :: "int \<Rightarrow> bool" where
  "fd_ok fd \<longleftrightarrow> 0 \<le> fd \<and> fd < int FD_SETSIZE"

definition free_fd :: "accounts \<Rightarrow> int \<Rightarrow> bool" where
  "free_fd U fd \<longleftrightarrow> (\<forall>k x. U k = Some x \<longrightarrow> a_fd x \<noteq> fd)"

text \<open>What an operation on a socket sees: an out-of-range socket, a free one, or the user that is online on it.\<close>

lemma um_socket:
  assumes R: "um_rel m U" and fd: "fd_ok fd"
  obtains (free) "rd (activeSockets m) (nat fd) = Some NULL" "free_fd U fd"
  | (user) hm M N a u gs where "rd (activeSockets m) (nat fd) = Some a" "a \<noteq> NULL" "activeSockets m ! nat fd = a"
      "usersByName m = Some hm" "hm_rel hm M" "olists (lists m) (names m) N"
      "um_users (users m) (activeSockets m) M N U" "mem (users m) a = Some u" "socketFd u = fd"
      "N (joinedGroups u) = Some gs" "U (username u) = Some \<lparr>a_pwd = password u, a_fd = fd, a_groups = gs\<rparr>"
      "\<forall>k x. U k = Some x \<longrightarrow> a_fd x = fd \<longrightarrow> k = username u" "\<not> free_fd U fd"
proof -
  obtain hm M N where H: "usersByName m = Some hm" "hm_rel hm M" "olists (lists m) (names m) N"
      "um_users (users m) (activeSockets m) M N U"
    using R by (auto simp: um_rel_def)
  have n: "nat fd < FD_SETSIZE" "int (nat fd) = fd" using fd by (auto simp: fd_ok_def)
  have rd: "rd (activeSockets m) (nat fd) = Some (activeSockets m ! nat fd)"
    using um_usersD(2) [OF H(4)] n by (simp add: rd_def sockets_ok_def)
  show thesis
  proof (cases "activeSockets m ! nat fd = NULL")
    case True
    have "free_fd U fd"
      using socket_free [OF H(4) n(1) True] n(2) by (auto simp: free_fd_def)
    then show thesis using free rd True by simp
  next
    case False
    obtain u gs where "mem (users m) (activeSockets m ! nat fd) = Some u" "socketFd u = fd" "N (joinedGroups u) = Some gs"
      "U (username u) = Some \<lparr>a_pwd = password u, a_fd = fd, a_groups = gs\<rparr>"
      "\<forall>k x. U k = Some x \<longrightarrow> a_fd x = fd \<longrightarrow> k = username u"
      by (rule socket_user [OF H(4) n(1) False, unfolded n(2)])
    moreover from this(4) have "\<not> free_fd U fd" unfolding free_fd_def by (metis Account.select_convs(2))
    ultimately show thesis by (rule user [OF rd False refl H])
  qed
qed

lemma um_bad_fd:
  assumes "\<not> fd_ok fd"
  shows "UserMng_Login pm u p fd = Some (ST_ERR_PROTOCOL, pm)" "UserMng_Logout pm fd cb c = Some (ST_ERR_PROTOCOL, pm, c)"
    "UserMng_JoinGroup pm fd g = Some (ST_ERR_PROTOCOL, pm)" "UserMng_LeaveGroup pm fd g = Some (ST_ERR_PROTOCOL, pm)"
    "UserMng_IsLoggedIn pm fd = Some 0"
  using assms by (auto simp: fd_ok_def UserMng_Login_def UserMng_Logout_def UserMng_JoinGroup_def UserMng_LeaveGroup_def
      UserMng_IsLoggedIn_def)

lemma um_is_logged_in:
  assumes "um_rel m U"
  shows "UserMng_IsLoggedIn (Some m) fd = Some (if fd_ok fd \<and> \<not> free_fd U fd then 1 else 0)"
proof (cases "fd_ok fd")
  case True
  show ?thesis
    using True by (cases rule: um_socket [OF assms True]) (auto simp: UserMng_IsLoggedIn_def fd_ok_def)
qed (simp add: um_bad_fd)

lemma sockets_login:
  assumes S: "sockets_ok us act" and a: "a \<noteq> NULL" "mem us a = Some u" "socketFd u = - 1"
    and n: "nat fd < FD_SETSIZE" "int (nat fd) = fd" "act ! nat fd = NULL"
  shows "sockets_ok (us\<lparr>mem := (mem us)(a \<mapsto> u\<lparr>state := USER_ONLINE, socketFd := fd\<rparr>)\<rparr>) (act[nat fd := a])"
  unfolding sockets_ok_def
proof (intro conjI allI impI)
  show "length (act[nat fd := a]) = FD_SETSIZE" using S by (simp add: sockets_ok_def)
  fix f b assume f: "f < FD_SETSIZE"
  have old: "b \<noteq> NULL \<and> act ! f = b \<longleftrightarrow> (\<exists>u. mem us b = Some u \<and> socketFd u = int f)"
    using S f by (simp add: sockets_ok_def)
  show "(b \<noteq> NULL \<and> act[nat fd := a] ! f = b) = (\<exists>v. mem (us\<lparr>mem := (mem us)(a \<mapsto> u\<lparr>state := USER_ONLINE, socketFd := fd\<rparr>)\<rparr>) b = Some v \<and> socketFd v = int f)"
  proof (cases "f = nat fd")
    case True
    then show ?thesis using old a(1) n S by (auto simp: sockets_ok_def)
  next
    case False
    then have "int f \<noteq> fd" using n(2) by auto
    then show ?thesis using old False a(2,3) by (cases "b = a") auto
  qed
qed

lemma um_login:
  assumes R: "um_rel m U" and fd: "fd_ok fd"
  shows "\<exists>r m'. UserMng_Login (Some m) (Some k) (Some p) fd = Some (r, Some m') \<and> um_ok m' = um_ok m \<and>
    (if \<not> free_fd U fd then r = ST_ERR_ALREADY_LOGGED_IN \<and> m' = m
     else case U k of
       None \<Rightarrow> r = ST_ERR_USER_NOT_FOUND \<and> m' = m
     | Some x \<Rightarrow> if a_pwd x \<noteq> p then r = ST_ERR_BAD_PASSWORD \<and> m' = m
         else if a_fd x \<noteq> - 1 then r = ST_ERR_ALREADY_LOGGED_IN \<and> m' = m
         else r = ST_OK \<and> um_rel m' (U(k := Some (x\<lparr>a_fd := fd\<rparr>))))"
proof (cases rule: um_socket [OF R fd])
  case (2 hm M N a u gs)
  then show ?thesis using fd by (auto simp: UserMng_Login_def fd_ok_def)
next
  case 1
  obtain hm M N where H: "usersByName m = Some hm" "hm_rel hm M" "olists (lists m) (names m) N"
      "um_users (users m) (activeSockets m) M N U"
    using R by (auto simp: um_rel_def)
  note D = um_usersD [OF H(4)]
  have n: "nat fd < FD_SETSIZE" "int (nat fd) = fd" "\<not> fd < 0" "\<not> int FD_SETSIZE \<le> fd" using fd by (auto simp: fd_ok_def)
  show ?thesis
  proof (cases "U k")
    case None
    then have "M k = None" using account_of(3) [OF H(4)] by simp
    then show ?thesis
      using None 1 H(1) hm.find_absent [OF H(2)] n by (simp add: UserMng_Login_def)
  next
    case (Some x)
    obtain a u where a: "M k = Some a" "mem (users m) a = Some u" "username u = k" "x = account N u"
      using account_of(2) [OF H(4) Some] by auto
    have st: "(state u = USER_ONLINE) = (a_fd x \<noteq> - 1)"
      using D(4) [OF a(2)] a(4) by (simp add: user_ok_def account_def)
    let ?u = "u\<lparr>state := USER_ONLINE, socketFd := fd\<rparr>"
    let ?us = "(users m)\<lparr>mem := (mem (users m))(a := Some ?u)\<rparr>"
    let ?act = "(activeSockets m)[nat fd := a]"
    have pw: "password u = a_pwd x" using a(4) by (simp add: account_def)
    have w: "wr (activeSockets m) (nat fd) a = Some ?act"
      using D(2) n(1) by (simp add: wr_def sockets_ok_def)
    have eval: "UserMng_Login (Some m) (Some k) (Some p) fd =
       (if a_pwd x \<noteq> p then Some (ST_ERR_BAD_PASSWORD, Some m)
        else if a_fd x \<noteq> - 1 then Some (ST_ERR_ALREADY_LOGGED_IN, Some m)
        else Some (ST_OK, Some (m\<lparr>users := ?us, activeSockets := ?act\<rparr>)))"
      using 1 H(1) hm.find_found [OF H(2) a(1), of NULL] n(3,4) a(2) st pw w
      by (simp add: UserMng_Login_def deref_def put_def)
    have ok: "um_rel (m\<lparr>users := ?us, activeSockets := ?act\<rparr>) (U(k := Some (x\<lparr>a_fd := fd\<rparr>)))" if off: "a_fd x = - 1"
    proof -
      obtain gs where gs: "N (joinedGroups u) = Some gs" using D(6) [OF a(2)] by blast
      have uoff: "socketFd u = - 1" using off a(4) by (simp add: account_def)
      have act0: "activeSockets m ! nat fd = NULL"
        using 1(1) by (auto simp: rd_def split: if_splits)
      have a0: "a \<noteq> NULL" by (rule store_wf_live [OF D(1) a(2)])
      have "sockets_ok ?us ?act" using sockets_login [OF D(2) a0 a(2) uoff n(1,2) act0] by simp
      moreover have "store_wf ?us" using D(1) a(2) by (auto simp: store_wf_def)
      moreover have "user_ok ?u" using n by (simp add: user_ok_def)
      ultimately have "um_users ?us ?act M (N(joinedGroups u := Some gs))
          (U(username u := Some \<lparr>a_pwd = password ?u, a_fd = socketFd ?u, a_groups = gs\<rparr>))"
        by (intro um_users_update [OF H(4) a(2)]) simp_all
      moreover have "N(joinedGroups u := Some gs) = N" using gs by auto
      ultimately show ?thesis
        unfolding um_rel_def using H a(3,4) gs by (auto simp: account_def)
    qed
    then show ?thesis using eval 1(2) Some by (auto simp: um_ok_def)
  qed
qed

lemma um_rel_groups:
  assumes H: "usersByName m = Some hm" "hm_rel hm M" "um_users (users m) (activeSockets m) M N U"
    and u: "mem (users m) a = Some u" and o: "olists h s (N(joinedGroups u := Some gs))"
  shows "um_rel (m\<lparr>lists := h, names := s\<rparr>)
    (U(username u := Some \<lparr>a_pwd = password u, a_fd = socketFd u, a_groups = gs\<rparr>))"
proof -
  note D = um_usersD [OF H(3)]
  have "um_users (users m) (activeSockets m) M (N(joinedGroups u := Some gs))
      (U(username u := Some \<lparr>a_pwd = password u, a_fd = socketFd u, a_groups = gs\<rparr>))"
    using D u by (intro um_users_update [OF H(3) u]) auto
  then show ?thesis unfolding um_rel_def using H(1,2) o by (intro exI conjI) simp_all
qed

lemma um_rel_mem:
  assumes H: "usersByName m = Some hm" "hm_rel hm M" "um_users (users m) (activeSockets m) M N U" and o: "olists h s N"
  shows "um_rel (m\<lparr>lists := h, names := s\<rparr>) U"
  unfolding um_rel_def using H o by (intro exI conjI) simp_all

lemma um_join_free:
  assumes "um_rel m U" "fd_ok fd" "free_fd U fd"
  shows "UserMng_JoinGroup (Some m) fd (Some g) = Some (ST_ERR_NOT_LOGGED_IN, Some m)"
    "UserMng_LeaveGroup (Some m) fd (Some g) = Some (ST_ERR_NOT_LOGGED_IN, Some m)"
    "UserMng_Logout (Some m) fd cb c = Some (ST_ERR_NOT_LOGGED_IN, Some m, c)"
  using assms(2,3)
  by (cases rule: um_socket [OF assms(1,2)];
      auto simp: UserMng_JoinGroup_def UserMng_LeaveGroup_def UserMng_Logout_def fd_ok_def)+

text \<open>The user that is online on a socket, as the operations find it.\<close>

lemma um_online:
  assumes R: "um_rel m U" and fd: "fd_ok fd" and k: "U k = Some x" "a_fd x = fd"
  obtains hm M N a u where "rd (activeSockets m) (nat fd) = Some a" "a \<noteq> NULL" "activeSockets m ! nat fd = a"
      "usersByName m = Some hm" "hm_rel hm M" "olists (lists m) (names m) N"
      "um_users (users m) (activeSockets m) M N U" "mem (users m) a = Some u" "socketFd u = fd" "username u = k"
      "N (joinedGroups u) = Some (a_groups x)" "x = \<lparr>a_pwd = password u, a_fd = fd, a_groups = a_groups x\<rparr>"
proof (cases rule: um_socket [OF R fd])
  case 1
  then show thesis using k by (auto simp: free_fd_def)
next
  case (2 hm M N a u gs)
  have "k = username u" using 2(12) k by blast
  then have "x = \<lparr>a_pwd = password u, a_fd = fd, a_groups = gs\<rparr>" using 2(11) k(1) by simp
  then show thesis using that [OF 2(1-9)] \<open>k = username u\<close> 2(10) by simp
qed

lemma um_join:
  assumes R: "um_rel m U" and fd: "fd_ok fd" and k: "U k = Some x" "a_fd x = fd"
  shows "\<exists>r m'. UserMng_JoinGroup (Some m) fd (Some g) = Some (r, Some m') \<and> um_ok m' = um_ok m \<and>
    (if g \<in> set (a_groups x) then r = ST_ERR_ALREADY_IN_GROUP \<and> m' = m
     else r = ST_OK \<and> um_rel m' (U(k := Some (x\<lparr>a_groups := a_groups x @ [g]\<rparr>))) \<or>
       r = ST_ERR_SERVER_FULL \<and> um_rel m' U \<and> \<not> um_ok m)"
proof -
  obtain hm M N a u where S: "rd (activeSockets m) (nat fd) = Some a" "a \<noteq> NULL" "activeSockets m ! nat fd = a"
      "usersByName m = Some hm" "hm_rel hm M" "olists (lists m) (names m) N"
      "um_users (users m) (activeSockets m) M N U" "mem (users m) a = Some u" "socketFd u = fd" "username u = k"
      "N (joinedGroups u) = Some (a_groups x)" "x = \<lparr>a_pwd = password u, a_fd = fd, a_groups = a_groups x\<rparr>"
    by (rule um_online [OF R fd k])
  have t: "\<forall>b v. mem (names m) b = Some v \<longrightarrow> name_is (names m) g b = Some (v = g)"
    by (simp add: name_is_def deref_def)
  have n: "\<not> fd < 0" "\<not> int FD_SETSIZE \<le> fd" using fd by (auto simp: fd_ok_def)
  show ?thesis
  proof (cases rule: olists_search [OF S(6,11) t])
    case (2 itr nd b gs1 g' gs2 h' s')
    then show ?thesis
      using S n by (auto simp: UserMng_JoinGroup_def deref_def)
  next
    case (1 itr)
    then have new: "g \<notin> set (a_groups x)" by auto
    obtain copy s where ms: "malloc (names m) g = (copy, s)" by fastforce
    note wf = olists_wf [OF S(6)]
    show ?thesis
    proof (cases "copy = NULL")
      case True
      have "\<not> um_ok m" using ms True wf by (auto simp: malloc_def um_ok_def store_wf_def split: if_splits)
      have same: "mem s = mem (names m)" "alloc_ok s = alloc_ok (names m)"
        using ms True wf by (auto simp: malloc_def store_wf_def split: if_splits)
      have "olists (lists m) s N"
        using S(6) olists_same_mem [OF _ store_wf_malloc [OF wf ms] same(1)] by blast
      then have "um_rel (m\<lparr>lists := lists m, names := s\<rparr>) U" by (rule um_rel_mem [OF S(4,5,7)])
      then show ?thesis
        using S n 1 ms True new same \<open>\<not> um_ok m\<close> by (simp add: UserMng_JoinGroup_def deref_def um_ok_def)
    next
      case False
      show ?thesis
      proof (cases rule: olists_append [OF S(6,11) ms False])
        case (1 h' s')
        have "um_rel (m\<lparr>lists := h', names := s'\<rparr>) U" by (rule um_rel_mem [OF S(4,5,7) 1(3)])
        then show ?thesis
          using S n 1 \<open>ListItrBegin (lists m) (joinedGroups u) = Some itr\<close> \<open>ListItrEnd (lists m) (joinedGroups u) = Some (joinedGroups u)\<close>
            \<open>search_itr (ListItrGet (lists m)) (ListItrNext (lists m)) (name_is (names m) g) itr (joinedGroups u) = Some (joinedGroups u)\<close>
            ms False new by (auto simp: UserMng_JoinGroup_def deref_def um_ok_def)
      next
        case (2 nd h')
        have x': "x\<lparr>a_groups := a_groups x @ [g]\<rparr> = \<lparr>a_pwd = password u, a_fd = socketFd u, a_groups = a_groups x @ [g]\<rparr>"
          using S(9,12) by (metis Account.update_convs(3))
        have "um_rel (m\<lparr>lists := h', names := s\<rparr>) (U(k := Some (x\<lparr>a_groups := a_groups x @ [g]\<rparr>)))"
          using um_rel_groups [OF S(4,5,7,8) 2(3)] S(10) x' by simp
        then show ?thesis
          using S(1,2,4,8) n 2 1(1,2,4) ms False new by (simp add: UserMng_JoinGroup_def deref_def um_ok_def)
      qed
    qed
  qed
qed

lemma um_leave:
  assumes R: "um_rel m U" and fd: "fd_ok fd" and k: "U k = Some x" "a_fd x = fd" and d: "distinct (a_groups x)"
  shows "if g \<in> set (a_groups x)
    then \<exists>m'. UserMng_LeaveGroup (Some m) fd (Some g) = Some (ST_OK, Some m') \<and> um_ok m' = um_ok m \<and>
      um_rel m' (U(k := Some (x\<lparr>a_groups := removeAll g (a_groups x)\<rparr>)))
    else UserMng_LeaveGroup (Some m) fd (Some g) = Some (ST_ERR_NOT_IN_GROUP, Some m)"
proof -
  obtain hm M N a u where S: "rd (activeSockets m) (nat fd) = Some a" "a \<noteq> NULL" "activeSockets m ! nat fd = a"
      "usersByName m = Some hm" "hm_rel hm M" "olists (lists m) (names m) N"
      "um_users (users m) (activeSockets m) M N U" "mem (users m) a = Some u" "socketFd u = fd" "username u = k"
      "N (joinedGroups u) = Some (a_groups x)" "x = \<lparr>a_pwd = password u, a_fd = fd, a_groups = a_groups x\<rparr>"
    by (rule um_online [OF R fd k])
  have t: "\<forall>b v. mem (names m) b = Some v \<longrightarrow> name_is_checked (names m) g b = Some (v = g)"
    using store_wf_live [OF olists_wf [OF S(6)]] by (auto simp: name_is_checked_def name_is_def deref_def)
  have n: "\<not> fd < 0" "\<not> int FD_SETSIZE \<le> fd" using fd by (auto simp: fd_ok_def)
  show ?thesis
  proof (cases rule: olists_search [OF S(6,11) t])
    case (2 itr nd b gs1 g' gs2 h' s')
    have gs: "removeAll g (a_groups x) = gs1 @ gs2" using 2(3,5) d by (auto simp: removeAll_id)
    have x': "x\<lparr>a_groups := gs1 @ gs2\<rparr> = \<lparr>a_pwd = password u, a_fd = socketFd u, a_groups = gs1 @ gs2\<rparr>"
      using S(9,12) by (metis Account.update_convs(3))
    have "um_rel (m\<lparr>lists := h', names := s'\<rparr>) (U(k := Some (x\<lparr>a_groups := gs1 @ gs2\<rparr>)))"
      using um_rel_groups [OF S(4,5,7,8) 2(13)] S(10) x' by simp
    moreover have "UserMng_LeaveGroup (Some m) fd (Some g) = Some (ST_OK, Some (m\<lparr>lists := h', names := s'\<rparr>))"
      using S(1,2,8) n 2 by (simp add: UserMng_LeaveGroup_def deref_def)
    moreover have "g \<in> set (a_groups x)" using 2(3,5) by simp
    ultimately show ?thesis using 2(14,15) gs by (simp add: um_ok_def)
  next
    case (1 itr)
    then have "g \<notin> set (a_groups x)" by auto
    then show ?thesis
      using S(1,2,8) n 1 by (simp add: UserMng_LeaveGroup_def deref_def)
  qed
qed

lemma drain_groups_spec:
  assumes "olists h s N" "N l = Some gs" "leave_all cb gs c = Some c'"
  shows "\<exists>h' s'. drain_groups h s l cb c = Some (h', s', c') \<and> olists h' s' (N(l := Some [])) \<and>
    alloc_ok h' = alloc_ok h \<and> alloc_ok s' = alloc_ok s"
  using assms
proof (induction gs arbitrary: h s N c)
  case Nil
  then have N: "N(l := Some []) = N" by auto
  show ?case
    using Nil.prems by (cases rule: olists_first [OF Nil.prems(1,2)]; subst drain_groups.simps) (simp_all add: N)
next
  case (Cons g gs)
  obtain c1 where c1: "(case cb of None \<Rightarrow> Some c | Some f \<Rightarrow> f g c) = Some c1" "leave_all cb gs c1 = Some c'"
    using Cons.prems(3) by (auto split: bind_splits)
  show ?case
  proof (cases rule: olists_first [OF Cons.prems(1,2)])
    case (2 n a g' gs' h1 s1)
    have "\<exists>h' s'. drain_groups h1 s1 l cb c1 = Some (h', s', c') \<and> olists h' s' ((N(l := Some gs'))(l := Some [])) \<and>
        alloc_ok h' = alloc_ok h1 \<and> alloc_ok s' = alloc_ok s1"
      using 2(1) c1(2) by (intro Cons.IH [OF 2(9)]) simp_all
    then show ?thesis
      using 2 c1 by (subst drain_groups.simps) (auto simp: deref_def)
  qed simp
qed

lemma um_logout:
  assumes R: "um_rel m U" and fd: "fd_ok fd" and k: "U k = Some x" "a_fd x = fd"
    and cb: "leave_all cb (a_groups x) c = Some c'"
  shows "\<exists>m'. UserMng_Logout (Some m) fd cb c = Some (ST_OK, Some m', c') \<and> um_ok m' = um_ok m \<and>
    um_rel m' (U(k := Some (x\<lparr>a_fd := - 1, a_groups := []\<rparr>)))"
proof -
  obtain hm M N a u where S: "rd (activeSockets m) (nat fd) = Some a" "a \<noteq> NULL" "activeSockets m ! nat fd = a"
      "usersByName m = Some hm" "hm_rel hm M" "olists (lists m) (names m) N"
      "um_users (users m) (activeSockets m) M N U" "mem (users m) a = Some u" "socketFd u = fd" "username u = k"
      "N (joinedGroups u) = Some (a_groups x)" "x = \<lparr>a_pwd = password u, a_fd = fd, a_groups = a_groups x\<rparr>"
    by (rule um_online [OF R fd k])
  note D = um_usersD [OF S(7)]
  have n: "nat fd < FD_SETSIZE" "int (nat fd) = fd" "\<not> fd < 0" "\<not> int FD_SETSIZE \<le> fd" using fd by (auto simp: fd_ok_def)
  obtain h s where dr: "drain_groups (lists m) (names m) (joinedGroups u) cb c = Some (h, s, c')"
    "olists h s (N(joinedGroups u := Some []))" "alloc_ok h = alloc_ok (lists m)" "alloc_ok s = alloc_ok (names m)"
    using drain_groups_spec [OF S(6,11) cb] by blast
  let ?u = "u\<lparr>state := USER_OFFLINE, socketFd := - 1\<rparr>"
  let ?us = "(users m)\<lparr>mem := (mem (users m))(a := Some ?u)\<rparr>"
  let ?act = "(activeSockets m)[nat fd := NULL]"
  have w: "wr (activeSockets m) (nat fd) NULL = Some ?act"
    using D(2) n(1) by (simp add: wr_def sockets_ok_def)
  have "sockets_ok ?us ?act"
    unfolding sockets_ok_def
  proof (intro conjI allI impI)
    show "length ?act = FD_SETSIZE" using D(2) by (simp add: sockets_ok_def)
    fix f b assume f: "f < FD_SETSIZE"
    have old: "b \<noteq> NULL \<and> activeSockets m ! f = b \<longleftrightarrow> (\<exists>u. mem (users m) b = Some u \<and> socketFd u = int f)"
      using D(2) f by (simp add: sockets_ok_def)
    show "(b \<noteq> NULL \<and> ?act ! f = b) = (\<exists>u. mem ?us b = Some u \<and> socketFd u = int f)"
    proof (cases "f = nat fd")
      case True
      then show ?thesis using old S(3) n D(2) by (cases "b = a") (auto simp: sockets_ok_def)
    next
      case False
      then have "int f \<noteq> fd" using n(2) by auto
      then show ?thesis using old False S(3,8,9) by (cases "b = a") auto
    qed
  qed
  moreover have "store_wf ?us" using D(1) S(8) by (auto simp: store_wf_def)
  moreover have "user_ok ?u" by (simp add: user_ok_def FD_SETSIZE_def)
  ultimately have "um_users ?us ?act M (N(joinedGroups u := Some []))
      (U(username u := Some \<lparr>a_pwd = password ?u, a_fd = socketFd ?u, a_groups = []\<rparr>))"
    by (intro um_users_update [OF S(7,8)]) simp_all
  moreover have "x\<lparr>a_fd := - 1, a_groups := []\<rparr> = \<lparr>a_pwd = password ?u, a_fd = socketFd ?u, a_groups = []\<rparr>"
    using S(12) by (metis (no_types) Account.update_convs(2,3) User.select_convs(2,4) User.surjective User.update_convs(3,4))
  ultimately have "um_rel (m\<lparr>users := ?us, lists := h, names := s, activeSockets := ?act\<rparr>)
      (U(k := Some (x\<lparr>a_fd := - 1, a_groups := []\<rparr>)))"
    unfolding um_rel_def using S(4,5,10) dr(2) by auto
  moreover have "UserMng_Logout (Some m) fd cb c =
      Some (ST_OK, Some (m\<lparr>users := ?us, lists := h, names := s, activeSockets := ?act\<rparr>), c')"
    using S(1,2,8) n(3,4) dr(1) w by (simp add: UserMng_Logout_def deref_def put_def)
  ultimately show ?thesis using dr(3,4) by (simp add: um_ok_def)
qed

lemma um_users_add:
  assumes R: "um_users us act M N U" and a: "mem us a = None" "mem us' = (mem us)(a := Some u)" "store_wf us'"
    and u: "socketFd u = - 1" "state u = USER_OFFLINE" and k: "M (username u) = None" and l: "N (joinedGroups u) = None"
  shows "um_users us' act (M(username u := Some a)) (N(joinedGroups u := Some []))
    (U(username u := Some \<lparr>a_pwd = password u, a_fd = - 1, a_groups = []\<rparr>))"
proof -
  let ?N = "N(joinedGroups u := Some [])"
  note D = um_usersD [OF R]
  have m': "mem us' b = Some v \<longleftrightarrow> (if b = a then v = u else mem us b = Some v)" for b v
    using a by auto
  have nu: "username v \<noteq> username u" "joinedGroups v \<noteq> joinedGroups u" if "mem us b = Some v" for b v
    using D(3) [of "username v" b] D(6) [OF that] that k l by auto
  have c1: "(M(username u := Some a)) k = Some b \<longleftrightarrow> (\<exists>v. mem us' b = Some v \<and> username v = k)" for k b
  proof (cases "b = a")
    case True
    then show ?thesis using D(3) [of k a] a by auto
  next
    case False
    then show ?thesis unfolding m' using D(3) [of k b] nu(1) [of b] by auto
  qed
  have c2: "user_ok v" if "mem us' b = Some v" for b v
    using that D(4) [of b v] u by (auto simp: m' user_ok_def FD_SETSIZE_def split: if_splits)
  have c3: "b = c" if "mem us' b = Some v" "mem us' c = Some w" "joinedGroups v = joinedGroups w" for b c v w
    using that D(5) [of b v c w] nu(2) [of b v] nu(2) [of c w] by (auto simp: m' split: if_splits)
  have "dom N = joinedGroups ` ran (mem us)" using R by (simp add: um_users_def objects_image)
  then have c4: "dom ?N = {joinedGroups v |b v. mem us' b = Some v}" unfolding objects_image a(2) image_ran_add [of "mem us", OF a(1)] by simp
  have c5: "sockets_ok us' act"
    unfolding sockets_ok_def
  proof (intro conjI allI impI)
    show "length act = FD_SETSIZE" using D(2) by (simp add: sockets_ok_def)
    fix f b assume f: "f < FD_SETSIZE"
    have "b \<noteq> NULL \<and> act ! f = b \<longleftrightarrow> (\<exists>u. mem us b = Some u \<and> socketFd u = int f)"
      using D(2) f by (simp add: sockets_ok_def)
    then show "(b \<noteq> NULL \<and> act ! f = b) = (\<exists>u. mem us' b = Some u \<and> socketFd u = int f)"
      unfolding m' using a(1) u(1) by (cases "b = a") auto
  qed
  have "(U(username u := Some \<lparr>a_pwd = password u, a_fd = - 1, a_groups = []\<rparr>)) k =
      Option.bind ((M(username u := Some a)) k) (\<lambda>b. map_option (account ?N) (mem us' b))" for k
  proof (cases "k = username u")
    case True
    then show ?thesis using a(2) u(1) by (simp add: account_def)
  next
    case False
    show ?thesis
    proof (cases "M k")
      case None
      then show ?thesis using False account_of(3) [OF R, of k] by simp
    next
      case (Some b)
      then obtain v where v: "mem us b = Some v" "username v = k" using D(3) by auto
      then have "mem us' b = Some v" using a by auto
      then show ?thesis
        using Some False nu(2) [OF v(1)] account_of(1) [OF R v(1)] v(2) by (simp add: account_def)
    qed
  qed
  then show ?thesis
    unfolding um_users_def using a(3) c1 c2 c3 c4 c5 by (intro conjI) (blast | (rule ext, simp))+
qed

lemma um_users_same: "um_users us act M N U \<Longrightarrow> store_wf us' \<Longrightarrow> mem us' = mem us \<Longrightarrow> um_users us' act M N U"
  by (simp add: um_users_def sockets_ok_def)

lemma um_register:
  assumes R: "um_rel m U" and len: "length k \<le> CHAT_MAX_USERNAME_LEN" "length p \<le> CHAT_MAX_PASSWORD_LEN"
  shows "\<exists>r m'. UserMng_Register (Some m) (Some k) (Some p) = Some (r, Some m') \<and> um_ok m' = um_ok m \<and>
    (if U k \<noteq> None then r = ST_ERR_USER_EXISTS \<and> m' = m
     else r = ST_OK \<and> um_rel m' (U(k := Some \<lparr>a_pwd = p, a_fd = - 1, a_groups = []\<rparr>)) \<or>
       r = ST_ERR_SERVER_FULL \<and> um_rel m' U \<and> \<not> um_ok m)"
proof -
  obtain hm M N where H: "usersByName m = Some hm" "hm_rel hm M" "olists (lists m) (names m) N"
      "um_users (users m) (activeSockets m) M N U"
    using R by (auto simp: um_rel_def)
  note D = um_usersD [OF H(4)]
  show ?thesis
  proof (cases "U k")
    case (Some x)
    then obtain a where "M k = Some a" using account_of(3) [OF H(4), of k] by auto
    then show ?thesis
      using Some H(1) hm.find_found [OF H(2), of k a NULL] by (simp add: UserMng_Register_def)
  next
    case None
    then have k: "M k = None" using account_of(3) [OF H(4)] by simp
    have find: "HashMap_Find (Some hm) (Some k) (Some NULL) = Some (MAP_KEY_NOT_FOUND_ERROR, Some NULL)"
      by (rule hm.find_absent [OF H(2) k])
    let ?x = "\<lparr>username = k, password = p, state = USER_OFFLINE, socketFd = - 1, joinedGroups = NULL\<rparr>"
    obtain a us where ms: "malloc (users m) ?x = (a, us)" by fastforce
    have wf: "store_wf us" by (rule store_wf_malloc [OF D(1) ms])
    show ?thesis
    proof (cases rule: malloc_cases [OF D(1) ms])
      case 1
      have "\<not> um_ok m" using ms 1 D(1) by (auto simp: malloc_def um_ok_def store_wf_def split: if_splits)
      moreover have "um_rel (m\<lparr>users := us\<rparr>) U"
        unfolding um_rel_def using H um_users_same [OF H(4) wf 1(2)] by (intro exI conjI) simp_all
      ultimately show ?thesis
        using None H(1) find ms 1 len by (simp add: UserMng_Register_def um_ok_def)
    next
      case 2
      note a = this
      have undone: "um_users (us\<lparr>mem := (mem us)(a := None)\<rparr>) (activeSockets m) M N U"
        using a(2,3) wf by (intro um_users_same [OF H(4)]) (auto simp: store_wf_def fun_eq_iff)
      show ?thesis
      proof (cases rule: olists_create [OF H(3)])
        case (1 h)
        have "um_rel (m\<lparr>users := us\<lparr>mem := (mem us)(a := None)\<rparr>, lists := h\<rparr>) U"
          unfolding um_rel_def using H(1,2) 1(2) undone by (intro exI conjI) simp_all
        then show ?thesis
          using None H(1) find ms 1 len a
          by (auto simp: UserMng_Register_def um_ok_def deref_def put_def free_def)
      next
        case (2 l h)
        let ?u = "?x\<lparr>joinedGroups := l\<rparr>"
        let ?us = "us\<lparr>mem := (mem us)(a := Some ?u)\<rparr>"
        show ?thesis
        proof (cases rule: hm.insert_cases [OF H(2) k, of a])
          case (1 hm')
          have "store_wf ?us" using wf a by (auto simp: store_wf_def)
          then have "um_users ?us (activeSockets m) (M(username ?u := Some a)) (N(joinedGroups ?u := Some []))
              (U(username ?u := Some \<lparr>a_pwd = password ?u, a_fd = - 1, a_groups = []\<rparr>))"
            using a k 2(3) by (intro um_users_add [OF H(4)]) auto
          then have "um_rel (m\<lparr>usersByName := Some hm', users := ?us, lists := h\<rparr>)
              (U(k := Some \<lparr>a_pwd = p, a_fd = - 1, a_groups = []\<rparr>))"
            unfolding um_rel_def using 1(2) 2(4) by (intro exI conjI) simp_all
          then show ?thesis
            using None H(1) find ms 1 2 len a
            by (auto simp: UserMng_Register_def um_ok_def deref_def put_def)
        next
          case (2 hm')
          note l = \<open>ListCreate (lists m) = Some (l, h)\<close> \<open>l \<noteq> NULL\<close> \<open>olists h (names m) (N(l := Some []))\<close>
            \<open>alloc_ok h = alloc_ok (lists m)\<close> \<open>N l = None\<close>
          have "(N(l := Some []))(l := None) = N" using l(5) by auto
          then obtain h' where h': "ListDestroy h (Some l) False = Some ([], Some NULL, h')" "olists h' (names m) N"
            "alloc_ok h' = alloc_ok h"
            using olists_destroy_empty [OF l(3), of l False] by (metis fun_upd_same)
          have "um_rel (m\<lparr>usersByName := Some hm', users := us\<lparr>mem := (mem us)(a := None)\<rparr>, lists := h'\<rparr>) U"
            unfolding um_rel_def using 2(2) h'(2) undone by (intro exI conjI) simp_all
          then show ?thesis
            using None H(1) find ms 2 l h' len a
            by (auto simp: UserMng_Register_def um_ok_def deref_def put_def free_def)
        qed
      qed
    qed
  qed
qed


lemma um_create:
  "if ua_structs ua 0 \<and> ua_structs ua 1 \<and> ua_structs ua 2
   then \<exists>m. UserMng_Create ua = Some (Some m) \<and> um_rel m Map.empty \<and>
     um_ok m = ((\<forall>n. ua_nodes ua n) \<and> (\<forall>n. ua_kvps ua n) \<and> (\<forall>n. ua_users ua n) \<and> (\<forall>n. ua_lists ua n) \<and> (\<forall>n. ua_names ua n))
   else UserMng_Create ua = Some None"
proof -
  have eq: "StringKeysEqual (Some k) (Some k') \<noteq> 0 \<longleftrightarrow> k = k'" for k k' by simp
  have "(101 :: size_t) \<noteq> 0" "(100 :: size_t) \<noteq> 0" by simp_all
  note C = hm_create [OF GetNextPrime_100 this eq, of "\<lambda>i. ua_structs ua (i + 1)" "ua_nodes ua" "ua_kvps ua" HashStringDjb2]
  show ?thesis
  proof (cases "ua_structs ua 0 \<and> ua_structs ua 1 \<and> ua_structs ua 2")
    case False
    then show ?thesis using C by (auto simp: UserMng_Create_def numeral_2_eq_2)
  next
    case True
    then obtain hm where hm: "HashMap_Create (\<lambda>i. ua_structs ua (i + 1)) (ua_nodes ua) (ua_kvps ua) 100
        (Some HashStringDjb2) (Some StringKeysEqual) = Some (Some hm)" "hm_rel hm Map.empty"
        "hm_ok hm = ((\<forall>n. ua_nodes ua n) \<and> (\<forall>n. ua_kvps ua n))"
      using C by (auto simp: numeral_2_eq_2)
    have "sockets_ok (empty_store (ua_users ua)) (replicate FD_SETSIZE NULL)"
      by (auto simp: sockets_ok_def empty_store_def)
    then have "um_users (empty_store (ua_users ua)) (replicate FD_SETSIZE NULL) Map.empty Map.empty Map.empty"
      by (simp add: um_users_def) (simp add: empty_store_def)
    then show ?thesis
      using True hm olists_empty [of "ua_lists ua" "ua_names ua"]
      by (auto simp: UserMng_Create_def um_rel_def um_ok_def) (auto simp: empty_store_def)
  qed
qed

text \<open>Destroying all users: each step removes one user with the list of names.\<close>

definition users_in :: "user_mem \<Rightarrow> (addr \<rightharpoonup> cstring list) \<Rightarrow> addr list \<Rightarrow> bool" where
  "users_in st N as \<longleftrightarrow> (case st of (us, h, s) \<Rightarrow> store_wf us \<and> olists h s N \<and> distinct as \<and> dom (mem us) = set as \<and>
     (\<forall>a b u v. mem us a = Some u \<longrightarrow> mem us b = Some v \<longrightarrow> joinedGroups u = joinedGroups v \<longrightarrow> a = b) \<and>
     dom N = {joinedGroups u |a u. mem us a = Some u})"

lemma DestroyUserCallback_spec:
  assumes "users_in st N (a # as)"
  shows "\<exists>st' N'. DestroyUserCallback a st = Some st' \<and> users_in st' N' as"
proof -
  obtain us h s where st: "st = (us, h, s)" by (cases st)
  have wf: "store_wf us" and o: "olists h s N" and d: "a \<notin> set as" "distinct as" "dom (mem us) = set (a # as)"
    and inj: "\<And>a b u v. mem us a = Some u \<Longrightarrow> mem us b = Some v \<Longrightarrow> joinedGroups u = joinedGroups v \<Longrightarrow> a = b"
    and N: "dom N = {joinedGroups u |a u. mem us a = Some u}"
    using assms by (auto simp: users_in_def st)
  obtain u where u: "mem us a = Some u" using d(3) by (metis domD list.set_intros(1))
  have a0: "a \<noteq> NULL" by (rule store_wf_live [OF wf u])
  have "joinedGroups u \<in> dom N" using N u by blast
  then obtain gs where gs: "N (joinedGroups u) = Some gs" by auto
  obtain ns h' s' where L: "ListDestroy h (Some (joinedGroups u)) True = Some (ns, Some NULL, h')" "free_all s ns = Some s'"
    "olists h' s' (N(joinedGroups u := None))"
    by (rule olists_destroy [OF o gs])
  have l0: "joinedGroups u \<noteq> NULL" by (rule olists_not_null [OF o gs])
  let ?us = "us\<lparr>mem := (mem us)(a := None)\<rparr>"
  have "DestroyUserCallback a st = Some (?us, h', s')"
    using st u a0 l0 L(1,2) by (simp add: DestroyUserCallback_def deref_def put_def free_def)
  moreover have "users_in (?us, h', s') (N(joinedGroups u := None)) as"
  proof -
    have m': "mem ?us b = Some v \<longleftrightarrow> b \<noteq> a \<and> mem us b = Some v" for b v by auto
    have "{joinedGroups v |b v. mem ?us b = Some v} = dom N - {joinedGroups u}"
    proof -
      have "b \<noteq> a \<longleftrightarrow> joinedGroups v \<noteq> joinedGroups u" if "mem us b = Some v" for b v
        using inj [OF u that] u that by auto
      then show ?thesis unfolding N m' by auto
    qed
    moreover have "store_wf ?us" using wf by (auto simp: store_wf_def)
    moreover have "dom (mem ?us) = set as" using d by auto
    ultimately show ?thesis
      unfolding users_in_def prod.case m' using L(3) d(2) inj by (intro conjI) (auto simp del: fun_upd_apply)
  qed
  ultimately show ?thesis by blast
qed

lemma destroy_users:
  "users_in st N (map snd es) \<Longrightarrow>
   \<exists>st' N'. destroy_entries None (Some DestroyUserCallback) es st = Some st' \<and> users_in st' N' []"
proof (induction es arbitrary: st N)
  case (Cons e es)
  obtain st1 N1 where "DestroyUserCallback (snd e) st = Some st1" "users_in st1 N1 (map snd es)"
    using DestroyUserCallback_spec [of st N "snd e" "map snd es"] Cons.prems by auto
  then show ?case
    using Cons.IH by (cases e) (simp add: run_destructor_def)
qed auto

lemma um_destroy:
  assumes "um_rel m U"
  shows "\<exists>h ks us l s. UserMng_Destroy (Some (Some m)) = Some (Some None, Some (Some (h, ks), us, l, s)) \<and>
    mem h = Map.empty \<and> mem ks = Map.empty \<and> mem us = Map.empty \<and> mem l = Map.empty \<and> mem s = Map.empty"
proof -
  obtain hm M N where H: "usersByName m = Some hm" "hm_rel hm M" "olists (lists m) (names m) N"
      "um_users (users m) (activeSockets m) M N U"
    using assms by (auto simp: um_rel_def)
  note D = um_usersD [OF H(4)]
  obtain es where es: "distinct (map fst es)" "map_of es = M"
    and destroy: "\<And>c c'. destroy_entries None (Some DestroyUserCallback) es c = Some c' \<Longrightarrow>
      \<exists>h s. HashMap_Destroy (Some (Some hm)) None (Some DestroyUserCallback) c = Some (Some None, Some (h, s), c') \<and>
        mem h = Map.empty \<and> mem s = Map.empty"
    using hm_destroy [OF H(2), of None "Some DestroyUserCallback"] by metis
  have in_es: "(k, a) \<in> set es \<longleftrightarrow> (\<exists>u. mem (users m) a = Some u \<and> username u = k)" for k a
    using map_of_eq_Some_iff [OF es(1), of k a] es(2) D(3) [of k a] by simp
  have "distinct (map snd es)"
    unfolding distinct_map
  proof
    show "distinct es" using es(1) by (simp add: distinct_map)
    show "inj_on snd (set es)"
    proof (rule inj_onI)
      fix x y assume "x \<in> set es" "y \<in> set es" "snd x = snd y"
      then show "x = y" using in_es [of "fst x" "snd x"] in_es [of "fst y" "snd y"] by (metis option.inject prod.collapse)
    qed
  qed
  moreover have "dom (mem (users m)) = set (map snd es)"
    using in_es by force
  ultimately have "users_in (users m, lists m, names m) N (map snd es)"
    using H(3,4) D(5) by (simp add: users_in_def um_users_def)
  then obtain us l s N' where st: "destroy_entries None (Some DestroyUserCallback) es (users m, lists m, names m) = Some (us, l, s)"
    "users_in (us, l, s) N' []"
    using destroy_users by (metis prod_cases3)
  have "mem us = Map.empty" "N' = Map.empty" "olists l s N'"
    using st(2) by (auto simp: users_in_def)
  then have "mem us = Map.empty" "mem l = Map.empty" "mem s = Map.empty"
    using olists_none [of l s] by auto
  then show ?thesis
    using destroy [OF st(1)] H(1) by (auto simp: UserMng_Destroy_def)
qed

section \<open>The contract of the account store\<close>

text \<open>The users that have joined a group.\<close>

definition members :: "accounts \<Rightarrow> cstring \<Rightarrow> cstring set" where
  "members U g = {k. \<exists>x. U k = Some x \<and> g \<in> set (a_groups x)}"

text \<open>What holds of the accounts of every server that was driven through its handlers.\<close>

definition accounts_ok :: "accounts \<Rightarrow> bool" where
  "accounts_ok U \<longleftrightarrow> (\<forall>k x. U k = Some x \<longrightarrow> distinct (a_groups x) \<and> (a_fd x = - 1 \<longrightarrow> a_groups x = []))"

locale account_store =
  fixes rel :: "'m \<Rightarrow> accounts \<Rightarrow> bool"
    and ok :: "'m \<Rightarrow> bool"
    and register :: "'m option \<Rightarrow> cstring option \<Rightarrow> cstring option \<Rightarrow> (ChatStatus \<times> 'm option) option"
    and login :: "'m option \<Rightarrow> cstring option \<Rightarrow> cstring option \<Rightarrow> int \<Rightarrow> (ChatStatus \<times> 'm option) option"
    and logout :: "'m option \<Rightarrow> int \<Rightarrow> 's leave_cb \<Rightarrow> 's \<Rightarrow> (ChatStatus \<times> 'm option \<times> 's) option"
    and join :: "'m option \<Rightarrow> int \<Rightarrow> cstring option \<Rightarrow> (ChatStatus \<times> 'm option) option"
    and leave :: "'m option \<Rightarrow> int \<Rightarrow> cstring option \<Rightarrow> (ChatStatus \<times> 'm option) option"
    and is_logged_in :: "'m option \<Rightarrow> int \<Rightarrow> int option"
  assumes register_law: "rel m U \<Longrightarrow> length k \<le> CHAT_MAX_USERNAME_LEN \<Longrightarrow> length p \<le> CHAT_MAX_PASSWORD_LEN \<Longrightarrow>
      \<exists>r m'. register (Some m) (Some k) (Some p) = Some (r, Some m') \<and> ok m' = ok m \<and>
        (if U k \<noteq> None then r = ST_ERR_USER_EXISTS \<and> m' = m
         else r = ST_OK \<and> rel m' (U(k := Some \<lparr>a_pwd = p, a_fd = - 1, a_groups = []\<rparr>)) \<or>
           r = ST_ERR_SERVER_FULL \<and> rel m' U \<and> \<not> ok m)"
    and login_law: "rel m U \<Longrightarrow> fd_ok fd \<Longrightarrow>
      \<exists>r m'. login (Some m) (Some k) (Some p) fd = Some (r, Some m') \<and> ok m' = ok m \<and>
        (if \<not> free_fd U fd then r = ST_ERR_ALREADY_LOGGED_IN \<and> m' = m
         else case U k of
           None \<Rightarrow> r = ST_ERR_USER_NOT_FOUND \<and> m' = m
         | Some x \<Rightarrow> if a_pwd x \<noteq> p then r = ST_ERR_BAD_PASSWORD \<and> m' = m
             else if a_fd x \<noteq> - 1 then r = ST_ERR_ALREADY_LOGGED_IN \<and> m' = m
             else r = ST_OK \<and> rel m' (U(k := Some (x\<lparr>a_fd := fd\<rparr>))))"
    and logout_law: "rel m U \<Longrightarrow> fd_ok fd \<Longrightarrow> U k = Some x \<Longrightarrow> a_fd x = fd \<Longrightarrow> leave_all cb (a_groups x) c = Some c' \<Longrightarrow>
      \<exists>m'. logout (Some m) fd cb c = Some (ST_OK, Some m', c') \<and> ok m' = ok m \<and>
        rel m' (U(k := Some (x\<lparr>a_fd := - 1, a_groups := []\<rparr>)))"
    and join_law: "rel m U \<Longrightarrow> fd_ok fd \<Longrightarrow> U k = Some x \<Longrightarrow> a_fd x = fd \<Longrightarrow>
      \<exists>r m'. join (Some m) fd (Some g) = Some (r, Some m') \<and> ok m' = ok m \<and>
        (if g \<in> set (a_groups x) then r = ST_ERR_ALREADY_IN_GROUP \<and> m' = m
         else r = ST_OK \<and> rel m' (U(k := Some (x\<lparr>a_groups := a_groups x @ [g]\<rparr>))) \<or>
           r = ST_ERR_SERVER_FULL \<and> rel m' U \<and> \<not> ok m)"
    and leave_law: "rel m U \<Longrightarrow> fd_ok fd \<Longrightarrow> U k = Some x \<Longrightarrow> a_fd x = fd \<Longrightarrow> distinct (a_groups x) \<Longrightarrow>
      if g \<in> set (a_groups x)
      then \<exists>m'. leave (Some m) fd (Some g) = Some (ST_OK, Some m') \<and> ok m' = ok m \<and>
        rel m' (U(k := Some (x\<lparr>a_groups := removeAll g (a_groups x)\<rparr>)))
      else leave (Some m) fd (Some g) = Some (ST_ERR_NOT_IN_GROUP, Some m)"
    and free_law: "rel m U \<Longrightarrow> fd_ok fd \<Longrightarrow> free_fd U fd \<Longrightarrow>
      join (Some m) fd (Some g) = Some (ST_ERR_NOT_LOGGED_IN, Some m) \<and>
      leave (Some m) fd (Some g) = Some (ST_ERR_NOT_LOGGED_IN, Some m) \<and>
      logout (Some m) fd cb c = Some (ST_ERR_NOT_LOGGED_IN, Some m, c)"
    and bad_fd_law: "\<not> fd_ok fd \<Longrightarrow>
      login (Some m) (Some k) (Some p) fd = Some (ST_ERR_PROTOCOL, Some m) \<and>
      join (Some m) fd (Some g) = Some (ST_ERR_PROTOCOL, Some m) \<and>
      leave (Some m) fd (Some g) = Some (ST_ERR_PROTOCOL, Some m) \<and>
      logout (Some m) fd cb c = Some (ST_ERR_PROTOCOL, Some m, c)"
    and logged_in_law: "rel m U \<Longrightarrow> is_logged_in (Some m) fd = Some (if fd_ok fd \<and> \<not> free_fd U fd then 1 else 0)"
    and fd_unique_law: "rel m U \<Longrightarrow> U k = Some x \<Longrightarrow> U k' = Some x' \<Longrightarrow> a_fd x = a_fd x' \<Longrightarrow> a_fd x \<noteq> - 1 \<Longrightarrow> k = k'"
    and fd_range_law: "rel m U \<Longrightarrow> U k = Some x \<Longrightarrow> a_fd x \<noteq> - 1 \<Longrightarrow> fd_ok (a_fd x)"
    and finite_law: "rel m U \<Longrightarrow> finite (dom U)"
begin

text \<open>A group never has more members than there are sockets: every member is online on a socket of its own.\<close>

lemma members_finite: "rel m U \<Longrightarrow> finite (members U g)"
  by (rule finite_subset [OF _ finite_law]) (auto simp: members_def)

lemma members_bound:
  assumes R: "rel m U" and inv: "accounts_ok U"
  shows "card (members U g) \<le> FD_SETSIZE"
proof -
  let ?fd = "\<lambda>k. nat (a_fd (the (U k)))"
  have on: "\<exists>x. U k = Some x \<and> a_fd x \<noteq> - 1 \<and> fd_ok (a_fd x)" if "k \<in> members U g" for k
    using that inv fd_range_law [OF R] by (fastforce simp: members_def accounts_ok_def)
  have "inj_on ?fd (members U g)"
  proof (rule inj_onI)
    fix k k' assume k: "k \<in> members U g" "k' \<in> members U g" "?fd k = ?fd k'"
    obtain x x' where x: "U k = Some x" "fd_ok (a_fd x)" "a_fd x \<noteq> - 1" "U k' = Some x'" "fd_ok (a_fd x')"
      using on [OF k(1)] on [OF k(2)] by auto
    then have "a_fd x = a_fd x'" using k(3) by (auto simp: fd_ok_def)
    then show "k = k'" using fd_unique_law [OF R x(1,4)] x(3) by simp
  qed
  moreover have "?fd ` members U g \<subseteq> {..<FD_SETSIZE}"
    using on by (force simp: fd_ok_def)
  ultimately show ?thesis
    using card_inj_on_le [of ?fd "members U g" "{..<FD_SETSIZE}"] by simp
qed

lemma socket_cases:
  assumes "rel m U"
  obtains (bad) "\<not> fd_ok fd" | (idle) "fd_ok fd" "free_fd U fd"
  | (online) k x where "fd_ok fd" "\<not> free_fd U fd" "U k = Some x" "a_fd x = fd" "a_fd x \<noteq> - 1"
  by (cases "fd_ok fd") (auto simp: free_fd_def fd_ok_def)

end

lemma um_fd_unique:
  assumes "um_rel m U" "U k = Some x" "U k' = Some x'" "a_fd x = a_fd x'" "a_fd x \<noteq> - 1"
  shows "k = k'"
proof -
  obtain M N where H: "um_users (users m) (activeSockets m) M N U"
    using assms(1) by (auto simp: um_rel_def)
  obtain a u where u: "mem (users m) a = Some u" "username u = k" "x = account N u"
    using account_of(2) [OF H assms(2)] by auto
  have "fd_ok (a_fd x)"
    using um_usersD(4) [OF H u(1)] u(3) assms(5) by (auto simp: user_ok_def fd_ok_def account_def)
  then show ?thesis
    using um_socket [OF assms(1), of "a_fd x"] assms by (metis (lifting) free_fd_def)
qed

lemma um_fd_range:
  assumes "um_rel m U" "U k = Some x" "a_fd x \<noteq> - 1"
  shows "fd_ok (a_fd x)"
proof -
  obtain M N where H: "um_users (users m) (activeSockets m) M N U"
    using assms(1) by (auto simp: um_rel_def)
  obtain a u where u: "mem (users m) a = Some u" "x = account N u"
    using account_of(2) [OF H assms(2)] by auto
  then show ?thesis
    using um_usersD(4) [OF H u(1)] assms(3) by (auto simp: user_ok_def fd_ok_def account_def)
qed

lemma um_finite: "um_rel m U \<Longrightarrow> finite (dom U)"
proof -
  assume "um_rel m U"
  then obtain hm M N where H: "hm_rel hm M" "um_users (users m) (activeSockets m) M N U"
    by (auto simp: um_rel_def)
  have "dom U = dom M" using account_of(3) [OF H(2)] by (simp add: dom_def)
  then show ?thesis using hm.dom_finite_law [OF H(1)] by simp
qed

interpretation um: account_store um_rel um_ok UserMng_Register UserMng_Login UserMng_Logout UserMng_JoinGroup
  UserMng_LeaveGroup UserMng_IsLoggedIn
  by unfold_locales
    ((rule um_register um_login um_logout um_join um_leave um_is_logged_in um_fd_unique um_fd_range um_finite; assumption)
      | simp add: um_join_free um_bad_fd)+

section \<open>Correctness of the user manager\<close>

text \<open>A manager with one account, for the concrete instances below.\<close>

definition all_ok :: um_alloc where
  "all_ok = \<lparr>ua_structs = (\<lambda>_. True), ua_nodes = (\<lambda>_. True), ua_kvps = (\<lambda>_. True), ua_users = (\<lambda>_. True),
     ua_lists = (\<lambda>_. True), ua_names = (\<lambda>_. True)\<rparr>"

lemma sample_mng:
  obtains m where "UserMng_Create all_ok = Some (Some m)" "um_rel m Map.empty" "um_ok m"
  using um_create [of all_ok] by (auto simp: all_ok_def)

definition sample_name :: cstring where
  "sample_name = bytes_of ''bob''"

lemma sample_user:
  obtains m0 m where "UserMng_Create all_ok = Some (Some m0)"
    "UserMng_Register (Some m0) (Some sample_name) (Some [49]) = Some (ST_OK, Some m)" "um_ok m"
    "um_rel m [sample_name \<mapsto> \<lparr>a_pwd = [49], a_fd = - 1, a_groups = []\<rparr>]"
proof -
  obtain m0 where m0: "UserMng_Create all_ok = Some (Some m0)" "um_rel m0 Map.empty" "um_ok m0" by (rule sample_mng)
  have "length sample_name \<le> CHAT_MAX_USERNAME_LEN" "length [49 :: byte] \<le> CHAT_MAX_PASSWORD_LEN"
    by (simp_all add: sample_name_def bytes_of_def size_defs)
  then show thesis
    using um.register_law [OF m0(2), of sample_name "[49]"] that m0 by auto
qed

text \<open>
  Registration. For names and passwords within the protocol's limits, registering a taken name is refused and
  changes nothing; otherwise the account is created, offline and in no group, or \<open>ST_ERR_SERVER_FULL\<close> is returned with
  all accounts unchanged, which happens only when an allocation fails. The indices of the manager stay consistent in every case.
\<close>

theorem register_outcomes:
  assumes "um_rel m U" and "length k \<le> CHAT_MAX_USERNAME_LEN" and "length p \<le> CHAT_MAX_PASSWORD_LEN"
  shows "\<exists>r m'. UserMng_Register (Some m) (Some k) (Some p) = Some (r, Some m') \<and>
    (if U k \<noteq> None then r = ST_ERR_USER_EXISTS \<and> m' = m
     else r = ST_OK \<and> um_rel m' (U(k := Some \<lparr>a_pwd = p, a_fd = - 1, a_groups = []\<rparr>)) \<or>
       r = ST_ERR_SERVER_FULL \<and> um_rel m' U \<and> \<not> um_ok m)"
  using um_register [OF assms] by blast

text \<open>
  C19: Login. Exactly when the socket is valid and free, the account exists, the password is right and the account is
  offline, the login succeeds and ties the account to the socket; every other case gives its own error,
  checked in this order, and changes nothing.
\<close>

theorem login_outcomes:
  assumes "um_rel m U"
  shows "\<exists>r m'. UserMng_Login (Some m) (Some k) (Some p) fd = Some (r, Some m') \<and>
    (if \<not> fd_ok fd then r = ST_ERR_PROTOCOL \<and> m' = m
     else if \<not> free_fd U fd then r = ST_ERR_ALREADY_LOGGED_IN \<and> m' = m
     else case U k of
       None \<Rightarrow> r = ST_ERR_USER_NOT_FOUND \<and> m' = m
     | Some x \<Rightarrow> if a_pwd x \<noteq> p then r = ST_ERR_BAD_PASSWORD \<and> m' = m
         else if a_fd x \<noteq> - 1 then r = ST_ERR_ALREADY_LOGGED_IN \<and> m' = m
         else r = ST_OK \<and> um_rel m' (U(k := Some (x\<lparr>a_fd := fd\<rparr>))))"
proof (cases "fd_ok fd")
  case True
  show ?thesis using um_login [OF assms True, of k p] True by (simp only: not_not if_False simp_thms) blast
qed (simp add: um_bad_fd)

theorem login_outcomes_witness:
  "\<exists>m0 m m'. UserMng_Create all_ok = Some (Some m0) \<and>
     UserMng_Register (Some m0) (Some sample_name) (Some [49]) = Some (ST_OK, Some m) \<and>
     UserMng_Login (Some m) (Some sample_name) (Some [49]) 4 = Some (ST_OK, Some m') \<and>
     UserMng_Login (Some m) (Some sample_name) (Some [50]) 4 = Some (ST_ERR_BAD_PASSWORD, Some m)"
proof -
  obtain m0 m where m: "UserMng_Create all_ok = Some (Some m0)"
    "UserMng_Register (Some m0) (Some sample_name) (Some [49]) = Some (ST_OK, Some m)"
    "um_rel m [sample_name \<mapsto> \<lparr>a_pwd = [49], a_fd = - 1, a_groups = []\<rparr>]" by (rule sample_user)
  have "fd_ok 4" by (simp add: fd_ok_def FD_SETSIZE_def)
  moreover have "free_fd [sample_name \<mapsto> \<lparr>a_pwd = [49], a_fd = - 1, a_groups = []\<rparr>] 4"
    by (auto simp: free_fd_def split: if_splits)
  ultimately show ?thesis
    using login_outcomes [OF m(3), of sample_name "[49]" 4] login_outcomes [OF m(3), of sample_name "[50]" 4] m(1,2)
    by auto
qed

text \<open>
  C20: Membership. For the user that is online on a socket: joining appends a group the user is not in yet (or fails for lack
  of memory and changes nothing) and refuses one the user is in; leaving removes exactly that group; logging out
  calls the callback once for each group, in the order they were joined, empties the list of groups and frees the socket. Each
  of the loops ends.
\<close>

theorem membership_outcomes:
  assumes "um_rel m U" and "fd_ok fd" and "U k = Some x" and "a_fd x = fd" and "distinct (a_groups x)"
  shows "(\<exists>r m'. UserMng_JoinGroup (Some m) fd (Some g) = Some (r, Some m') \<and>
      (if g \<in> set (a_groups x) then r = ST_ERR_ALREADY_IN_GROUP \<and> m' = m
       else r = ST_OK \<and> um_rel m' (U(k := Some (x\<lparr>a_groups := a_groups x @ [g]\<rparr>))) \<or>
         r = ST_ERR_SERVER_FULL \<and> um_rel m' U \<and> \<not> um_ok m)) \<and>
    (if g \<in> set (a_groups x)
      then \<exists>m'. UserMng_LeaveGroup (Some m) fd (Some g) = Some (ST_OK, Some m') \<and>
        um_rel m' (U(k := Some (x\<lparr>a_groups := removeAll g (a_groups x)\<rparr>)))
      else UserMng_LeaveGroup (Some m) fd (Some g) = Some (ST_ERR_NOT_IN_GROUP, Some m)) \<and>
    (\<exists>m'. UserMng_Logout (Some m) fd (Some (\<lambda>n ns. Some (ns @ [n]))) [] = Some (ST_OK, Some m', a_groups x) \<and>
      um_rel m' (U(k := Some (x\<lparr>a_fd := - 1, a_groups := []\<rparr>))))"
proof (intro conjI)
  have "leave_all (Some (\<lambda>n ns. Some (ns @ [n]))) gs c = Some (c @ gs)" for gs c :: "cstring list"
    by (induction gs arbitrary: c) auto
  from um_logout [OF assms(1-4) this, of "[]"]
  show "\<exists>m'. UserMng_Logout (Some m) fd (Some (\<lambda>n ns. Some (ns @ [n]))) [] = Some (ST_OK, Some m', a_groups x) \<and>
      um_rel m' (U(k := Some (x\<lparr>a_fd := - 1, a_groups := []\<rparr>)))" by auto
qed (use um_join [OF assms(1-4), of g] um_leave [OF assms, of g] in \<open>auto split: if_splits\<close>)

theorem membership_outcomes_witness:
  "\<exists>m m1 m2. UserMng_Login (Some m) (Some sample_name) (Some [49]) 4 = Some (ST_OK, Some m1) \<and>
     UserMng_LeaveGroup (Some m1) 4 (Some [65]) = Some (ST_ERR_NOT_IN_GROUP, Some m1) \<and>
     UserMng_Logout (Some m1) 4 (Some (\<lambda>n ns. Some (ns @ [n]))) [] = Some (ST_OK, Some m2, [])"
proof -
  let ?x = "\<lparr>a_pwd = [49], a_fd = - 1, a_groups = []\<rparr>"
  obtain m0 m where m: "um_rel m [sample_name \<mapsto> ?x]" by (rule sample_user)
  have fd: "fd_ok 4" by (simp add: fd_ok_def FD_SETSIZE_def)
  have "free_fd [sample_name \<mapsto> ?x] 4" by (auto simp: free_fd_def split: if_splits)
  then obtain m1 where m1: "UserMng_Login (Some m) (Some sample_name) (Some [49]) 4 = Some (ST_OK, Some m1)"
    "um_rel m1 [sample_name \<mapsto> ?x\<lparr>a_fd := 4\<rparr>]"
    using um.login_law [OF m fd, of sample_name "[49]"] by auto
  show ?thesis
    using membership_outcomes [OF m1(2) fd, of sample_name "?x\<lparr>a_fd := 4\<rparr>" "[65]"] m1(1) by auto
qed

text \<open>
  Destroying the manager frees every user, every list, every group name and the hash map with all its nodes and
  pairs, each once: no memory of the manager stays allocated.
\<close>

theorem user_mng_destroy:
  assumes "um_rel m U"
  shows "\<exists>h ks us l s. UserMng_Destroy (Some (Some m)) = Some (Some None, Some (Some (h, ks), us, l, s)) \<and>
    mem h = Map.empty \<and> mem ks = Map.empty \<and> mem us = Map.empty \<and> mem l = Map.empty \<and> mem s = Map.empty"
  by (rule um_destroy [OF assms])

end
