(* ===== verification/Group_Mng.thy ===== *)
theory Group_Mng
  imports Free_Mc_Queue Hash_Utils Hash_Map
begin

text \<open>
  The group manager of \<^verbatim>\<open>server/group_mng.c\<close> with the group record of \<^verbatim>\<open>server/group.h\<close>.

  A manager maps group names to groups. Its member \<open>ipPool\<close> points to the pool of multicast addresses, which is owned by the
  management layer; here the pool is an argument of the operations that use it, and they return it changed.
  Counting members is 64-bit arithmetic.

  \<open>gm_rel m G\<close> relates a manager to the groups \<open>G\<close>: for each name the multicast pair and the number of members. The locale
  \<open>group_store\<close> is the contract for the management layer.
\<close>

section \<open>Data\<close>

record Group =
  name :: cstring
  mcast_ip :: cstring
  mcast_port :: u16
  member_count :: size_t

record GroupMng =
  groupsByName :: "cstring HashMap option"
  groups :: "Group store"

record gm_alloc =
  ga_structs :: "nat \<Rightarrow> bool"
  ga_nodes :: "nat \<Rightarrow> bool"
  ga_kvps :: "nat \<Rightarrow> bool"
  ga_groups :: "nat \<Rightarrow> bool"

section \<open>Operations\<close>

definition GroupMng_Create :: "gm_alloc \<Rightarrow> FreeMcQueue option \<Rightarrow> GroupMng option option" where
  "GroupMng_Create ga pl =
     (if pl = None then Some None
      else if \<not> ga_structs ga 0 then Some None
      else do {
        hm \<leftarrow> HashMap_Create (\<lambda>i. ga_structs ga (i + 1)) (ga_nodes ga) (ga_kvps ga) 100
               (Some HashStringDjb2) (Some StringKeysEqual);
        if hm = None then Some None
        else Some (Some \<lparr>groupsByName = hm, groups = empty_store (ga_groups ga)\<rparr>)
      })"

definition DestroyGroupCallback :: "addr \<Rightarrow> Group store \<Rightarrow> Group store option" where
  "DestroyGroupCallback a s = (if a \<noteq> NULL then free s a else Some s)"

definition GroupMng_Destroy ::
  "GroupMng option option \<Rightarrow>
   (GroupMng option option \<times> ((heap \<times> cstring KeyValuePair store) option \<times> Group store) option) option"
where
  "GroupMng_Destroy pm =
     (case pm of
        Some (Some m) \<Rightarrow> do {
          (_, rest, s) \<leftarrow> HashMap_Destroy (Some (groupsByName m)) None (Some DestroyGroupCallback) (groups m);
          Some (Some None, Some (rest, s))
        }
      | _ \<Rightarrow> Some (pm, None))"

text \<open>
  The result of \<open>GroupMng_CreateGroup\<close> and \<open>GroupMng_JoinGroup\<close> is the status, the content of the output pointer (\<open>None\<close> when
  it is NULL) and the changed manager and pool. The initial content of the local variable \<open>pair\<close> is a parameter \<open>d\<close>.
\<close>

definition GroupMng_CreateGroup ::
  "McastPair \<Rightarrow> GroupMng option \<Rightarrow> FreeMcQueue option \<Rightarrow> cstring option \<Rightarrow> addr option \<Rightarrow>
   (ChatStatus \<times> addr option \<times> GroupMng option \<times> FreeMcQueue option) option"
where
  "GroupMng_CreateGroup d pm pl g out =
     (if pm = None \<or> g = None \<or> out = None then Some (ST_ERR_PROTOCOL, out, pm, pl)
      else let m = the pm in do {
        (r, _) \<leftarrow> HashMap_Find (groupsByName m) g (Some NULL);
        if r = MAP_SUCCESS then Some (ST_ERR_GROUP_EXISTS, out, pm, pl)
        else do {
          (t, pr, pl) \<leftarrow> FreeMcQueue_Take pl (Some d);
          if t = 0 then Some (ST_ERR_SERVER_FULL, out, pm, pl)
          else
            let (newGroup, gs) = malloc (groups m) \<lparr>name = [], mcast_ip = [], mcast_port = 0, member_count = 0\<rparr>
            in if newGroup = NULL
            then do {
              (_, pl) \<leftarrow> FreeMcQueue_Return pl pr;
              Some (ST_ERR_PROTOCOL, out, Some (m\<lparr>groups := gs\<rparr>), pl)
            }
            else do {
              p \<leftarrow> pr;
              ip \<leftarrow> strcpy CHAT_MAX_IP_STR_LEN (mp_ip p);
              let n = strncpy CHAT_MAX_GROUPNAME_LEN (the g);
              gs \<leftarrow> put gs newGroup \<lparr>name = n, mcast_ip = ip, mcast_port = mp_port p, member_count = 1\<rparr>;
              (r, hm) \<leftarrow> HashMap_Insert (groupsByName m) (Some n) newGroup;
              let m = m\<lparr>groupsByName := hm\<rparr>;
              if r \<noteq> MAP_SUCCESS
              then do {
                (_, pl) \<leftarrow> FreeMcQueue_Return pl pr;
                gs \<leftarrow> free gs newGroup;
                Some (ST_ERR_PROTOCOL, out, Some (m\<lparr>groups := gs\<rparr>), pl)
              }
              else Some (ST_OK, Some newGroup, Some (m\<lparr>groups := gs\<rparr>), pl)
            }}})"

definition GroupMng_JoinGroup ::
  "GroupMng option \<Rightarrow> cstring option \<Rightarrow> addr option \<Rightarrow> (ChatStatus \<times> addr option \<times> GroupMng option) option"
where
  "GroupMng_JoinGroup pm g out =
     (if pm = None \<or> g = None \<or> out = None then Some (ST_ERR_PROTOCOL, out, pm)
      else let m = the pm in do {
        (r, a) \<leftarrow> HashMap_Find (groupsByName m) g (Some NULL);
        if r \<noteq> MAP_SUCCESS then Some (ST_ERR_GROUP_NOT_FOUND, out, pm)
        else do {
          x \<leftarrow> deref (groups m) (the a);
          gs \<leftarrow> put (groups m) (the a) (x\<lparr>member_count := member_count x + 1\<rparr>);
          Some (ST_OK, a, Some (m\<lparr>groups := gs\<rparr>))
        }})"

definition GroupMng_LeaveGroup ::
  "GroupMng option \<Rightarrow> FreeMcQueue option \<Rightarrow> cstring option \<Rightarrow> (ChatStatus \<times> GroupMng option \<times> FreeMcQueue option) option"
where
  "GroupMng_LeaveGroup pm pl g =
     (if pm = None \<or> g = None then Some (ST_ERR_PROTOCOL, pm, pl)
      else let m = the pm in do {
        (r, a) \<leftarrow> HashMap_Find (groupsByName m) g (Some NULL);
        if r \<noteq> MAP_SUCCESS then Some (ST_ERR_GROUP_NOT_FOUND, pm, pl)
        else do {
          x \<leftarrow> deref (groups m) (the a);
          let x = (if member_count x > 0 then x\<lparr>member_count := member_count x - 1\<rparr> else x);
          gs \<leftarrow> put (groups m) (the a) x;
          let m = m\<lparr>groups := gs\<rparr>;
          if member_count x = 0
          then do {
            ip \<leftarrow> strcpy CHAT_MAX_IP_STR_LEN (mcast_ip x);
            (_, pl) \<leftarrow> FreeMcQueue_Return pl (Some \<lparr>mp_ip = ip, mp_port = mcast_port x\<rparr>);
            (_, _, pVal, hm) \<leftarrow> HashMap_Remove (groupsByName m) g (Some None) (Some NULL);
            gs \<leftarrow> DestroyGroupCallback (the pVal) gs;
            Some (ST_OK, Some (m\<lparr>groupsByName := hm, groups := gs\<rparr>), pl)
          }
          else Some (ST_OK, Some m, pl)
        }})"

section \<open>Groups\<close>

record GroupInfo =
  i_pair :: McastPair
  i_count :: nat

definition info :: "Group \<Rightarrow> GroupInfo" where
  "info x = \<lparr>i_pair = \<lparr>mp_ip = mcast_ip x, mp_port = mcast_port x\<rparr>, i_count = unat (member_count x)\<rparr>"

definition gm_groups :: "Group store \<Rightarrow> (cstring \<rightharpoonup> addr) \<Rightarrow> (cstring \<rightharpoonup> GroupInfo) \<Rightarrow> bool" where
  "gm_groups s M G \<longleftrightarrow> store_wf s \<and> (\<forall>k a. M k = Some a \<longleftrightarrow> (\<exists>x. mem s a = Some x \<and> name x = k)) \<and>
     (\<forall>a x. mem s a = Some x \<longrightarrow> pair_ok (i_pair (info x))) \<and>
     G = (\<lambda>k. Option.bind (M k) (\<lambda>a. map_option info (mem s a)))"

definition gm_rel :: "GroupMng \<Rightarrow> (cstring \<rightharpoonup> GroupInfo) \<Rightarrow> bool" where
  "gm_rel m G \<longleftrightarrow> (\<exists>hm M. groupsByName m = Some hm \<and> hm_rel hm M \<and> gm_groups (groups m) M G)"

definition gm_ok :: "GroupMng \<Rightarrow> bool" where
  "gm_ok m \<longleftrightarrow> hm_ok (the (groupsByName m)) \<and> (\<forall>n. alloc_ok (groups m) n)"

lemma gm_groupsD:
  assumes "gm_groups s M G"
  shows "store_wf s" "M k = Some a \<longleftrightarrow> (\<exists>x. mem s a = Some x \<and> name x = k)"
    "mem s a = Some x \<Longrightarrow> pair_ok (i_pair (info x))" "G k = Option.bind (M k) (\<lambda>a. map_option info (mem s a))"
    "G k = None \<longleftrightarrow> M k = None"
    "mem s a = Some x \<Longrightarrow> mem s b = Some y \<Longrightarrow> name x = name y \<Longrightarrow> a = b"
proof -
  show M: "M k = Some a \<longleftrightarrow> (\<exists>x. mem s a = Some x \<and> name x = k)" for k a
    using assms by (simp add: gm_groups_def)
  show G: "G k = Option.bind (M k) (\<lambda>a. map_option info (mem s a))"
    using assms by (simp add: gm_groups_def)
  show "G k = None \<longleftrightarrow> M k = None"
    using M [of k] unfolding G by (cases "M k") auto
  show "a = b" if "mem s a = Some x" "mem s b = Some y" "name x = name y"
    using M [of "name x" a] M [of "name x" b] that by auto
qed (use assms in \<open>auto simp: gm_groups_def\<close>)

lemma gm_group:
  assumes "gm_groups s M G" "G k = Some i"
  obtains a x where "M k = Some a" "mem s a = Some x" "name x = k" "i = info x" "a \<noteq> NULL" "pair_ok (i_pair i)"
proof -
  note D = gm_groupsD [OF assms(1)]
  obtain a where a: "M k = Some a" using D(5) [of k] assms(2) by (cases "M k") auto
  obtain x where x: "mem s a = Some x" "name x = k" using D(2) [of k a] a by auto
  have "i = info x" using D(4) [of k] assms(2) a x(1) by simp
  then show thesis using that a x D(3) [OF x(1)] store_wf_live [OF D(1) x(1)] by simp
qed

lemma gm_groups_same: "gm_groups s M G \<Longrightarrow> store_wf s' \<Longrightarrow> mem s' = mem s \<Longrightarrow> gm_groups s' M G"
  by (simp add: gm_groups_def)

lemma gm_groups_put:
  assumes R: "gm_groups s M G" and a: "mem s a = Some x" "mem s' = (mem s)(a := Some x')" "store_wf s'"
    and x': "name x' = name x" "i_pair (info x') = i_pair (info x)"
  shows "gm_groups s' M (G(name x := Some (info x')))"
proof -
  note D = gm_groupsD [OF R]
  have "M k = Some b \<longleftrightarrow> (\<exists>y. mem s' b = Some y \<and> name y = k)" for k b
    unfolding D(2) [of k b] using a(1,2) x'(1) by (cases "b = a") auto
  moreover have "pair_ok (i_pair (info y))" if "mem s' b = Some y" for b y
    using that D(3) a(1,2) x'(2) by (cases "b = a") auto
  moreover have "(G(name x := Some (info x'))) k = Option.bind (M k) (\<lambda>b. map_option info (mem s' b))" for k
  proof (cases "M k")
    case None
    then have "k \<noteq> name x" using D(2) [of k a] a(1) by auto
    then show ?thesis using None D(4) [of k] by simp
  next
    case (Some b)
    obtain y where y: "mem s b = Some y" "name y = k" using Some D(2) by auto
    show ?thesis
    proof (cases "b = a")
      case True
      then show ?thesis using Some y a by simp
    next
      case False
      then have "k \<noteq> name x" using D(6) [OF y(1) a(1)] y(2) by auto
      then show ?thesis using False Some y a(2) D(4) [of k] by simp
    qed
  qed
  ultimately show ?thesis
    unfolding gm_groups_def using a(3) by (intro conjI) (blast | (rule ext, simp))+
qed

lemma gm_groups_add:
  assumes R: "gm_groups s M G" and a: "mem s a = None" "mem s' = (mem s)(a := Some x)" "store_wf s'"
    and x: "M (name x) = None" "pair_ok (i_pair (info x))"
  shows "gm_groups s' (M(name x := Some a)) (G(name x := Some (info x)))"
proof -
  note D = gm_groupsD [OF R]
  have nu: "name y \<noteq> name x" if "mem s b = Some y" for b y
    using D(2) [of "name y" b] that x by auto
  have "(M(name x := Some a)) k = Some b \<longleftrightarrow> (\<exists>y. mem s' b = Some y \<and> name y = k)" for k b
  proof (cases "b = a")
    case True
    then show ?thesis using D(2) [of k a] a by auto
  next
    case False
    then show ?thesis using D(2) [of k b] nu [of b] a(2) by auto
  qed
  moreover have "pair_ok (i_pair (info y))" if "mem s' b = Some y" for b y
    using that D(3) a(2) x(2) by (cases "b = a") auto
  moreover have "(G(name x := Some (info x))) k = Option.bind ((M(name x := Some a)) k) (\<lambda>b. map_option info (mem s' b))" for k
  proof (cases "k = name x")
    case False
    then show ?thesis using D(2) [of k] D(4) [of k] a by (cases "M k") auto
  qed (use a in simp)
  ultimately show ?thesis
    unfolding gm_groups_def using a(3) by (intro conjI) (blast | (rule ext, simp))+
qed

lemma gm_groups_del:
  assumes R: "gm_groups s M G" and a: "mem s a = Some x" "mem s' = (mem s)(a := None)" "store_wf s'"
  shows "gm_groups s' (M(name x := None)) (G(name x := None))"
proof -
  note D = gm_groupsD [OF R]
  have nu: "name y \<noteq> name x" if "mem s b = Some y" "b \<noteq> a" for b y
    using D(6) [OF that(1) a(1)] that(2) by auto
  have "(M(name x := None)) k = Some b \<longleftrightarrow> (\<exists>y. mem s' b = Some y \<and> name y = k)" for k b
    using D(2) [of k b] a(1,2) nu [of b] by (cases "b = a") auto
  moreover have "pair_ok (i_pair (info y))" if "mem s' b = Some y" for b y
    using that D(3) a(2) by (auto split: if_splits)
  moreover have "(G(name x := None)) k = Option.bind ((M(name x := None)) k) (\<lambda>b. map_option info (mem s' b))" for k
  proof (cases "k = name x")
    case False
    show ?thesis
    proof (cases "M k")
      case (Some b)
      obtain y where "mem s b = Some y" "name y = k" using Some D(2) by auto
      then have "b \<noteq> a" using False a(1) by auto
      then show ?thesis using False Some D(4) [of k] a(2) by simp
    qed (use False D(4) [of k] in simp)
  qed simp
  ultimately show ?thesis
    unfolding gm_groups_def using a(3) by (intro conjI) (blast | (rule ext, simp))+
qed

section \<open>The operations on groups\<close>

lemma gm_create:
  "if ga_structs ga 0 \<and> ga_structs ga 1 \<and> ga_structs ga 2
   then \<exists>m. GroupMng_Create ga (Some f) = Some (Some m) \<and> gm_rel m Map.empty \<and>
     gm_ok m = ((\<forall>n. ga_nodes ga n) \<and> (\<forall>n. ga_kvps ga n) \<and> (\<forall>n. ga_groups ga n))
   else GroupMng_Create ga (Some f) = Some None"
proof -
  have eq: "StringKeysEqual (Some k) (Some k') \<noteq> 0 \<longleftrightarrow> k = k'" for k k' by simp
  have "(101 :: size_t) \<noteq> 0" "(100 :: size_t) \<noteq> 0" by simp_all
  note C = hm_create [OF GetNextPrime_100 this eq, of "\<lambda>i. ga_structs ga (i + 1)" "ga_nodes ga" "ga_kvps ga" HashStringDjb2]
  show ?thesis
  proof (cases "ga_structs ga 0 \<and> ga_structs ga 1 \<and> ga_structs ga 2")
    case False
    then show ?thesis using C by (auto simp: GroupMng_Create_def numeral_2_eq_2)
  next
    case True
    then obtain hm where hm: "HashMap_Create (\<lambda>i. ga_structs ga (i + 1)) (ga_nodes ga) (ga_kvps ga) 100
        (Some HashStringDjb2) (Some StringKeysEqual) = Some (Some hm)" "hm_rel hm Map.empty"
        "hm_ok hm = ((\<forall>n. ga_nodes ga n) \<and> (\<forall>n. ga_kvps ga n))"
      using C by (auto simp: numeral_2_eq_2)
    have "gm_groups (empty_store (ga_groups ga)) Map.empty Map.empty"
      by (simp add: gm_groups_def) (simp add: empty_store_def)
    then show ?thesis
      using True hm by (auto simp: GroupMng_Create_def gm_rel_def gm_ok_def) (auto simp: empty_store_def)
  qed
qed

lemma destroy_groups:
  "store_wf s \<Longrightarrow> distinct (map snd es) \<Longrightarrow> set (map snd es) = dom (mem s) \<Longrightarrow>
   \<exists>s'. destroy_entries None (Some DestroyGroupCallback) es s = Some s' \<and> mem s' = Map.empty"
proof (induction es arbitrary: s)
  case (Cons e es)
  obtain k a where e: "e = (k, a)" by (cases e)
  have "a \<in> dom (mem s)" using Cons.prems(3) e by auto
  then obtain x where x: "mem s a = Some x" by auto
  let ?s = "s\<lparr>mem := (mem s)(a := None)\<rparr>"
  have f: "DestroyGroupCallback a s = Some ?s"
    using x store_wf_live [OF Cons.prems(1) x] by (simp add: DestroyGroupCallback_def free_def)
  have "store_wf ?s" using Cons.prems(1) by (auto simp: store_wf_def)
  moreover have "set (map snd es) = dom (mem ?s)" using Cons.prems(2,3) e by auto
  ultimately have "\<exists>s'. destroy_entries None (Some DestroyGroupCallback) es ?s = Some s' \<and> mem s' = Map.empty"
    using Cons.IH [of ?s] Cons.prems(2) by (metis distinct.simps(2) list.simps(9))
  then show ?case using f e by (simp add: run_destructor_def)
qed (simp add: dom_def, metis)

lemma gm_destroy:
  assumes "gm_rel m G"
  shows "\<exists>h ks s. GroupMng_Destroy (Some (Some m)) = Some (Some None, Some (Some (h, ks), s)) \<and>
    mem h = Map.empty \<and> mem ks = Map.empty \<and> mem s = Map.empty"
proof -
  obtain hm M where H: "groupsByName m = Some hm" "hm_rel hm M" "gm_groups (groups m) M G"
    using assms by (auto simp: gm_rel_def)
  note D = gm_groupsD [OF H(3)]
  obtain es where es: "distinct (map fst es)" "map_of es = M"
    and destroy: "\<And>c c'. destroy_entries None (Some DestroyGroupCallback) es c = Some c' \<Longrightarrow>
      \<exists>h s. HashMap_Destroy (Some (Some hm)) None (Some DestroyGroupCallback) c = Some (Some None, Some (h, s), c') \<and>
        mem h = Map.empty \<and> mem s = Map.empty"
    using hm_destroy [OF H(2), of None "Some DestroyGroupCallback"] by metis
  have in_es: "(k, a) \<in> set es \<longleftrightarrow> (\<exists>x. mem (groups m) a = Some x \<and> name x = k)" for k a
    using map_of_eq_Some_iff [OF es(1), of k a] es(2) D(2) [of k a] by simp
  have "inj_on snd (set es)"
  proof (rule inj_onI)
    fix x y assume "x \<in> set es" "y \<in> set es" "snd x = snd y"
    then show "x = y" using in_es [of "fst x" "snd x"] in_es [of "fst y" "snd y"] by (metis option.inject prod.collapse)
  qed
  moreover have "distinct es" using es(1) by (simp add: distinct_map)
  moreover have "set (map snd es) = dom (mem (groups m))" using in_es by force
  ultimately obtain s where "destroy_entries None (Some DestroyGroupCallback) es (groups m) = Some s" "mem s = Map.empty"
    using destroy_groups [OF D(1)] by (metis distinct_map)
  then show ?thesis using destroy H(1) by (fastforce simp: GroupMng_Destroy_def)
qed

lemma gm_find:
  assumes "groupsByName m = Some hm" "hm_rel hm M" "gm_groups (groups m) M G"
  shows "G k = None \<Longrightarrow> HashMap_Find (groupsByName m) (Some k) (Some NULL) = Some (MAP_KEY_NOT_FOUND_ERROR, Some NULL)"
    "M k = Some a \<Longrightarrow> HashMap_Find (groupsByName m) (Some k) (Some NULL) = Some (MAP_SUCCESS, Some a)"
  using hm.find_absent [OF assms(2)] hm.find_found [OF assms(2)] gm_groupsD(5) [OF assms(3)] assms(1) by simp_all

lemma gm_create_exists:
  assumes R: "gm_rel m G" and k: "G k = Some i"
  shows "GroupMng_CreateGroup d (Some m) pl (Some k) (Some out) = Some (ST_ERR_GROUP_EXISTS, Some out, Some m, pl)"
proof -
  obtain hm M where H: "groupsByName m = Some hm" "hm_rel hm M" "gm_groups (groups m) M G"
    using R by (auto simp: gm_rel_def)
  obtain a where "M k = Some a" by (rule gm_group [OF H(3) k])
  then show ?thesis using gm_find(2) [OF H] by (simp add: GroupMng_CreateGroup_def)
qed

lemma gm_create_full:
  assumes R: "gm_rel m G" and k: "G k = None" and P: "fmq_rel f []"
  shows "\<exists>f'. GroupMng_CreateGroup d (Some m) (Some f) (Some k) (Some out) =
    Some (ST_ERR_SERVER_FULL, Some out, Some m, Some f') \<and> fmq_rel f' [] \<and> fmq_ok f' = fmq_ok f"
proof -
  obtain hm M where H: "groupsByName m = Some hm" "hm_rel hm M" "gm_groups (groups m) M G"
    using R by (auto simp: gm_rel_def)
  obtain f' where "FreeMcQueue_Take (Some f) (Some d) = Some (0, Some d, Some f')" "fmq_rel f' []" "fmq_ok f' = fmq_ok f"
    by (rule fmq_take_empty [OF P])
  then show ?thesis using gm_find(1) [OF H k] by (simp add: GroupMng_CreateGroup_def)
qed

text \<open>The pair goes back to the pool when the creation fails; it is lost only when this allocation fails, too.\<close>

definition gives_back :: "FreeMcQueue \<Rightarrow> FreeMcQueue \<Rightarrow> McastPair list \<Rightarrow> McastPair \<Rightarrow> bool" where
  "gives_back f f' ps p \<longleftrightarrow> fmq_ok f' = fmq_ok f \<and> (fmq_rel f' (ps @ [p]) \<or> fmq_rel f' ps \<and> \<not> fmq_ok f)"

lemma gives_back_return:
  assumes "fmq_rel f ps" "pair_ok p" "length ps < 255"
  obtains r f' where "FreeMcQueue_Return (Some f) (Some p) = Some (r, Some f')" "gives_back f f' ps p"
  by (rule fmq_return [OF assms]) (auto simp: gives_back_def)

lemma gm_create_new:
  assumes R: "gm_rel m G" and k: "G k = None" "length k \<le> CHAT_MAX_GROUPNAME_LEN" and P: "fmq_rel f (p # ps)"
  obtains (created) a x m' f' where
    "GroupMng_CreateGroup d (Some m) (Some f) (Some k) (Some out) = Some (ST_OK, Some a, Some m', Some f')"
    "a \<noteq> NULL" "deref (groups m') a = Some x" "info x = \<lparr>i_pair = p, i_count = 1\<rparr>"
    "gm_rel m' (G(k := Some \<lparr>i_pair = p, i_count = 1\<rparr>))" "gm_ok m' = gm_ok m" "fmq_rel f' ps" "fmq_ok f' = fmq_ok f"
  | (failed) m' f' where
    "GroupMng_CreateGroup d (Some m) (Some f) (Some k) (Some out) = Some (ST_ERR_PROTOCOL, Some out, Some m', Some f')"
    "gm_rel m' G" "gm_ok m' = gm_ok m" "\<not> gm_ok m" "gives_back f f' ps p"
proof -
  obtain hm M where H: "groupsByName m = Some hm" "hm_rel hm M" "gm_groups (groups m) M G"
    using R by (auto simp: gm_rel_def)
  note D = gm_groupsD [OF H(3)]
  note find = gm_find(1) [OF H k(1)]
  have Mk: "M k = None" using D(5) k(1) by simp
  obtain f1 where f1: "FreeMcQueue_Take (Some f) (Some d) = Some (1, Some p, Some f1)" "fmq_rel f1 ps" "fmq_ok f1 = fmq_ok f"
    by (rule fmq_take [OF P])
  have p: "pair_ok p" "length ps < 255" using fmq_rel_pair_ok [OF P] fmq_rel_length [OF P] by auto
  then have cp: "strcpy CHAT_MAX_IP_STR_LEN (mp_ip p) = Some (mp_ip p)" by (simp add: strcpy_def pair_ok_def)
  obtain r f2 where f2: "FreeMcQueue_Return (Some f1) (Some p) = Some (r, Some f2)" "gives_back f1 f2 ps p"
    by (rule gives_back_return [OF f1(2) p])
  then have f2': "gives_back f f2 ps p" using f1(3) by (simp add: gives_back_def)
  let ?v = "\<lparr>name = [], mcast_ip = [], mcast_port = 0, member_count = 0\<rparr>"
  let ?x = "\<lparr>name = k, mcast_ip = mp_ip p, mcast_port = mp_port p, member_count = 1\<rparr>"
  have ix: "info ?x = \<lparr>i_pair = p, i_count = 1\<rparr>" by (simp add: info_def)
  obtain a s where ms: "malloc (groups m) ?v = (a, s)" by fastforce
  note ws = store_wf_malloc [OF D(1) ms]
  from D(1) ms show thesis
  proof (cases rule: malloc_cases)
    case fails
    have no: "\<not> gm_ok m" using ms fails(1) D(1) by (auto simp: malloc_def gm_ok_def store_wf_def split: if_splits)
    have "gm_rel (m\<lparr>groups := s\<rparr>) G"
      unfolding gm_rel_def using H gm_groups_same [OF H(3) ws fails(2)] by (intro exI [of _ hm] exI [of _ M]) simp
    moreover have "GroupMng_CreateGroup d (Some m) (Some f) (Some k) (Some out) =
        Some (ST_ERR_PROTOCOL, Some out, Some (m\<lparr>groups := s\<rparr>), Some f2)"
      using find f1(1) f2(1) ms fails(1) by (simp add: GroupMng_CreateGroup_def)
    ultimately show thesis using failed f2' no fails(3) by (auto simp: gm_ok_def)
  next
    case fresh
    let ?s = "s\<lparr>mem := (mem s)(a := Some ?x)\<rparr>"
    have put: "put s a ?x = Some ?s" using fresh(3) by (simp add: put_def)
    have s': "mem ?s = (mem (groups m))(a := Some ?x)" using fresh(3) by simp
    have ws': "store_wf ?s" by (rule store_wf_put [OF ws put])
    have nm: "strncpy CHAT_MAX_GROUPNAME_LEN k = k" using k(2) by simp
    show thesis
    proof (cases rule: hm.insert_cases [OF H(2) Mk, of a])
      case inserted: (1 hm')
      let ?m = "m\<lparr>groupsByName := Some hm', groups := ?s\<rparr>"
      have "gm_groups ?s (M(k := Some a)) (G(k := Some \<lparr>i_pair = p, i_count = 1\<rparr>))"
        using gm_groups_add [OF H(3) fresh(2) s' ws'] Mk p(1) ix by simp
      then have "gm_rel ?m (G(k := Some \<lparr>i_pair = p, i_count = 1\<rparr>))"
        unfolding gm_rel_def using inserted(2) by auto
      moreover have "GroupMng_CreateGroup d (Some m) (Some f) (Some k) (Some out) = Some (ST_OK, Some a, Some ?m, Some f1)"
        using find f1(1) ms fresh(1) cp nm put inserted(1) H(1) by (simp add: GroupMng_CreateGroup_def Let_def)
      ultimately show thesis
        using created [of a ?m f1 ?x] ix fresh(1,4) f1(2,3) inserted(3) H(1) by (auto simp: deref_def gm_ok_def)
    next
      case fails: (2 hm')
      have fr: "free ?s a = Some (?s\<lparr>mem := (mem (groups m))\<rparr>)"
        using fresh by (simp add: free_def fun_upd_idem)
      let ?s' = "?s\<lparr>mem := (mem (groups m))\<rparr>"
      let ?m = "m\<lparr>groupsByName := Some hm', groups := ?s'\<rparr>"
      have "gm_groups ?s' M G"
        by (rule gm_groups_same [OF H(3) store_wf_free [OF ws' fr]]) simp
      then have "gm_rel ?m G" unfolding gm_rel_def using fails(2) by auto
      moreover have "GroupMng_CreateGroup d (Some m) (Some f) (Some k) (Some out) =
          Some (ST_ERR_PROTOCOL, Some out, Some ?m, Some f2)"
        using find f1(1) f2(1) ms fresh(1) cp nm put fails(1) H(1) fr by (simp add: GroupMng_CreateGroup_def Let_def)
      ultimately show thesis
        using failed [of ?m f2] f2' fails(3,4) fresh(4) H(1) by (auto simp: gm_ok_def)
    qed
  qed
qed

lemma gm_absent:
  assumes R: "gm_rel m G" and k: "G k = None"
  shows "GroupMng_JoinGroup (Some m) (Some k) (Some out) = Some (ST_ERR_GROUP_NOT_FOUND, Some out, Some m)"
    "GroupMng_LeaveGroup (Some m) pl (Some k) = Some (ST_ERR_GROUP_NOT_FOUND, Some m, pl)"
proof -
  obtain hm M where H: "groupsByName m = Some hm" "hm_rel hm M" "gm_groups (groups m) M G"
    using R by (auto simp: gm_rel_def)
  show "GroupMng_JoinGroup (Some m) (Some k) (Some out) = Some (ST_ERR_GROUP_NOT_FOUND, Some out, Some m)"
    "GroupMng_LeaveGroup (Some m) pl (Some k) = Some (ST_ERR_GROUP_NOT_FOUND, Some m, pl)"
    using gm_find(1) [OF H k] by (simp_all add: GroupMng_JoinGroup_def GroupMng_LeaveGroup_def)
qed

lemma gm_join:
  assumes R: "gm_rel m G" and k: "G k = Some i" "i_count i < 2 ^ 64 - 1"
  obtains a x m' where "GroupMng_JoinGroup (Some m) (Some k) (Some out) = Some (ST_OK, Some a, Some m')" "a \<noteq> NULL"
    "deref (groups m') a = Some x" "info x = i\<lparr>i_count := i_count i + 1\<rparr>"
    "gm_rel m' (G(k := Some (i\<lparr>i_count := i_count i + 1\<rparr>)))" "gm_ok m' = gm_ok m"
proof -
  obtain hm M where H: "groupsByName m = Some hm" "hm_rel hm M" "gm_groups (groups m) M G"
    using R by (auto simp: gm_rel_def)
  obtain a x where a: "M k = Some a" "mem (groups m) a = Some x" "name x = k" "i = info x" "a \<noteq> NULL"
    by (rule gm_group [OF H(3) k(1)])
  let ?x = "x\<lparr>member_count := member_count x + 1\<rparr>"
  let ?s = "(groups m)\<lparr>mem := (mem (groups m))(a := Some ?x)\<rparr>"
  have c: "unat (member_count x + 1) = unat (member_count x) + 1"
    using k(2) a(4) by (simp add: info_def unat_word_ariths)
  then have ix: "info ?x = i\<lparr>i_count := i_count i + 1\<rparr>" using a(4) by (simp add: info_def)
  have put: "put (groups m) a ?x = Some ?s" using a(2) by (simp add: put_def)
  have "gm_groups ?s M (G(k := Some (info ?x)))"
    using gm_groups_put [where x' = ?x, OF H(3) a(2) _ store_wf_put [OF gm_groupsD(1) [OF H(3)] put]] a(3) by (simp add: info_def)
  then have "gm_rel (m\<lparr>groups := ?s\<rparr>) (G(k := Some (i\<lparr>i_count := i_count i + 1\<rparr>)))"
    unfolding gm_rel_def using H ix by auto
  moreover have "GroupMng_JoinGroup (Some m) (Some k) (Some out) = Some (ST_OK, Some a, Some (m\<lparr>groups := ?s\<rparr>))"
    using gm_find(2) [OF H a(1)] a(2) put by (simp add: GroupMng_JoinGroup_def deref_def)
  ultimately show thesis
    using that [of a "m\<lparr>groups := ?s\<rparr>" ?x] ix a(5) by (simp add: deref_def gm_ok_def)
qed

lemma gm_leave_many:
  assumes R: "gm_rel m G" and k: "G k = Some i" "1 < i_count i"
  obtains m' where "GroupMng_LeaveGroup (Some m) pl (Some k) = Some (ST_OK, Some m', pl)"
    "gm_rel m' (G(k := Some (i\<lparr>i_count := i_count i - 1\<rparr>)))" "gm_ok m' = gm_ok m"
proof -
  obtain hm M where H: "groupsByName m = Some hm" "hm_rel hm M" "gm_groups (groups m) M G"
    using R by (auto simp: gm_rel_def)
  obtain a x where a: "M k = Some a" "mem (groups m) a = Some x" "name x = k" "i = info x" "a \<noteq> NULL"
    by (rule gm_group [OF H(3) k(1)])
  let ?x = "x\<lparr>member_count := member_count x - 1\<rparr>"
  let ?s = "(groups m)\<lparr>mem := (mem (groups m))(a := Some ?x)\<rparr>"
  have n: "1 < unat (member_count x)" using k(2) a(4) by (simp add: info_def)
  then have z: "member_count x \<noteq> 0" by (metis not_less_zero unat_0)
  then have c: "unat (member_count x - 1) = unat (member_count x) - 1" by (simp add: unat_minus_one)
  then have nz: "member_count x - 1 \<noteq> 0" using n by (metis diff_is_0_eq not_less unat_0)
  have ix: "info ?x = i\<lparr>i_count := i_count i - 1\<rparr>" using a(4) c by (simp add: info_def)
  have put: "put (groups m) a ?x = Some ?s" using a(2) by (simp add: put_def)
  have "gm_groups ?s M (G(k := Some (info ?x)))"
    using gm_groups_put [where x' = ?x, OF H(3) a(2) _ store_wf_put [OF gm_groupsD(1) [OF H(3)] put]] a(3) by (simp add: info_def)
  then have "gm_rel (m\<lparr>groups := ?s\<rparr>) (G(k := Some (i\<lparr>i_count := i_count i - 1\<rparr>)))"
    unfolding gm_rel_def using H ix by auto
  moreover have "GroupMng_LeaveGroup (Some m) pl (Some k) = Some (ST_OK, Some (m\<lparr>groups := ?s\<rparr>), pl)"
    using gm_find(2) [OF H a(1)] a(2) put z nz
    by (simp add: GroupMng_LeaveGroup_def deref_def Let_def word_greater_zero_iff)
  ultimately show thesis
    using that [of "m\<lparr>groups := ?s\<rparr>"] by (simp add: gm_ok_def)
qed

lemma gm_leave_last:
  assumes R: "gm_rel m G" and k: "G k = Some i" "i_count i \<le> 1" and P: "fmq_rel f ps" "length ps < 255"
  obtains m' f' where "GroupMng_LeaveGroup (Some m) (Some f) (Some k) = Some (ST_OK, Some m', Some f')"
    "gm_rel m' (G(k := None))" "gm_ok m' = gm_ok m" "gives_back f f' ps (i_pair i)"
proof -
  obtain hm M where H: "groupsByName m = Some hm" "hm_rel hm M" "gm_groups (groups m) M G"
    using R by (auto simp: gm_rel_def)
  obtain a x where a: "M k = Some a" "mem (groups m) a = Some x" "name x = k" "i = info x" "a \<noteq> NULL" "pair_ok (i_pair i)"
    by (rule gm_group [OF H(3) k(1)])
  let ?x = "x\<lparr>member_count := 0\<rparr>"
  let ?s = "(groups m)\<lparr>mem := (mem (groups m))(a := Some ?x)\<rparr>"
  let ?s' = "(groups m)\<lparr>mem := (mem (groups m))(a := None)\<rparr>"
  have n: "unat (member_count x) \<le> 1" using k(2) a(4) by (simp add: info_def)
  have x: "(if member_count x > 0 then x\<lparr>member_count := member_count x - 1\<rparr> else x) = ?x"
  proof (cases "member_count x = 0")
    case False
    then have "unat (member_count x) = unat (1 :: size_t)" using n by (simp add: unat_eq_0 le_Suc_eq)
    then have "member_count x = 1" by (simp only: word_unat_eq_iff)
    then show ?thesis by simp
  qed simp
  have put: "put (groups m) a ?x = Some ?s" using a(2) by (simp add: put_def)
  note ws = store_wf_put [OF gm_groupsD(1) [OF H(3)] put]
  have fr: "DestroyGroupCallback a ?s = Some ?s'" using a(5) by (simp add: DestroyGroupCallback_def free_def)
  have ws': "store_wf ?s'" using store_wf_free [OF ws, of a ?s'] fr a(5) by (simp add: DestroyGroupCallback_def)
  obtain r f' where f': "FreeMcQueue_Return (Some f) (Some (i_pair i)) = Some (r, Some f')" "gives_back f f' ps (i_pair i)"
    by (rule gives_back_return [OF P(1) a(6) P(2)])
  obtain hm' where hm': "HashMap_Remove (Some hm) (Some k) (Some None) (Some NULL) = Some (MAP_SUCCESS, Some (Some k), Some a, Some hm')"
      "hm_rel hm' (M(k := None))" "hm_ok hm' = hm_ok hm"
    by (rule hm.remove_gives [OF H(2) a(1)])
  let ?m = "m\<lparr>groupsByName := Some hm', groups := ?s'\<rparr>"
  have "gm_groups ?s' (M(k := None)) (G(k := None))"
    using gm_groups_del [OF H(3) a(2) _ ws'] a(3) by simp
  then have "gm_rel ?m (G(k := None))" unfolding gm_rel_def using hm'(2) by auto
  moreover have "i_pair i = \<lparr>mp_ip = mcast_ip x, mp_port = mcast_port x\<rparr>" using a(4) by (simp add: info_def)
  moreover from this have "strcpy CHAT_MAX_IP_STR_LEN (mcast_ip x) = Some (mcast_ip x)"
    using a(6) by (simp add: strcpy_def pair_ok_def)
  ultimately have "GroupMng_LeaveGroup (Some m) (Some f) (Some k) = Some (ST_OK, Some ?m, Some f')"
    using gm_find(2) [OF H a(1)] a(2) put f'(1) hm'(1) H(1) fr
    by (simp add: GroupMng_LeaveGroup_def deref_def Let_def x)
  then show thesis
    using that [of ?m f'] \<open>gm_rel ?m (G(k := None))\<close> f'(2) hm'(3) H(1) by (simp add: gm_ok_def)
qed

section \<open>Groups and the pool together\<close>

text \<open>
  What a departure does to the groups, and the pair it sets free. A pair on its way back to the pool is lost when the pool cannot
  allocate; \<open>refilled b ps qs ps'\<close> says that the pool \<open>ps\<close> was given \<open>qs\<close> back and holds \<open>ps'\<close>, without a loss if \<open>b\<close>.
\<close>

definition drop_member :: "cstring \<Rightarrow> (cstring \<rightharpoonup> GroupInfo) \<Rightarrow> (cstring \<rightharpoonup> GroupInfo)" where
  "drop_member g G = (case G g of None \<Rightarrow> G
     | Some i \<Rightarrow> if i_count i \<le> 1 then G(g := None) else G(g := Some (i\<lparr>i_count := i_count i - 1\<rparr>)))"

definition freed :: "cstring \<Rightarrow> (cstring \<rightharpoonup> GroupInfo) \<Rightarrow> McastPair list" where
  "freed g G = (case G g of None \<Rightarrow> [] | Some i \<Rightarrow> if i_count i \<le> 1 then [i_pair i] else [])"

definition refilled :: "bool \<Rightarrow> McastPair list \<Rightarrow> McastPair list \<Rightarrow> McastPair list \<Rightarrow> bool" where
  "refilled b ps qs ps' \<longleftrightarrow> (\<exists>zs. ps' = ps @ zs \<and> subseq zs qs \<and> (b \<longrightarrow> zs = qs))"

lemma refilled_Nil [simp]: "refilled b ps [] ps' \<longleftrightarrow> ps' = ps"
  by (auto simp: refilled_def)

lemma refilled_True [simp]: "refilled True ps qs ps' \<longleftrightarrow> ps' = ps @ qs"
  by (auto simp: refilled_def)

lemma refilled_single: "refilled b ps [p] ps' \<longleftrightarrow> ps' = ps @ [p] \<or> ps' = ps \<and> \<not> b"
  unfolding refilled_def using subseq_singleton_left by (auto simp: subseq_Cons2_iff split: if_splits elim!: list_emb.cases)

lemma refilled_trans: "refilled b ps qs ps' \<Longrightarrow> refilled b ps' qs' ps'' \<Longrightarrow> refilled b ps (qs @ qs') ps''"
  by (auto simp: refilled_def intro: list_emb_append_mono)

lemma gives_back_refilled: "gives_back f f' ps p \<longleftrightarrow> fmq_ok f' = fmq_ok f \<and> (\<exists>ps'. fmq_rel f' ps' \<and> refilled (fmq_ok f) ps [p] ps')"
  by (auto simp: gives_back_def refilled_single)

text \<open>
  No pair is in use twice: not by two groups, and not by a group and the pool. There is room in the pool for all of them.
\<close>

definition pool_inv :: "(cstring \<rightharpoonup> GroupInfo) \<Rightarrow> McastPair list \<Rightarrow> bool" where
  "pool_inv G ps \<longleftrightarrow> finite (dom G) \<and> length ps + card (dom G) \<le> 255 \<and> distinct ps \<and>
     (\<forall>k i. G k = Some i \<longrightarrow> i_pair i \<notin> set ps) \<and>
     (\<forall>k k' i i'. G k = Some i \<longrightarrow> G k' = Some i' \<longrightarrow> i_pair i = i_pair i' \<longrightarrow> k = k')"

lemma pool_inv_room:
  assumes "pool_inv G ps" "G k = Some i"
  shows "length ps < 255"
proof -
  have "card (dom G) \<noteq> 0" using assms by (auto simp: pool_inv_def)
  then show ?thesis using assms(1) by (simp add: pool_inv_def)
qed

lemma pool_inv_take: "pool_inv G (p # ps) \<Longrightarrow> G k = None \<Longrightarrow> pool_inv (G(k := Some \<lparr>i_pair = p, i_count = n\<rparr>)) ps"
  unfolding pool_inv_def by (auto simp: domIff card_insert_if split: if_splits)

lemma pool_inv_refilled:
  assumes "pool_inv G (p # ps)" "refilled b ps [p] ps'"
  shows "pool_inv G ps'"
  using assms unfolding pool_inv_def refilled_single by auto

lemma pool_inv_count: "pool_inv G ps \<Longrightarrow> G k = Some i \<Longrightarrow> i_pair i' = i_pair i \<Longrightarrow> pool_inv (G(k := Some i')) ps"
  unfolding pool_inv_def by (auto simp: insert_absorb domI split: if_splits)

lemma pool_inv_remove:
  assumes I: "pool_inv G ps" and k: "G k = Some i" and r: "refilled b ps [i_pair i] ps'"
  shows "pool_inv (G(k := None)) ps'"
proof -
  have "k \<in> dom G" "finite (dom G)" using k I by (auto simp: pool_inv_def)
  then have "card (dom G) = Suc (card (dom (G(k := None))))" using card_Suc_Diff1 [of "dom G" k] by simp
  then show ?thesis
    using I k r unfolding pool_inv_def refilled_single by auto
qed

lemma pool_inv_drop:
  assumes "pool_inv G ps" "G g = Some i" "refilled b ps (freed g G) ps'"
  shows "pool_inv (drop_member g G) ps'"
  using assms pool_inv_remove [of G ps g i b ps'] pool_inv_count [of G ps g i]
  by (auto simp: drop_member_def freed_def split: if_splits)

section \<open>The contract of the group store\<close>

locale group_store =
  fixes rel :: "'m \<Rightarrow> (cstring \<rightharpoonup> GroupInfo) \<Rightarrow> bool"
    and ok :: "'m \<Rightarrow> bool"
    and prel :: "'p \<Rightarrow> McastPair list \<Rightarrow> bool"
    and pok :: "'p \<Rightarrow> bool"
    and create :: "McastPair \<Rightarrow> 'm option \<Rightarrow> 'p option \<Rightarrow> cstring option \<Rightarrow> addr option \<Rightarrow>
      (ChatStatus \<times> addr option \<times> 'm option \<times> 'p option) option"
    and join :: "'m option \<Rightarrow> cstring option \<Rightarrow> addr option \<Rightarrow> (ChatStatus \<times> addr option \<times> 'm option) option"
    and leave :: "'m option \<Rightarrow> 'p option \<Rightarrow> cstring option \<Rightarrow> (ChatStatus \<times> 'm option \<times> 'p option) option"
    and view :: "'m \<Rightarrow> addr \<Rightarrow> Group option"
  assumes create_exists_law: "rel m G \<Longrightarrow> G k = Some i \<Longrightarrow>
      create d (Some m) pl (Some k) (Some out) = Some (ST_ERR_GROUP_EXISTS, Some out, Some m, pl)"
    and create_full_law: "rel m G \<Longrightarrow> G k = None \<Longrightarrow> prel f [] \<Longrightarrow>
      \<exists>f'. create d (Some m) (Some f) (Some k) (Some out) = Some (ST_ERR_SERVER_FULL, Some out, Some m, Some f') \<and>
        prel f' [] \<and> pok f' = pok f"
    and create_law: "rel m G \<Longrightarrow> G k = None \<Longrightarrow> length k \<le> CHAT_MAX_GROUPNAME_LEN \<Longrightarrow> prel f (p # ps) \<Longrightarrow>
      \<exists>r a m' f'. create d (Some m) (Some f) (Some k) (Some out) = Some (r, Some a, Some m', Some f') \<and>
        ok m' = ok m \<and> pok f' = pok f \<and>
        (r = ST_OK \<and> a \<noteq> NULL \<and> (\<exists>x. view m' a = Some x \<and> info x = \<lparr>i_pair = p, i_count = 1\<rparr>) \<and>
           rel m' (G(k := Some \<lparr>i_pair = p, i_count = 1\<rparr>)) \<and> prel f' ps \<or>
         r = ST_ERR_PROTOCOL \<and> rel m' G \<and> \<not> ok m \<and> (\<exists>ps'. prel f' ps' \<and> refilled (pok f) ps [p] ps'))"
    and absent_law: "rel m G \<Longrightarrow> G k = None \<Longrightarrow>
      join (Some m) (Some k) (Some out) = Some (ST_ERR_GROUP_NOT_FOUND, Some out, Some m) \<and>
      leave (Some m) pl (Some k) = Some (ST_ERR_GROUP_NOT_FOUND, Some m, pl)"
    and join_law: "rel m G \<Longrightarrow> G k = Some i \<Longrightarrow> i_count i < 2 ^ 64 - 1 \<Longrightarrow>
      \<exists>a x m'. join (Some m) (Some k) (Some out) = Some (ST_OK, Some a, Some m') \<and> a \<noteq> NULL \<and> ok m' = ok m \<and>
        view m' a = Some x \<and> info x = i\<lparr>i_count := i_count i + 1\<rparr> \<and> rel m' (G(k := Some (i\<lparr>i_count := i_count i + 1\<rparr>)))"
    and leave_law: "rel m G \<Longrightarrow> G k = Some i \<Longrightarrow> prel f ps \<Longrightarrow> length ps < 255 \<Longrightarrow>
      \<exists>m' f' ps'. leave (Some m) (Some f) (Some k) = Some (ST_OK, Some m', Some f') \<and> ok m' = ok m \<and> pok f' = pok f \<and>
        rel m' (drop_member k G) \<and> prel f' ps' \<and> refilled (pok f) ps (freed k G) ps'"
begin

text \<open>Leaving one group after the other, as a callback does it.\<close>

lemma leave_each:
  assumes cb: "\<forall>g pm pl. cb g (pm, pl) = do { (_, pm, pl) \<leftarrow> leave pm pl (Some g); Some (pm, pl) }"
    and "rel m G" "prel f ps" "pool_inv G ps" "distinct gs" "\<forall>g \<in> set gs. G g \<noteq> None"
  shows "\<exists>m' f' ps'. leave_all (Some cb) gs (Some m, Some f) = Some (Some m', Some f') \<and> ok m' = ok m \<and>
    pok f' = pok f \<and> rel m' (fold drop_member gs G) \<and> prel f' ps' \<and>
    refilled (pok f) ps (concat (map (\<lambda>g. freed g G) gs)) ps' \<and> pool_inv (fold drop_member gs G) ps'"
  using assms(2-)
proof (induction gs arbitrary: m f G ps)
  case (Cons g gs)
  obtain i where i: "G g = Some i" using Cons.prems(5) by auto
  obtain m1 f1 ps1 where s: "leave (Some m) (Some f) (Some g) = Some (ST_OK, Some m1, Some f1)" "ok m1 = ok m" "pok f1 = pok f"
      "rel m1 (drop_member g G)" "prel f1 ps1" "refilled (pok f) ps (freed g G) ps1"
    using leave_law [OF Cons.prems(1) i Cons.prems(2) pool_inv_room [OF Cons.prems(3) i]] by blast
  have I: "pool_inv (drop_member g G) ps1" by (rule pool_inv_drop [OF Cons.prems(3) i s(6)])
  have same: "drop_member g G h = G h" if "h \<noteq> g" for h
    using that by (auto simp: drop_member_def split: option.splits)
  have "freed h (drop_member g G) = freed h G" if "h \<in> set gs" for h
    using Cons.prems(4) same [of h] that by (cases "h = g") (simp_all add: freed_def)
  then have fr: "concat (map (\<lambda>h. freed h (drop_member g G)) gs) = concat (map (\<lambda>h. freed h G) gs)"
    by (simp cong: map_cong)
  have "drop_member g G h \<noteq> None" if "h \<in> set gs" for h
    using Cons.prems(4,5) same [of h] that by (cases "h = g") auto
  then obtain m' f' ps' where r: "leave_all (Some cb) gs (Some m1, Some f1) = Some (Some m', Some f')" "ok m' = ok m1"
      "pok f' = pok f1" "rel m' (fold drop_member gs (drop_member g G))" "prel f' ps'"
      "refilled (pok f1) ps1 (concat (map (\<lambda>h. freed h G) gs)) ps'" "pool_inv (fold drop_member gs (drop_member g G)) ps'"
    using Cons.IH [OF s(4,5) I] Cons.prems(4) unfolding fr by (metis distinct.simps(2))
  have "cb g (Some m, Some f) = Some (Some m1, Some f1)" using s(1) cb by simp
  moreover have "refilled (pok f) ps (freed g G @ concat (map (\<lambda>h. freed h G) gs)) ps'"
    using refilled_trans [OF s(6)] r(6) s(3) by simp
  ultimately show ?case using r s(2,3) by auto
qed auto

end

interpretation gm: group_store gm_rel gm_ok fmq_rel fmq_ok GroupMng_CreateGroup GroupMng_JoinGroup GroupMng_LeaveGroup
  "\<lambda>m. deref (groups m)"
proof
  fix m G k i d pl out
  assume R: "gm_rel m G"
  show "GroupMng_CreateGroup d (Some m) pl (Some k) (Some out) = Some (ST_ERR_GROUP_EXISTS, Some out, Some m, pl)"
    if "G k = Some i" by (rule gm_create_exists [OF R that])
  show "GroupMng_JoinGroup (Some m) (Some k) (Some out) = Some (ST_ERR_GROUP_NOT_FOUND, Some out, Some m) \<and>
      GroupMng_LeaveGroup (Some m) pl (Some k) = Some (ST_ERR_GROUP_NOT_FOUND, Some m, pl)" if "G k = None"
    using gm_absent [OF R that] by blast
  show "\<exists>a x m'. GroupMng_JoinGroup (Some m) (Some k) (Some out) = Some (ST_OK, Some a, Some m') \<and> a \<noteq> NULL \<and> gm_ok m' = gm_ok m \<and>
      deref (groups m') a = Some x \<and> info x = i\<lparr>i_count := i_count i + 1\<rparr> \<and> gm_rel m' (G(k := Some (i\<lparr>i_count := i_count i + 1\<rparr>)))"
    if "G k = Some i" "i_count i < 2 ^ 64 - 1"
    using gm_join [OF R that, of out] by metis
  fix f p ps
  show "\<exists>f'. GroupMng_CreateGroup d (Some m) (Some f) (Some k) (Some out) = Some (ST_ERR_SERVER_FULL, Some out, Some m, Some f') \<and>
      fmq_rel f' [] \<and> fmq_ok f' = fmq_ok f" if "G k = None" "fmq_rel f []"
    by (rule gm_create_full [OF R that])
  show "\<exists>r a m' f'. GroupMng_CreateGroup d (Some m) (Some f) (Some k) (Some out) = Some (r, Some a, Some m', Some f') \<and>
      gm_ok m' = gm_ok m \<and> fmq_ok f' = fmq_ok f \<and>
      (r = ST_OK \<and> a \<noteq> NULL \<and> (\<exists>x. deref (groups m') a = Some x \<and> info x = \<lparr>i_pair = p, i_count = 1\<rparr>) \<and>
         gm_rel m' (G(k := Some \<lparr>i_pair = p, i_count = 1\<rparr>)) \<and> fmq_rel f' ps \<or>
       r = ST_ERR_PROTOCOL \<and> gm_rel m' G \<and> \<not> gm_ok m \<and> (\<exists>ps'. fmq_rel f' ps' \<and> refilled (fmq_ok f) ps [p] ps'))"
    if "G k = None" "length k \<le> CHAT_MAX_GROUPNAME_LEN" "fmq_rel f (p # ps)"
  proof (cases rule: gm_create_new [OF R that, of d out])
    case (1 a x m' f')
    then show ?thesis by blast
  next
    case (2 m' f')
    then show ?thesis unfolding gives_back_refilled by blast
  qed
  show "\<exists>m' f' ps'. GroupMng_LeaveGroup (Some m) (Some f) (Some k) = Some (ST_OK, Some m', Some f') \<and> gm_ok m' = gm_ok m \<and>
      fmq_ok f' = fmq_ok f \<and> gm_rel m' (drop_member k G) \<and> fmq_rel f' ps' \<and> refilled (fmq_ok f) ps (freed k G) ps'"
    if "G k = Some i" "fmq_rel f ps" "length ps < 255"
  proof (cases "i_count i \<le> 1")
    case True
    then have eq: "drop_member k G = G(k := None)" "freed k G = [i_pair i]" using that(1) by (simp_all add: drop_member_def freed_def)
    show ?thesis
      by (rule gm_leave_last [OF R that(1) True that(2,3)]) (unfold eq gives_back_refilled, blast)
  next
    case False
    then have eq: "drop_member k G = G(k := Some (i\<lparr>i_count := i_count i - 1\<rparr>))" "freed k G = []" "1 < i_count i"
      using that(1) by (simp_all add: drop_member_def freed_def)
    show ?thesis
      by (rule gm_leave_many [OF R that(1) eq(3), of "Some f"]) (unfold eq refilled_Nil, use that(2) in blast)
  qed
qed

section \<open>Correctness of the group manager\<close>

definition all_groups_ok :: gm_alloc where
  "all_groups_ok = \<lparr>ga_structs = (\<lambda>_. True), ga_nodes = (\<lambda>_. True), ga_kvps = (\<lambda>_. True), ga_groups = (\<lambda>_. True)\<rparr>"

definition sample_group :: cstring where
  "sample_group = bytes_of ''chess''"

lemma sample_pool:
  obtains f ps where "FreeMcQueue_Create (\<lambda>_. True) (\<lambda>_. True) = Some (Some f)" "fmq_rel f (pool_pair 1 # ps)" "fmq_ok f"
    "pool_inv Map.empty (pool_pair 1 # ps)"
proof -
  obtain f where f: "FreeMcQueue_Create (\<lambda>_. True) (\<lambda>_. True) = Some (Some f)" "fmq_rel f (map pool_pair [1..<256])" "fmq_ok f"
    by (rule fmq_create [of "\<lambda>_. True" "\<lambda>_. True"]) auto
  define xs :: "nat list" where "xs = [1..<256]"
  have xs: "xs = 1 # [Suc 1..<256]" unfolding xs_def by (rule upt_conv_Cons) simp
  have "length xs = 255" "distinct xs" unfolding xs_def by (simp_all only: length_upt distinct_upt)
  then have "pool_inv Map.empty (map pool_pair xs)"
    using inj_pool_pair by (simp add: pool_inv_def distinct_map inj_on_def)
  then show thesis
    using that [of f "map pool_pair [Suc 1..<256]"] f unfolding xs_def [symmetric] xs list.map by blast
qed

lemma sample_groups:
  obtains m where "GroupMng_Create all_groups_ok (Some f) = Some (Some m)" "gm_rel m Map.empty" "gm_ok m"
  using gm_create [of all_groups_ok f] by (auto simp: all_groups_ok_def)

text \<open>
  C21: Creating a group. A taken name is refused and changes nothing; with an empty pool the result is \<open>ST_ERR_SERVER_FULL\<close>.
  Otherwise the group gets the first pair of the pool and one member, or, only when an allocation fails, the result is
  \<open>ST_ERR_PROTOCOL\<close>, the groups are as before and the pair is offered to the pool again, at its end.
\<close>

theorem create_group_outcomes:
  assumes "gm_rel m G" and "fmq_rel f qs" and "length k \<le> CHAT_MAX_GROUPNAME_LEN"
  shows "\<exists>r a m' f'. GroupMng_CreateGroup d (Some m) (Some f) (Some k) (Some out) = Some (r, Some a, Some m', Some f') \<and>
    (if G k \<noteq> None then r = ST_ERR_GROUP_EXISTS \<and> m' = m \<and> f' = f
     else case qs of
       [] \<Rightarrow> r = ST_ERR_SERVER_FULL \<and> m' = m \<and> fmq_rel f' []
     | p # ps \<Rightarrow>
         r = ST_OK \<and> gm_rel m' (G(k := Some \<lparr>i_pair = p, i_count = 1\<rparr>)) \<and> fmq_rel f' ps \<or>
         r = ST_ERR_PROTOCOL \<and> gm_rel m' G \<and> \<not> gm_ok m \<and> (fmq_rel f' (ps @ [p]) \<or> fmq_rel f' ps \<and> \<not> fmq_ok f))"
proof (cases "G k")
  case None
  show ?thesis
  proof (cases qs)
    case Nil
    then show ?thesis using gm.create_full_law [OF assms(1) None, of f d out] assms(2) None by auto
  next
    case (Cons p ps)
    then show ?thesis
      using gm.create_law [OF assms(1) None assms(3), of f p ps d out] assms(2) None by (auto simp: refilled_single)
  qed
qed (simp add: gm.create_exists_law [OF assms(1)])

theorem create_group_outcomes_witness:
  "\<exists>f m a m' f'. FreeMcQueue_Create (\<lambda>_. True) (\<lambda>_. True) = Some (Some f) \<and> GroupMng_Create all_groups_ok (Some f) = Some (Some m) \<and>
     GroupMng_CreateGroup (pool_pair 0) (Some m) (Some f) (Some sample_group) (Some NULL) = Some (ST_OK, Some a, Some m', Some f') \<and>
     gm_rel m' [sample_group \<mapsto> \<lparr>i_pair = pool_pair 1, i_count = 1\<rparr>]"
proof -
  obtain f ps where f: "FreeMcQueue_Create (\<lambda>_. True) (\<lambda>_. True) = Some (Some f)" "fmq_rel f (pool_pair 1 # ps)"
    by (rule sample_pool)
  obtain m where m: "GroupMng_Create all_groups_ok (Some f) = Some (Some m)" "gm_rel m Map.empty" "gm_ok m"
    by (rule sample_groups)
  have "length sample_group \<le> CHAT_MAX_GROUPNAME_LEN" by (simp add: sample_group_def bytes_of_def size_defs)
  then show ?thesis
    using create_group_outcomes [OF m(2) f(2), of sample_group "pool_pair 0" NULL] f(1) m by auto
qed

text \<open>
  C22: Counting members. Joining a group adds one to its count, which cannot wrap below \<open>2 ^ 64 - 1\<close> members. Leaving takes one
  off while others stay; the last member takes the group along, and its pair goes to the end of the pool (it is lost only when
  the pool cannot allocate). An unknown group is refused and changes nothing.
\<close>

theorem group_member_count:
  assumes "gm_rel m G" and "fmq_rel f ps" and "pool_inv G ps" and "\<forall>i. G k = Some i \<longrightarrow> i_count i < 2 ^ 64 - 1"
  shows "(case G k of
      None \<Rightarrow> GroupMng_JoinGroup (Some m) (Some k) (Some out) = Some (ST_ERR_GROUP_NOT_FOUND, Some out, Some m) \<and>
        GroupMng_LeaveGroup (Some m) (Some f) (Some k) = Some (ST_ERR_GROUP_NOT_FOUND, Some m, Some f)
    | Some i \<Rightarrow>
        (\<exists>a m'. GroupMng_JoinGroup (Some m) (Some k) (Some out) = Some (ST_OK, Some a, Some m') \<and>
          gm_rel m' (G(k := Some (i\<lparr>i_count := i_count i + 1\<rparr>)))) \<and>
        (\<exists>m' f'. GroupMng_LeaveGroup (Some m) (Some f) (Some k) = Some (ST_OK, Some m', Some f') \<and>
          (if 1 < i_count i then gm_rel m' (G(k := Some (i\<lparr>i_count := i_count i - 1\<rparr>))) \<and> fmq_rel f' ps
           else gm_rel m' (G(k := None)) \<and> (fmq_rel f' (ps @ [i_pair i]) \<or> fmq_rel f' ps \<and> \<not> fmq_ok f))))"
proof (cases "G k")
  case None
  then show ?thesis using gm.absent_law [OF assms(1) None] by simp
next
  case (Some i)
  obtain m' f' ps' where "GroupMng_LeaveGroup (Some m) (Some f) (Some k) = Some (ST_OK, Some m', Some f')"
      "gm_rel m' (drop_member k G)" "fmq_rel f' ps'" "refilled (fmq_ok f) ps (freed k G) ps'"
    using gm.leave_law [OF assms(1) Some assms(2) pool_inv_room [OF assms(3) Some]] by blast
  moreover have "\<exists>a m'. GroupMng_JoinGroup (Some m) (Some k) (Some out) = Some (ST_OK, Some a, Some m') \<and>
      gm_rel m' (G(k := Some (i\<lparr>i_count := i_count i + 1\<rparr>)))"
    using gm.join_law [OF assms(1) Some, of out] assms(4) Some by blast
  ultimately show ?thesis
    using Some by (cases "1 < i_count i") (auto simp: drop_member_def freed_def refilled_single)
qed

theorem group_member_count_witness:
  "\<exists>f m m1 f1 a b m2 m3 f3. GroupMng_Create all_groups_ok (Some f) = Some (Some m) \<and>
     GroupMng_CreateGroup (pool_pair 0) (Some m) (Some f) (Some sample_group) (Some NULL) = Some (ST_OK, Some a, Some m1, Some f1) \<and>
     GroupMng_JoinGroup (Some m1) (Some sample_group) (Some NULL) = Some (ST_OK, Some b, Some m2) \<and>
     gm_rel m2 [sample_group \<mapsto> \<lparr>i_pair = pool_pair 1, i_count = 1 + 1\<rparr>] \<and>
     GroupMng_LeaveGroup (Some m1) (Some f1) (Some sample_group) = Some (ST_OK, Some m3, Some f3) \<and> gm_rel m3 Map.empty"
proof -
  let ?i = "\<lparr>i_pair = pool_pair 1, i_count = 1\<rparr>"
  obtain f ps where f: "fmq_rel f (pool_pair 1 # ps)" "pool_inv Map.empty (pool_pair 1 # ps)" by (rule sample_pool)
  obtain m where m: "GroupMng_Create all_groups_ok (Some f) = Some (Some m)" "gm_rel m Map.empty" "gm_ok m"
    by (rule sample_groups)
  have "length sample_group \<le> CHAT_MAX_GROUPNAME_LEN" by (simp add: sample_group_def bytes_of_def size_defs)
  then obtain a m1 f1 where m1: "GroupMng_CreateGroup (pool_pair 0) (Some m) (Some f) (Some sample_group) (Some NULL) =
      Some (ST_OK, Some a, Some m1, Some f1)" "gm_rel m1 [sample_group \<mapsto> ?i]" "fmq_rel f1 ps"
    using gm.create_law [OF m(2) _ _ f(1), of sample_group "pool_pair 0" NULL] m(3) by auto
  have "pool_inv [sample_group \<mapsto> ?i] ps" using pool_inv_take [OF f(2)] by simp
  then have "(\<exists>b m2. GroupMng_JoinGroup (Some m1) (Some sample_group) (Some NULL) = Some (ST_OK, Some b, Some m2) \<and>
      gm_rel m2 [sample_group \<mapsto> \<lparr>i_pair = pool_pair 1, i_count = 1 + 1\<rparr>]) \<and>
    (\<exists>m3 f3. GroupMng_LeaveGroup (Some m1) (Some f1) (Some sample_group) = Some (ST_OK, Some m3, Some f3) \<and> gm_rel m3 Map.empty)"
    using group_member_count [OF m1(2,3), of sample_group NULL] by auto
  then show ?thesis using m(1) m1(1) by blast
qed

text \<open>
  Destroying the manager frees every group and the hash map with all its nodes and pairs, each once: no memory of the
  manager stays allocated.
\<close>

theorem group_mng_destroy:
  assumes "gm_rel m G"
  shows "\<exists>h ks s. GroupMng_Destroy (Some (Some m)) = Some (Some None, Some (Some (h, ks), s)) \<and>
    mem h = Map.empty \<and> mem ks = Map.empty \<and> mem s = Map.empty"
  by (rule gm_destroy [OF assms])

end
