(* ===== verification/Server_Net.thy ===== *)
theory Server_Net
  imports Protocol User_Mng
begin

text \<open>
  The networking layer of the server, \<^verbatim>\<open>server/server_net.h\<close> and \<^verbatim>\<open>server/server_net.c\<close>.

  The operating system is a parameter: the result of each system call is an argument (one record per round of the
  \<open>select\<close> loop), and what the server does to its sockets is recorded in a log, the record \<open>Wire\<close>: the messages passed to
  \<open>send\<close> and the descriptors passed to \<open>close\<close>. The management layer extends this record by its own state, as both layers
  act on the same process. An \<open>fd_set\<close> is an array of \<open>FD_SETSIZE\<close> bits; the macros are undefined for other descriptors.

  The lemmas show that the buffer of a client never fills up, that the loop over the buffer cuts the stream into the same
  frames however TCP fragments it, and that the loop of the server stays inside its arrays for every behaviour of the network.
\<close>

section \<open>Data\<close>

definition RECV_BUFFER_SIZE :: nat where "RECV_BUFFER_SIZE = CHAT_MAX_MSG_SIZE * 3"

definition MAX_CLIENTS :: nat where "MAX_CLIENTS = FD_SETSIZE"

record ClientState =
  c_fd :: int
  c_buffer :: "byte list"
  c_len :: nat

record Wire =
  sent :: "(int \<times> byte list) list"
  closed :: "int list"
  os_send :: "int \<Rightarrow> byte list \<Rightarrow> int"

type_synonym fd_set = "bool list"
type_synonym 's OnMessageFn = "(int \<Rightarrow> byte list option \<Rightarrow> nat \<Rightarrow> 's \<Rightarrow> (int \<times> 's) option) option"
type_synonym 's OnDisconnectFn = "(int \<Rightarrow> 's \<Rightarrow> 's option) option"

record 's ServerNet =
  listenFd :: int
  maxFd :: int
  masterSet :: fd_set
  clients :: "ClientState list"
  onMsg :: "'s OnMessageFn"
  onDisc :: "'s OnDisconnectFn"

definition FD_ZERO :: fd_set where "FD_ZERO = replicate FD_SETSIZE False"

definition FD_put :: "int \<Rightarrow> bool \<Rightarrow> fd_set \<Rightarrow> fd_set option" where
  "FD_put fd b s = (if 0 \<le> fd \<and> fd < int FD_SETSIZE then wr s (nat fd) b else None)"

abbreviation FD_SET :: "int \<Rightarrow> fd_set \<Rightarrow> fd_set option" where "FD_SET fd \<equiv> FD_put fd True"
abbreviation FD_CLR :: "int \<Rightarrow> fd_set \<Rightarrow> fd_set option" where "FD_CLR fd \<equiv> FD_put fd False"

definition FD_ISSET :: "int \<Rightarrow> fd_set \<Rightarrow> bool option" where
  "FD_ISSET fd s = (if 0 \<le> fd \<and> fd < int FD_SETSIZE then rd s (nat fd) else None)"

definition close_fd :: "int \<Rightarrow> 's Wire_scheme \<Rightarrow> 's Wire_scheme" where
  "close_fd fd w = w\<lparr>closed := closed w @ [fd]\<rparr>"

text \<open>\<open>memmove\<close> inside one array.\<close>

definition memmove :: "'a list \<Rightarrow> nat \<Rightarrow> nat \<Rightarrow> nat \<Rightarrow> 'a list option" where
  "memmove b d s n = memcpy b d b s n"

section \<open>Operations\<close>

text \<open>The results of the system calls that open the listening socket.\<close>

record ListenOs =
  os_socket :: int
  os_setsockopt :: int
  os_bind :: "u16 \<Rightarrow> int"
  os_listen :: int

definition SetupListeningSocket :: "ListenOs \<Rightarrow> u16 \<Rightarrow> 's Wire_scheme \<Rightarrow> int \<times> 's Wire_scheme" where
  "SetupListeningSocket os port w =
     (let fd = os_socket os in
      if fd = - 1 then (- 1, w)
      else if os_setsockopt os = - 1 then (- 1, close_fd fd w)
      else if os_bind os port = - 1 then (- 1, close_fd fd w)
      else if os_listen os = - 1 then (- 1, close_fd fd w)
      else (fd, w))"

text \<open>
  \<open>ok\<close> says whether \<open>malloc\<close> succeeds and \<open>bufs\<close> is the uninitialised content of the buffers. The inner \<open>option\<close> is the returned
  pointer.
\<close>

definition ServerNet_Create ::
  "bool \<Rightarrow> byte list \<Rightarrow> ListenOs \<Rightarrow> u16 \<Rightarrow> 's Wire_scheme OnMessageFn \<Rightarrow> 's Wire_scheme OnDisconnectFn \<Rightarrow> 's Wire_scheme \<Rightarrow>
   ('s Wire_scheme ServerNet option \<times> 's Wire_scheme) option"
where
  "ServerNet_Create ok bufs os port msg disc w =
     (if \<not> ok then Some (None, w)
      else
        let cs = replicate MAX_CLIENTS \<lparr>c_fd = - 1, c_buffer = bufs, c_len = 0\<rparr>;
            (fd, w) = SetupListeningSocket os port w
        in if fd = - 1 then Some (None, w)
        else do {
          s \<leftarrow> FD_SET fd FD_ZERO;
          Some (Some \<lparr>listenFd = fd, maxFd = fd, masterSet = s, clients = cs, onMsg = msg, onDisc = disc\<rparr>, w)
        })"

definition ServerNet_SendMessage ::
  "int \<Rightarrow> byte list option \<Rightarrow> nat \<Rightarrow> 's Wire_scheme \<Rightarrow> (int \<times> 's Wire_scheme) option"
where
  "ServerNet_SendMessage sockfd buf len w =
     (if 0 > sockfd \<or> buf = None \<or> 0 = len then Some (- 1, w)
      else if length (the buf) < len then None
      else let msg = take len (the buf)
      in Some (os_send w sockfd msg, w\<lparr>sent := sent w @ [(sockfd, msg)]\<rparr>))"

text \<open>The loop over the buffer of a client.\<close>

partial_function (option) ProcessBuffer ::
  "'s OnMessageFn \<Rightarrow> ClientState \<Rightarrow> 's \<Rightarrow> (ClientState \<times> 's) option"
where
  "ProcessBuffer msg cl w = do {
     (r, _, l) \<leftarrow> chat_peek_header (Some (c_buffer cl)) (c_len cl) (Some 0) (Some 0);
     if r = - 1 then Some (cl, w)
     else
       let totalMsgLen = 2 + unat (the l)
       in if c_len cl < totalMsgLen then Some (cl, w)
       else do {
         w \<leftarrow> (case msg of
             None \<Rightarrow> Some w
           | Some f \<Rightarrow> do { (_, w) \<leftarrow> f (c_fd cl) (Some (c_buffer cl)) totalMsgLen w; Some w });
         let n = c_len cl - totalMsgLen;
         b \<leftarrow> (if n > 0 then memmove (c_buffer cl) 0 totalMsgLen n else Some (c_buffer cl));
         ProcessBuffer msg (cl\<lparr>c_buffer := b, c_len := n\<rparr>) w
       }}"

text \<open>
  \<open>os_recv fd n\<close> is what \<open>recv\<close> stores for a request of at most \<open>n\<close> bytes, \<open>None\<close> when it returns -1. The subtraction is the one of
  \<open>size_t\<close>.
\<close>

definition HandleClientData ::
  "(int \<Rightarrow> nat \<Rightarrow> byte list option) \<Rightarrow> ClientState \<Rightarrow> fd_set \<Rightarrow> 's Wire_scheme OnMessageFn \<Rightarrow> 's Wire_scheme OnDisconnectFn \<Rightarrow>
   's Wire_scheme \<Rightarrow> (ClientState \<times> fd_set \<times> 's Wire_scheme) option"
where
  "HandleClientData os_recv cl s msg disc w =
     (let spaceLeft = (RECV_BUFFER_SIZE + 2 ^ 64 - c_len cl) mod 2 ^ 64
      in if spaceLeft = 0 then Some (cl, s, w)
      else let got = os_recv (c_fd cl) spaceLeft
      in if got = None \<or> got = Some [] then do {
        let w = close_fd (c_fd cl) w;
        s \<leftarrow> FD_CLR (c_fd cl) s;
        w \<leftarrow> (case disc of None \<Rightarrow> Some w | Some f \<Rightarrow> f (c_fd cl) w);
        Some (cl\<lparr>c_fd := - 1, c_len := 0\<rparr>, s, w)
      }
      else do {
        b \<leftarrow> memcpy (c_buffer cl) (c_len cl) (the got) 0 (length (the got));
        (cl, w) \<leftarrow> ProcessBuffer msg (cl\<lparr>c_buffer := b, c_len := c_len cl + length (the got)\<rparr>) w;
        Some (cl, s, w)
      })"

text \<open>
  The result of \<open>accept\<close> may depend on the descriptors the server has open. A new connection is stored in the first free slot.
\<close>

definition open_fds :: "int \<Rightarrow> ClientState list \<Rightarrow> int list" where
  "open_fds lfd cs = lfd # filter (\<lambda>f. f \<noteq> - 1) (map c_fd cs)"

fun free_slot :: "nat \<Rightarrow> ClientState list \<Rightarrow> nat option" where
  "free_slot i [] = None"
| "free_slot i (c # cs) = (if - 1 = c_fd c then Some i else free_slot (Suc i) cs)"

definition HandleNewConnection ::
  "(int list \<Rightarrow> int) \<Rightarrow> int \<Rightarrow> ClientState list \<Rightarrow> int \<Rightarrow> fd_set \<Rightarrow> 's Wire_scheme \<Rightarrow>
   (ClientState list \<times> int \<times> fd_set \<times> 's Wire_scheme) option"
where
  "HandleNewConnection accept lfd cs mx s w =
     (let newFd = accept (open_fds lfd cs)
      in if - 1 = newFd then Some (cs, mx, s, w)
      else case free_slot 0 cs of
        Some i \<Rightarrow> do {
          c \<leftarrow> rd cs i;
          cs \<leftarrow> wr cs i (c\<lparr>c_fd := newFd, c_len := 0\<rparr>);
          s \<leftarrow> FD_SET newFd s;
          Some (cs, if newFd > mx then newFd else mx, s, w)
        }
      | None \<Rightarrow> Some (cs, mx, s, close_fd newFd w))"

text \<open>One round of the loop consumes one result of each system call it makes.\<close>

datatype select_result = Select_Interrupted | Select_Failed | Select_Ready fd_set

record round =
  os_select :: "int \<Rightarrow> fd_set \<Rightarrow> select_result"
  os_accept :: "int list \<Rightarrow> int"
  os_recv :: "int \<Rightarrow> nat \<Rightarrow> byte list option"

fun serve_clients ::
  "(int \<Rightarrow> nat \<Rightarrow> byte list option) \<Rightarrow> fd_set \<Rightarrow> nat list \<Rightarrow> 's Wire_scheme ServerNet \<Rightarrow> 's Wire_scheme \<Rightarrow>
   ('s Wire_scheme ServerNet \<times> 's Wire_scheme) option"
where
  "serve_clients recv readSet [] net w = Some (net, w)"
| "serve_clients recv readSet (i # is) net w = do {
     c \<leftarrow> rd (clients net) i;
     ready \<leftarrow> (if - 1 \<noteq> c_fd c then FD_ISSET (c_fd c) readSet else Some False);
     (net, w) \<leftarrow> (if ready
       then do {
         (c, s, w) \<leftarrow> HandleClientData recv c (masterSet net) (onMsg net) (onDisc net) w;
         cs \<leftarrow> wr (clients net) i c;
         Some (net\<lparr>clients := cs, masterSet := s\<rparr>, w)
       }
       else Some (net, w));
     serve_clients recv readSet is net w
   }"

definition serve_ready ::
  "round \<Rightarrow> fd_set \<Rightarrow> 's Wire_scheme ServerNet \<Rightarrow> 's Wire_scheme \<Rightarrow> ('s Wire_scheme ServerNet \<times> 's Wire_scheme) option"
where
  "serve_ready r readSet net w = do {
     new \<leftarrow> FD_ISSET (listenFd net) readSet;
     (net, w) \<leftarrow> (if new
       then do {
         (cs, mx, s, w) \<leftarrow> HandleNewConnection (os_accept r) (listenFd net) (clients net) (maxFd net) (masterSet net) w;
         Some (net\<lparr>clients := cs, maxFd := mx, masterSet := s\<rparr>, w)
       }
       else Some (net, w));
     serve_clients (os_recv r) readSet [0..<MAX_CLIENTS] net w
   }"

text \<open>
  The loop: the list has an element for each time the flag \<open>_keepRunning\<close> is read as non-zero, and ends when it is read as 0.
\<close>

fun select_loop ::
  "round list \<Rightarrow> 's Wire_scheme ServerNet \<Rightarrow> 's Wire_scheme \<Rightarrow> (int \<times> 's Wire_scheme ServerNet \<times> 's Wire_scheme) option"
where
  "select_loop [] net w = Some (0, net, w)"
| "select_loop (r # rs) net w =
     (case os_select r (maxFd net + 1) (masterSet net) of
        Select_Interrupted \<Rightarrow> select_loop rs net w
      | Select_Failed \<Rightarrow> Some (- 1, net, w)
      | Select_Ready readSet \<Rightarrow> do {
          (net, w) \<leftarrow> serve_ready r readSet net w;
          select_loop rs net w
        })"

definition ServerNet_Run ::
  "'s Wire_scheme ServerNet option \<Rightarrow> round list option \<Rightarrow> 's Wire_scheme \<Rightarrow>
   (int \<times> 's Wire_scheme ServerNet option \<times> 's Wire_scheme) option"
where
  "ServerNet_Run net keepRunning w =
     (if net = None \<or> keepRunning = None then Some (- 1, net, w)
      else do {
        (r, n, w) \<leftarrow> select_loop (the keepRunning) (the net) w;
        Some (r, Some n, w)
      })"

definition ServerNet_Destroy ::
  "'s Wire_scheme ServerNet option option \<Rightarrow> 's Wire_scheme \<Rightarrow> 's Wire_scheme ServerNet option option \<times> 's Wire_scheme"
where
  "ServerNet_Destroy net w =
     (case net of
        Some (Some n) \<Rightarrow>
          (Some None, close_fd (listenFd n)
             (fold (\<lambda>c w. if - 1 \<noteq> c_fd c then close_fd (c_fd c) w else w) (clients n) w))
      | _ \<Rightarrow> (net, w))"

section \<open>Framing\<close>

text \<open>The frames at the front of a stream of bytes, and the incomplete rest.\<close>

function frames :: "byte list \<Rightarrow> byte list list" where
  "frames bs =
     (if length bs < 2 then []
      else if length bs < 2 + unat (bs ! 1) then []
      else take (2 + unat (bs ! 1)) bs # frames (drop (2 + unat (bs ! 1)) bs))"
  by auto

termination by (relation "measure length") auto

function rest :: "byte list \<Rightarrow> byte list" where
  "rest bs =
     (if length bs < 2 then bs
      else if length bs < 2 + unat (bs ! 1) then bs
      else rest (drop (2 + unat (bs ! 1)) bs))"
  by auto

termination by (relation "measure length") auto

declare frames.simps [simp del] rest.simps [simp del]

lemma framing_stop: "length bs < 2 \<or> length bs < 2 + unat (bs ! 1) \<Longrightarrow> frames bs = [] \<and> rest bs = bs"
  unfolding frames.simps [of bs] rest.simps [of bs] by (simp only: if_True if_False refl simp_thms split: if_split) blast

lemma framing_step: "2 \<le> length bs \<Longrightarrow> n = 2 + unat (bs ! 1) \<Longrightarrow> n \<le> length bs \<Longrightarrow>
  frames bs = take n bs # frames (drop n bs) \<and> rest bs = rest (drop n bs)"
  unfolding frames.simps [of bs] rest.simps [of bs] by (simp only: not_less [symmetric] if_False simp_thms)

lemma framing_induct [case_names stop step]:
  fixes P :: "byte list \<Rightarrow> bool"
  assumes "\<And>bs. length bs < 2 \<or> length bs < 2 + unat (bs ! 1) \<Longrightarrow> P bs"
    and "\<And>bs n. 2 \<le> length bs \<Longrightarrow> n = 2 + unat (bs ! 1) \<Longrightarrow> n \<le> length bs \<Longrightarrow> P (drop n bs) \<Longrightarrow> P bs"
  shows "P bs"
  by (induction bs rule: frames.induct) (meson assms not_less)

lemma frames_rest: "concat (frames bs) @ rest bs = bs"
  by (induction bs rule: framing_induct) (simp_all add: framing_stop framing_step)

text \<open>A rest is shorter than the longest message.\<close>

lemma rest_short: "length (rest bs) < CHAT_MAX_MSG_SIZE"
proof (induction bs rule: framing_induct)
  case (stop bs)
  then have "length bs < 257" using unat_byte_le [of "bs ! 1"] by linarith
  then show ?case using framing_stop [OF stop] by (simp add: size_defs)
qed (simp add: framing_step)

lemma frames_complete: "f \<in> set (frames bs) \<Longrightarrow> 2 \<le> length f \<and> length f = 2 + unat (f ! 1)"
proof (induction bs rule: framing_induct)
  case (stop bs)
  then show ?case using framing_stop [OF stop(1)] by simp
next
  case (step bs n)
  then show ?case using framing_step [OF step(1-3)] by auto
qed

text \<open>Framing does not depend on where the stream is cut.\<close>

lemma frames_append: "frames (bs @ cs) = frames bs @ frames (rest bs @ cs) \<and> rest (bs @ cs) = rest (rest bs @ cs)"
proof (induction bs rule: framing_induct)
  case (stop bs)
  then show ?case using framing_stop [OF stop] by simp
next
  case (step bs n)
  have "(bs @ cs) ! 1 = bs ! 1" using step(1) by (simp add: nth_append)
  then have "frames (bs @ cs) = take n bs # frames (drop n bs @ cs)" "rest (bs @ cs) = rest (drop n bs @ cs)"
    using framing_step [of "bs @ cs" n] step(1-3) by simp_all
  then show ?case using framing_step [OF step(1-3)] step(4) by simp
qed

text \<open>The callback on each frame in turn.\<close>

fun deliver :: "'s OnMessageFn \<Rightarrow> int \<Rightarrow> byte list list \<Rightarrow> 's \<Rightarrow> 's option" where
  "deliver msg fd [] w = Some w"
| "deliver msg fd (f # fs) w = do {
     w \<leftarrow> (case msg of None \<Rightarrow> Some w | Some h \<Rightarrow> do { (_, w) \<leftarrow> h fd (Some f) (length f) w; Some w });
     deliver msg fd fs w
   }"

lemma deliver_append: "deliver msg fd (fs @ gs) w = do { w \<leftarrow> deliver msg fd fs w; deliver msg fd gs w }"
  by (induction fs arbitrary: w) (auto split: bind_splits option.splits cong: Option.bind_cong)

text \<open>The handler looks at no byte beyond the message.\<close>

definition reads_message :: "'s OnMessageFn \<Rightarrow> bool" where
  "reads_message msg \<longleftrightarrow> (\<forall>h fd b n w. msg = Some h \<longrightarrow> n \<le> length b \<longrightarrow> h fd (Some b) n w = h fd (Some (take n b)) n w)"

definition pending :: "ClientState \<Rightarrow> byte list" where
  "pending cl = take (c_len cl) (c_buffer cl)"

lemma pending_length: "c_len cl \<le> length (c_buffer cl) \<Longrightarrow> length (pending cl) = c_len cl"
  by (simp add: pending_def)

text \<open>One round of the loop.\<close>

lemma ProcessBuffer_stop:
  assumes "c_len cl \<le> length (c_buffer cl)" "length (pending cl) < 2 \<or> length (pending cl) < 2 + unat (pending cl ! 1)"
  shows "ProcessBuffer msg cl w = Some (cl, w)"
  using assms by (subst ProcessBuffer.simps)
    (auto simp: chat_peek_header_def rd_def pending_def)

lemma ProcessBuffer_step:
  assumes "c_len cl \<le> length (c_buffer cl)" and r: "reads_message msg"
    and n: "2 \<le> length (pending cl)" "n = 2 + unat (pending cl ! 1)" "n \<le> length (pending cl)"
  obtains b where "ProcessBuffer msg cl w =
    do { w \<leftarrow> deliver msg (c_fd cl) [take n (pending cl)] w; ProcessBuffer msg (cl\<lparr>c_buffer := b, c_len := c_len cl - n\<rparr>) w }"
    "length b = length (c_buffer cl)" "take (c_len cl - n) b = drop n (pending cl)"
proof -
  have L: "length (pending cl) = c_len cl" by (rule pending_length [OF assms(1)])
  have h: "n \<le> c_len cl" "2 \<le> c_len cl" "pending cl ! 1 = c_buffer cl ! 1" using n(1,3) L by (simp_all add: pending_def)
  have l: "n = 2 + unat (c_buffer cl ! 1)" using n(2) h(3) by simp
  have peek: "chat_peek_header (Some (c_buffer cl)) (c_len cl) (Some 0) (Some 0) = Some (0, Some (c_buffer cl ! 0), Some (c_buffer cl ! 1))"
  proof -
    have "0 < length (c_buffer cl)" "1 < length (c_buffer cl)" "\<not> c_len cl < 2" using h(2) assms(1) by linarith+
    then show ?thesis by (simp add: chat_peek_header_def rd_def)
  qed
  have tk: "take n (pending cl) = take n (c_buffer cl)" using h(1) by (simp add: pending_def min_def)
  let ?d = "deliver msg (c_fd cl) [take n (pending cl)]"
  have del: "(case msg of None \<Rightarrow> Some w | Some f \<Rightarrow> do { (_, w) \<leftarrow> f (c_fd cl) (Some (c_buffer cl)) n w; Some w }) = ?d w" for w
  proof (cases msg)
    case (Some f)
    have "f (c_fd cl) (Some (c_buffer cl)) n w = f (c_fd cl) (Some (take n (c_buffer cl))) n w"
      using r Some le_trans [OF h(1) assms(1)] unfolding reads_message_def by blast
    moreover have "length (take n (c_buffer cl)) = n" using le_trans [OF h(1) assms(1)] by simp
    ultimately show ?thesis unfolding Some tk deliver.simps option.case by (simp only: bind_runit)
  qed simp
  define b where "b = (if 0 < c_len cl - n then drop n (pending cl) @ drop (c_len cl - n) (c_buffer cl) else c_buffer cl)"
  have "(if 0 < c_len cl - n then memmove (c_buffer cl) 0 n (c_len cl - n) else Some (c_buffer cl)) = Some b"
    using h(1) assms(1) diff_le_self [THEN le_trans, OF assms(1), of n] by (simp add: memmove_def memcpy_def b_def pending_def take_drop)
  moreover have "((0 :: int) = - 1) = False" "(c_len cl < n) = False" using h(1) by simp_all
  ultimately have "ProcessBuffer msg cl w = do { w \<leftarrow> ?d w; ProcessBuffer msg (cl\<lparr>c_buffer := b, c_len := c_len cl - n\<rparr>) w }"
    by (subst ProcessBuffer.simps) (simp only: peek Option.bind.simps prod.case option.sel l [symmetric] Let_def del if_False)
  moreover have "length b = length (c_buffer cl)" "take (c_len cl - n) b = drop n (pending cl)"
    using assms(1) L by (auto simp: b_def)
  ultimately show thesis by (rule that)
qed

text \<open>The whole loop: it ends, delivers the frames in order and keeps the rest at the front of the buffer.\<close>

lemma ProcessBuffer_frames:
  assumes "c_len cl \<le> length (c_buffer cl)" and r: "reads_message msg"
  shows "\<exists>b. length b = length (c_buffer cl) \<and> take (length (rest (pending cl))) b = rest (pending cl) \<and>
    length (rest (pending cl)) \<le> length b \<and>
    ProcessBuffer msg cl w = map_option (Pair (cl\<lparr>c_buffer := b, c_len := length (rest (pending cl))\<rparr>))
      (deliver msg (c_fd cl) (frames (pending cl)) w)"
  using assms(1)
proof (induction "pending cl" arbitrary: cl w rule: framing_induct)
  case (stop cl)
  have L: "length (pending cl) = c_len cl" by (rule pending_length [OF stop(2)])
  then have "cl\<lparr>c_buffer := c_buffer cl, c_len := length (pending cl)\<rparr> = cl" by simp
  then show ?case
    using framing_stop [OF stop(1)] ProcessBuffer_stop [OF stop(2,1)] L stop(2)
    by (intro exI [of _ "c_buffer cl"]) (auto simp: pending_def)
next
  case (step n cl)
  let ?p = "pending cl"
  obtain b where b: "ProcessBuffer msg cl w =
      do { w \<leftarrow> deliver msg (c_fd cl) [take n ?p] w; ProcessBuffer msg (cl\<lparr>c_buffer := b, c_len := c_len cl - n\<rparr>) w }"
    "length b = length (c_buffer cl)" "take (c_len cl - n) b = drop n ?p"
    by (rule ProcessBuffer_step [OF step(5) r step(1-3)])
  let ?cl = "cl\<lparr>c_buffer := b, c_len := c_len cl - n\<rparr>"
  have p: "drop n ?p = pending ?cl" using b(3) by (simp add: pending_def)
  have fr: "frames ?p = take n ?p # frames (pending ?cl)" "rest ?p = rest (pending ?cl)"
    using framing_step [OF step(1-3)] p by simp_all
  have IH: "\<exists>b'. length b' = length b \<and> take (length (rest ?p)) b' = rest ?p \<and> length (rest ?p) \<le> length b' \<and>
    ProcessBuffer msg ?cl w = map_option (Pair (cl\<lparr>c_buffer := b', c_len := length (rest ?p)\<rparr>))
      (deliver msg (c_fd cl) (frames (pending ?cl)) w)" for w
    using step(4) [OF p, of w] b(2) step(5) fr(2) by simp
  have d: "deliver msg (c_fd cl) (frames ?p) w =
      do { w \<leftarrow> deliver msg (c_fd cl) [take n ?p] w; deliver msg (c_fd cl) (frames (pending ?cl)) w }"
    using deliver_append [of msg "c_fd cl" "[take n ?p]" "frames (pending ?cl)" w] fr(1) by (simp only: append.simps)
  show ?case
  proof (cases "deliver msg (c_fd cl) [take n ?p] w")
    case None
    then show ?thesis using IH [of w] b(1,2) d by auto
  next
    case (Some w')
    then show ?thesis using IH [of w'] b(1,2) d by auto
  qed
qed

section \<open>The state of the connections\<close>

text \<open>
  The contract with the operating system: \<open>recv\<close> stores at most as many bytes as asked for, \<open>select\<close> reports a subset of the
  descriptors it was given, and \<open>accept\<close> fails or gives a descriptor that is not open.
\<close>

definition recv_ok :: "(int \<Rightarrow> nat \<Rightarrow> byte list option) \<Rightarrow> bool" where
  "recv_ok recv \<longleftrightarrow> (\<forall>fd n bs. recv fd n = Some bs \<longrightarrow> length bs \<le> n)"

definition client_ok :: "ClientState \<Rightarrow> bool" where
  "client_ok c \<longleftrightarrow> length (c_buffer c) = RECV_BUFFER_SIZE \<and> c_len c < CHAT_MAX_MSG_SIZE \<and> (c_fd c = - 1 \<or> fd_ok (c_fd c))"

lemma client_ok_space:
  assumes "client_ok c"
  shows "(RECV_BUFFER_SIZE + 2 ^ 64 - c_len c) mod 2 ^ 64 = RECV_BUFFER_SIZE - c_len c"
    and "2 * CHAT_MAX_MSG_SIZE \<le> RECV_BUFFER_SIZE - c_len c" "RECV_BUFFER_SIZE - c_len c \<noteq> 0"
proof -
  have c: "c_len c < 257" using assms by (simp add: client_ok_def size_defs)
  then have "RECV_BUFFER_SIZE + 2 ^ 64 - c_len c = (RECV_BUFFER_SIZE - c_len c) + 2 ^ 64" "RECV_BUFFER_SIZE - c_len c < 2 ^ 64"
    by (simp_all add: RECV_BUFFER_SIZE_def size_defs)
  then show "(RECV_BUFFER_SIZE + 2 ^ 64 - c_len c) mod 2 ^ 64 = RECV_BUFFER_SIZE - c_len c"
    by (metis mod_add_self2 mod_less)
  show "2 * CHAT_MAX_MSG_SIZE \<le> RECV_BUFFER_SIZE - c_len c" using c by (simp add: RECV_BUFFER_SIZE_def size_defs)
  show "RECV_BUFFER_SIZE - c_len c \<noteq> 0" using c by (simp add: RECV_BUFFER_SIZE_def size_defs)
qed

text \<open>Data for a client: the connection is closed, or the frames that are now complete are delivered.\<close>

definition gone :: "byte list option \<Rightarrow> bool" where
  "gone got \<longleftrightarrow> got = None \<or> got = Some []"

lemma HandleClientData_gone:
  assumes c: "client_ok c" "c_fd c \<noteq> - 1" and s: "length s = FD_SETSIZE"
    and got: "gone (recv (c_fd c) (RECV_BUFFER_SIZE - c_len c))"
  shows "HandleClientData recv c s msg disc w =
    map_option (\<lambda>w. (c\<lparr>c_fd := - 1, c_len := 0\<rparr>, s[nat (c_fd c) := False], w))
      (case disc of None \<Rightarrow> Some (close_fd (c_fd c) w) | Some f \<Rightarrow> f (c_fd c) (close_fd (c_fd c) w))"
proof -
  have fd: "0 \<le> c_fd c" "c_fd c < int FD_SETSIZE" using c by (auto simp: client_ok_def fd_ok_def)
  then have "FD_CLR (c_fd c) s = Some (s[nat (c_fd c) := False])" using s by (simp add: FD_put_def wr_def)
  then show ?thesis
    using got unfolding HandleClientData_def client_ok_space(1) [OF c(1)] Let_def gone_def if_not_P [OF client_ok_space(3) [OF c(1)]]
    by (simp add: map_conv_bind_option comp_def split: option.split)
qed

lemma HandleClientData_data:
  assumes c: "client_ok c" and r: "reads_message msg" "recv_ok recv"
    and got: "recv (c_fd c) (RECV_BUFFER_SIZE - c_len c) = Some bs" "bs \<noteq> []"
  obtains b where "HandleClientData recv c s msg disc w =
      map_option (\<lambda>w. (c\<lparr>c_buffer := b, c_len := length (rest (pending c @ bs))\<rparr>, s, w))
        (deliver msg (c_fd c) (frames (pending c @ bs)) w)"
    "client_ok (c\<lparr>c_buffer := b, c_len := length (rest (pending c @ bs))\<rparr>)"
    "pending (c\<lparr>c_buffer := b, c_len := length (rest (pending c @ bs))\<rparr>) = rest (pending c @ bs)"
proof -
  note sp = client_ok_space [OF c]
  have len: "length (c_buffer c) = RECV_BUFFER_SIZE" "c_len c < CHAT_MAX_MSG_SIZE" using c by (auto simp: client_ok_def)
  have bs: "length bs \<le> RECV_BUFFER_SIZE - c_len c" using r(2) got(1) by (auto simp: recv_ok_def)
  then have room: "c_len c + length bs \<le> RECV_BUFFER_SIZE" using sp(3) by simp
  define b0 where "b0 = take (c_len c) (c_buffer c) @ bs @ drop (c_len c + length bs) (c_buffer c)"
  have cp: "memcpy (c_buffer c) (c_len c) bs 0 (length bs) = Some b0"
    using room len by (simp add: memcpy_def b0_def)
  let ?c = "c\<lparr>c_buffer := b0, c_len := c_len c + length bs\<rparr>"
  have b0: "length b0 = RECV_BUFFER_SIZE" using length_memcpy [OF cp] len by simp
  have p: "pending ?c = pending c @ bs"
    using len(1) room by (simp add: pending_def b0_def min_absorb2)
  obtain b where b: "length b = RECV_BUFFER_SIZE" "take (length (rest (pending c @ bs))) b = rest (pending c @ bs)"
      "ProcessBuffer msg ?c w = map_option (Pair (?c\<lparr>c_buffer := b, c_len := length (rest (pending c @ bs))\<rparr>))
        (deliver msg (c_fd c) (frames (pending c @ bs)) w)"
    using ProcessBuffer_frames [of ?c msg w] r(1) b0 room unfolding p by auto
  have "HandleClientData recv c s msg disc w =
      map_option (\<lambda>w. (c\<lparr>c_buffer := b, c_len := length (rest (pending c @ bs))\<rparr>, s, w))
        (deliver msg (c_fd c) (frames (pending c @ bs)) w)"
    using got cp b(3) unfolding HandleClientData_def sp(1) Let_def if_not_P [OF sp(3)]
    by (cases "deliver msg (c_fd c) (frames (pending c @ bs)) w") simp_all
  then show thesis
    using that [of b] b(1,2) rest_short [of "pending c @ bs"] c by (simp add: client_ok_def pending_def)
qed

section \<open>The invariant of the connections\<close>

definition accept_ok :: "(int list \<Rightarrow> int) \<Rightarrow> bool" where
  "accept_ok accept \<longleftrightarrow> (\<forall>fds. accept fds = - 1 \<or> fd_ok (accept fds) \<and> accept fds \<notin> set fds)"

definition round_ok :: "round \<Rightarrow> bool" where
  "round_ok r \<longleftrightarrow> recv_ok (os_recv r) \<and> accept_ok (os_accept r) \<and>
     (\<forall>n s s'. os_select r n s = Select_Ready s' \<longrightarrow> length s' = FD_SETSIZE)"

text \<open>
  Live connections have different descriptors, none of them the listening one, and the master set holds exactly these
  descriptors, none above \<open>maxFd\<close>.
\<close>

definition conns_ok :: "int \<Rightarrow> ClientState list \<Rightarrow> bool" where
  "conns_ok lfd cs \<longleftrightarrow> length cs = MAX_CLIENTS \<and> fd_ok lfd \<and> (\<forall>i < MAX_CLIENTS. client_ok (cs ! i) \<and> c_fd (cs ! i) \<noteq> lfd) \<and>
     (\<forall>i < MAX_CLIENTS. \<forall>j < MAX_CLIENTS. c_fd (cs ! i) = c_fd (cs ! j) \<longrightarrow> c_fd (cs ! i) = - 1 \<or> i = j)"

definition watches :: "fd_set \<Rightarrow> int \<Rightarrow> int \<Rightarrow> ClientState list \<Rightarrow> bool" where
  "watches s mx lfd cs \<longleftrightarrow> length s = FD_SETSIZE \<and> lfd \<le> mx \<and> mx < int FD_SETSIZE \<and>
     (\<forall>n < FD_SETSIZE. s ! n \<longleftrightarrow> int n = lfd \<or> (\<exists>i < MAX_CLIENTS. c_fd (cs ! i) = int n)) \<and>
     (\<forall>i < MAX_CLIENTS. c_fd (cs ! i) \<le> mx)"

definition net_inv :: "'s ServerNet \<Rightarrow> bool" where
  "net_inv net \<longleftrightarrow> conns_ok (listenFd net) (clients net) \<and> watches (masterSet net) (maxFd net) (listenFd net) (clients net)"

lemma conns_ok_update:
  assumes "conns_ok lfd cs" "i < MAX_CLIENTS" "client_ok c"
    and "c_fd c = c_fd (cs ! i) \<or> c_fd c = - 1 \<or> c_fd c \<notin> set (open_fds lfd cs)"
  shows "conns_ok lfd (cs[i := c])"
proof -
  have L: "length cs = MAX_CLIENTS" and "fd_ok lfd" using assms(1) by (auto simp: conns_ok_def)
  then have in_open: "c_fd (cs ! j) \<in> set (open_fds lfd cs)" if "j < MAX_CLIENTS" "c_fd (cs ! j) \<noteq> - 1" for j
    using that by (auto simp: open_fds_def)
  have new: "c_fd c \<noteq> lfd" "\<forall>j < MAX_CLIENTS. j \<noteq> i \<longrightarrow> c_fd c = c_fd (cs ! j) \<longrightarrow> c_fd c = - 1"
  proof -
    show "c_fd c \<noteq> lfd" using assms \<open>fd_ok lfd\<close> by (auto simp: conns_ok_def open_fds_def fd_ok_def)
    show "\<forall>j < MAX_CLIENTS. j \<noteq> i \<longrightarrow> c_fd c = c_fd (cs ! j) \<longrightarrow> c_fd c = - 1"
      using assms(1,2,4) in_open unfolding conns_ok_def by metis
  qed
  show ?thesis
    unfolding conns_ok_def
  proof (intro conjI allI impI)
    show "length (cs[i := c]) = MAX_CLIENTS" "fd_ok lfd" using assms(1) by (auto simp: conns_ok_def)
    fix j assume j: "j < MAX_CLIENTS"
    show "client_ok (cs[i := c] ! j)" "c_fd (cs[i := c] ! j) \<noteq> lfd"
      using assms(1,3) new(1) j by (cases "j = i"; simp add: conns_ok_def)+
    fix k assume "k < MAX_CLIENTS" "c_fd (cs[i := c] ! j) = c_fd (cs[i := c] ! k)"
    then show "c_fd (cs[i := c] ! j) = - 1 \<or> j = k"
      using assms(1) new(2) j by (cases "j = i"; cases "k = i") (auto simp: conns_ok_def)
  qed
qed

lemma watches_same:
  "watches s mx lfd cs \<Longrightarrow> length cs = MAX_CLIENTS \<Longrightarrow> i < MAX_CLIENTS \<Longrightarrow> c_fd c = c_fd (cs ! i) \<Longrightarrow> watches s mx lfd (cs[i := c])"
proof -
  assume a: "watches s mx lfd cs" "length cs = MAX_CLIENTS" "i < MAX_CLIENTS" "c_fd c = c_fd (cs ! i)"
  have "c_fd (cs[i := c] ! j) = c_fd (cs ! j)" if "j < MAX_CLIENTS" for j
    using a that by (cases "j = i") auto
  then have "(\<exists>j < MAX_CLIENTS. c_fd (cs[i := c] ! j) = n) \<longleftrightarrow> (\<exists>j < MAX_CLIENTS. c_fd (cs ! j) = n)"
    "j < MAX_CLIENTS \<Longrightarrow> c_fd (cs[i := c] ! j) = c_fd (cs ! j)" for n j by auto
  then show ?thesis using a(1) unfolding watches_def by simp
qed

lemma watches_remove:
  assumes W: "watches s mx lfd cs" and C: "conns_ok lfd cs" and i: "i < MAX_CLIENTS" "c_fd (cs ! i) \<noteq> - 1" "c_fd c = - 1"
  shows "watches (s[nat (c_fd (cs ! i)) := False]) mx lfd (cs[i := c])"
proof -
  let ?f = "c_fd (cs ! i)" let ?cs = "cs[i := c]"
  have L: "length cs = MAX_CLIENTS" "length s = FD_SETSIZE" using C W by (auto simp: conns_ok_def watches_def)
  have f: "fd_ok ?f" "?f \<noteq> lfd" using C i by (auto simp: conns_ok_def client_ok_def)
  have other: "(\<exists>j < MAX_CLIENTS. c_fd (?cs ! j) = int n) \<longleftrightarrow> int n \<noteq> ?f \<and> (\<exists>j < MAX_CLIENTS. c_fd (cs ! j) = int n)" for n
  proof
    assume "\<exists>j < MAX_CLIENTS. c_fd (?cs ! j) = int n"
    then obtain j where j: "j < MAX_CLIENTS" "c_fd (?cs ! j) = int n" by blast
    have "j \<noteq> i" using j i(3) L(1) by (cases "j = i") auto
    then have "c_fd (cs ! j) = int n" using j by simp
    moreover have "int n \<noteq> ?f" using C j(1) i(1,2) \<open>j \<noteq> i\<close> calculation unfolding conns_ok_def by metis
    ultimately show "int n \<noteq> ?f \<and> (\<exists>j < MAX_CLIENTS. c_fd (cs ! j) = int n)" using j(1) by blast
  next
    assume "int n \<noteq> ?f \<and> (\<exists>j < MAX_CLIENTS. c_fd (cs ! j) = int n)"
    then obtain j where "int n \<noteq> ?f" "j < MAX_CLIENTS" "c_fd (cs ! j) = int n" by blast
    then show "\<exists>j < MAX_CLIENTS. c_fd (?cs ! j) = int n" by (intro exI [of _ j]) (cases "j = i", auto)
  qed
  have "s[nat ?f := False] ! n \<longleftrightarrow> int n = lfd \<or> (\<exists>j < MAX_CLIENTS. c_fd (?cs ! j) = int n)" if n: "n < FD_SETSIZE" for n
  proof (cases "int n = ?f")
    case True
    then have "nat ?f = n" by auto
    then show ?thesis using other [of n] True f(2) L(2) n by simp
  next
    case False
    then have "nat ?f \<noteq> n" using f(1) by (auto simp: fd_ok_def)
    then show ?thesis using other [of n] False W n by (simp add: watches_def)
  qed
  moreover have "c_fd (?cs ! j) \<le> mx" if "j < MAX_CLIENTS" for j
    using W i(3) that L(1) f by (cases "j = i") (auto simp: watches_def fd_ok_def intro: order_trans [of "- 1" lfd])
  ultimately show ?thesis using W unfolding watches_def by simp
qed

lemma watches_add:
  assumes W: "watches s mx lfd cs" and C: "conns_ok lfd cs" and i: "i < MAX_CLIENTS" "c_fd (cs ! i) = - 1" "fd_ok (c_fd c)"
  shows "watches (s[nat (c_fd c) := True]) (if c_fd c > mx then c_fd c else mx) lfd (cs[i := c])"
proof -
  let ?f = "c_fd c" let ?cs = "cs[i := c]"
  have L: "length cs = MAX_CLIENTS" "length s = FD_SETSIZE" using C W by (auto simp: conns_ok_def watches_def)
  have other: "(\<exists>j < MAX_CLIENTS. c_fd (?cs ! j) = int n) \<longleftrightarrow> int n = ?f \<or> (\<exists>j < MAX_CLIENTS. c_fd (cs ! j) = int n)" for n
  proof
    assume "\<exists>j < MAX_CLIENTS. c_fd (?cs ! j) = int n"
    then obtain j where "j < MAX_CLIENTS" "c_fd (?cs ! j) = int n" by blast
    then show "int n = ?f \<or> (\<exists>j < MAX_CLIENTS. c_fd (cs ! j) = int n)" using L(1) by (cases "j = i") auto
  next
    assume "int n = ?f \<or> (\<exists>j < MAX_CLIENTS. c_fd (cs ! j) = int n)"
    then consider "int n = ?f" | j where "j < MAX_CLIENTS" "c_fd (cs ! j) = int n" by blast
    then show "\<exists>j < MAX_CLIENTS. c_fd (?cs ! j) = int n"
    proof cases
      case 1
      then show ?thesis using i(1) L(1) by (intro exI [of _ i]) simp
    next
      case (2 j)
      then show ?thesis using i(2) by (intro exI [of _ j]) (cases "j = i", auto)
    qed
  qed
  have "s[nat ?f := True] ! n \<longleftrightarrow> int n = lfd \<or> (\<exists>j < MAX_CLIENTS. c_fd (?cs ! j) = int n)" if n: "n < FD_SETSIZE" for n
  proof (cases "int n = ?f")
    case True
    then have "nat ?f = n" by auto
    then show ?thesis using other [of n] True L(2) n by simp
  next
    case False
    then have "nat ?f \<noteq> n" using i(3) by (auto simp: fd_ok_def)
    then show ?thesis using other [of n] False W n by (simp add: watches_def)
  qed
  moreover have "c_fd (?cs ! j) \<le> (if ?f > mx then ?f else mx)" if "j < MAX_CLIENTS" for j
    using W that L(1) by (cases "j = i") (auto simp: watches_def intro: order_trans)
  ultimately show ?thesis using W i(3) unfolding watches_def by (auto simp: fd_ok_def)
qed

lemma FD_ok:
  assumes "fd_ok fd" "length s = FD_SETSIZE"
  shows "FD_put fd b s = Some (s[nat fd := b])" "FD_ISSET fd s = Some (s ! nat fd)"
proof -
  have "nat fd < length s" "0 \<le> fd" "fd < int FD_SETSIZE" using assms by (auto simp: fd_ok_def)
  then show "FD_put fd b s = Some (s[nat fd := b])" "FD_ISSET fd s = Some (s ! nat fd)"
    by (simp_all add: FD_put_def FD_ISSET_def rd_def wr_def)
qed

lemma free_slot_spec:
  "free_slot k cs = Some i \<Longrightarrow> k \<le> i \<and> i < k + length cs \<and> c_fd (cs ! (i - k)) = - 1"
proof (induction cs arbitrary: k)
  case (Cons c cs)
  show ?case
  proof (cases "c_fd c = - 1")
    case False
    then have "free_slot (Suc k) cs = Some i" using Cons.prems by simp
    then have "Suc k \<le> i \<and> i < Suc k + length cs \<and> c_fd (cs ! (i - Suc k)) = - 1" by (rule Cons.IH)
    moreover from this have "i - k = Suc (i - Suc k)" by linarith
    ultimately show ?thesis by simp
  qed (use Cons.prems in auto)
qed simp

lemma free_slot_None: "free_slot k cs = None \<longleftrightarrow> (\<forall>c \<in> set cs. c_fd c \<noteq> - 1)"
  by (induction cs arbitrary: k) auto

text \<open>A new connection keeps the invariant; without a free slot the new descriptor is closed again.\<close>

lemma HandleNewConnection_ok:
  assumes C: "conns_ok lfd cs" and W: "watches s mx lfd cs" and a: "accept_ok accept"
  shows "\<exists>cs' mx' s' cl. HandleNewConnection accept lfd cs mx s w = Some (cs', mx', s', w\<lparr>closed := closed w @ cl\<rparr>) \<and>
    conns_ok lfd cs' \<and> watches s' mx' lfd cs'"
proof (cases "accept (open_fds lfd cs) = - 1")
  case True
  then have "HandleNewConnection accept lfd cs mx s w = Some (cs, mx, s, w\<lparr>closed := closed w @ []\<rparr>)"
    by (simp add: HandleNewConnection_def)
  then show ?thesis using C W by blast
next
  case False
  let ?f = "accept (open_fds lfd cs)"
  have f: "fd_ok ?f" "?f \<notin> set (open_fds lfd cs)" using a False by (auto simp: accept_ok_def)
  show ?thesis
  proof (cases "free_slot 0 cs")
    case None
    then show ?thesis using False C W by (auto simp: HandleNewConnection_def close_fd_def)
  next
    case (Some i)
    have L: "length cs = MAX_CLIENTS" "length s = FD_SETSIZE" using C W by (auto simp: conns_ok_def watches_def)
    have i: "i < MAX_CLIENTS" "c_fd (cs ! i) = - 1" using free_slot_spec [OF Some] L(1) by auto
    let ?c = "(cs ! i)\<lparr>c_fd := ?f, c_len := 0\<rparr>"
    have "client_ok ?c" using C i(1) f(1) by (auto simp: conns_ok_def client_ok_def size_defs)
    then have "conns_ok lfd (cs[i := ?c])" by (rule conns_ok_update [OF C i(1)]) (use f in simp)
    moreover have "watches (s[nat ?f := True]) (if ?f > mx then ?f else mx) lfd (cs[i := ?c])"
      using watches_add [OF W C i, of ?c] f(1) by (auto split: if_splits)
    moreover have "HandleNewConnection accept lfd cs mx s w =
        Some (cs[i := ?c], if ?f > mx then ?f else mx, s[nat ?f := True], w\<lparr>closed := closed w @ []\<rparr>)"
      using False Some i(1) L FD_ok(1) [OF f(1) L(2)] by (simp add: HandleNewConnection_def rd_def wr_def Let_def)
    ultimately show ?thesis by blast
  qed
qed

section \<open>The contract of the message handler\<close>

text \<open>
  What the layer relies on: the handler looks at no byte beyond the message, both callbacks return when the state of the
  management layer satisfies its invariant, and they keep it.
\<close>

locale message_handler =
  fixes msg :: "'s Wire_scheme OnMessageFn"
    and disc :: "'s Wire_scheme OnDisconnectFn"
    and inv :: "'s Wire_scheme \<Rightarrow> bool"
  assumes reads_law: "reads_message msg"
    and msg_law: "msg = Some h \<Longrightarrow> inv w \<Longrightarrow> 2 \<le> length f \<Longrightarrow> \<exists>r w'. h fd (Some f) (length f) w = Some (r, w') \<and> inv w'"
    and disc_law: "disc = Some d \<Longrightarrow> inv w \<Longrightarrow> \<exists>w'. d fd w = Some w' \<and> inv w'"
    and closed_law: "inv w \<Longrightarrow> inv (w\<lparr>closed := cl\<rparr>)"
begin

lemma deliver_total: "inv w \<Longrightarrow> \<forall>f \<in> set fs. 2 \<le> length f \<Longrightarrow> \<exists>w'. deliver msg fd fs w = Some w' \<and> inv w'"
proof (induction fs arbitrary: w)
  case (Cons f fs)
  show ?case
  proof (cases msg)
    case (Some h)
    then obtain r w' where "h fd (Some f) (length f) w = Some (r, w')" "inv w'" using msg_law [OF Some Cons.prems(1), of f fd] Cons.prems by auto
    then show ?thesis using Cons.IH [of w'] Cons.prems Some by simp
  qed (use Cons in simp)
qed simp

definition serving :: "'s Wire_scheme ServerNet \<Rightarrow> 's Wire_scheme \<Rightarrow> bool" where
  "serving net w \<longleftrightarrow> net_inv net \<and> onMsg net = msg \<and> onDisc net = disc \<and> inv w"

lemma client_data:
  assumes "client_ok c" "c_fd c \<noteq> - 1" "length s = FD_SETSIZE" "recv_ok recv" "inv w"
  shows "\<exists>c' s' w'. HandleClientData recv c s msg disc w = Some (c', s', w') \<and> inv w' \<and> client_ok c' \<and>
    (c_fd c' = c_fd c \<and> s' = s \<or> c_fd c' = - 1 \<and> s' = s[nat (c_fd c) := False])"
proof (cases "gone (recv (c_fd c) (RECV_BUFFER_SIZE - c_len c))")
  case True
  have "inv (close_fd (c_fd c) w)" using closed_law [OF assms(5)] by (simp add: close_fd_def)
  then have "\<exists>w'. (case disc of None \<Rightarrow> Some (close_fd (c_fd c) w) | Some f \<Rightarrow> f (c_fd c) (close_fd (c_fd c) w)) = Some w' \<and> inv w'"
    using disc_law by (auto split: option.split)
  moreover have "client_ok (c\<lparr>c_fd := - 1, c_len := 0\<rparr>)" using assms(1) by (simp add: client_ok_def size_defs)
  ultimately show ?thesis
    using HandleClientData_gone [of c s recv msg disc w] assms True by auto
next
  case False
  then obtain bs where bs: "recv (c_fd c) (RECV_BUFFER_SIZE - c_len c) = Some bs" "bs \<noteq> []" by (auto simp: gone_def)
  obtain b where b: "HandleClientData recv c s msg disc w =
      map_option (\<lambda>w. (c\<lparr>c_buffer := b, c_len := length (rest (pending c @ bs))\<rparr>, s, w))
        (deliver msg (c_fd c) (frames (pending c @ bs)) w)"
    "client_ok (c\<lparr>c_buffer := b, c_len := length (rest (pending c @ bs))\<rparr>)"
    by (rule HandleClientData_data [OF assms(1) reads_law assms(4) bs])
  have "\<exists>w'. deliver msg (c_fd c) (frames (pending c @ bs)) w = Some w' \<and> inv w'"
    using frames_complete by (intro deliver_total [OF assms(5)]) blast
  then show ?thesis using b by auto
qed

lemma serve_clients_ok:
  assumes "serving net w" "recv_ok recv" "length readSet = FD_SETSIZE" "\<forall>i \<in> set is. i < MAX_CLIENTS"
  shows "\<exists>net' w'. serve_clients recv readSet is net w = Some (net', w') \<and> serving net' w'"
  using assms
proof (induction "is" arbitrary: net w)
  case (Cons i "is")
  let ?c = "clients net ! i" let ?cs = "clients net" let ?s = "masterSet net"
  have I: "conns_ok (listenFd net) ?cs" "watches ?s (maxFd net) (listenFd net) ?cs" "onMsg net = msg" "onDisc net = disc" "inv w"
    using Cons.prems(1) by (auto simp: serving_def net_inv_def)
  have i: "i < MAX_CLIENTS" "length ?cs = MAX_CLIENTS" "client_ok ?c" "length ?s = FD_SETSIZE"
    using Cons.prems(4) I by (auto simp: conns_ok_def watches_def)
  have rd: "rd ?cs i = Some ?c" using i by (simp add: rd_def)
  have "\<exists>b. (if - 1 \<noteq> c_fd ?c then FD_ISSET (c_fd ?c) readSet else Some False) = Some b \<and> (b \<longrightarrow> c_fd ?c \<noteq> - 1)"
    using i(3) Cons.prems(3) by (auto simp: FD_ISSET_def rd_def client_ok_def fd_ok_def)
  then obtain b where b: "(if - 1 \<noteq> c_fd ?c then FD_ISSET (c_fd ?c) readSet else Some False) = Some b" "b \<longrightarrow> c_fd ?c \<noteq> - 1"
    by blast
  show ?case
  proof (cases b)
    case False
    then show ?thesis using Cons.IH [OF Cons.prems(1-3)] Cons.prems(4) rd b by simp
  next
    case True
    obtain c' s' w' where h: "HandleClientData recv ?c ?s msg disc w = Some (c', s', w')" "inv w'" "client_ok c'"
        "c_fd c' = c_fd ?c \<and> s' = ?s \<or> c_fd c' = - 1 \<and> s' = ?s[nat (c_fd ?c) := False]"
      using client_data [OF i(3) _ i(4) Cons.prems(2) I(5)] b(2) True by blast
    let ?net = "net\<lparr>clients := ?cs[i := c'], masterSet := s'\<rparr>"
    have "conns_ok (listenFd net) (?cs[i := c'])" using conns_ok_update [OF I(1) i(1) h(3)] h(4) by blast
    moreover have "watches s' (maxFd net) (listenFd net) (?cs[i := c'])"
      using h(4) watches_same [OF I(2) i(2,1), of c'] watches_remove [OF I(2,1) i(1), of c'] b(2) True by blast
    ultimately have "serving ?net w'" using I h(2) by (simp add: serving_def net_inv_def)
    then show ?thesis
      using Cons.IH [of ?net w'] Cons.prems rd b(1) True h(1) I(3,4) i(1,2) by (simp add: wr_def)
  qed
qed simp

lemma serve_ready_ok:
  assumes "serving net w" "round_ok r" "length readSet = FD_SETSIZE"
  shows "\<exists>net' w'. serve_ready r readSet net w = Some (net', w') \<and> serving net' w'"
proof -
  have I: "conns_ok (listenFd net) (clients net)" "watches (masterSet net) (maxFd net) (listenFd net) (clients net)" "inv w"
    "recv_ok (os_recv r)" "accept_ok (os_accept r)"
    using assms by (auto simp: serving_def net_inv_def round_ok_def)
  have "fd_ok (listenFd net)" using I(1) by (simp add: conns_ok_def)
  then have new: "FD_ISSET (listenFd net) readSet = Some (readSet ! nat (listenFd net))"
    using FD_ok(2) assms(3) by blast
  have go: "\<exists>net' w'. serve_clients (os_recv r) readSet [0..<MAX_CLIENTS] n v = Some (net', w') \<and> serving net' w'"
    if "serving n v" for n v
    by (rule serve_clients_ok [OF that I(4) assms(3)]) simp
  show ?thesis
  proof (cases "readSet ! nat (listenFd net)")
    case False
    then show ?thesis using go [OF assms(1)] new by (simp add: serve_ready_def)
  next
    case True
    obtain cs mx s cl where h: "HandleNewConnection (os_accept r) (listenFd net) (clients net) (maxFd net) (masterSet net) w =
        Some (cs, mx, s, w\<lparr>closed := closed w @ cl\<rparr>)" "conns_ok (listenFd net) cs" "watches s mx (listenFd net) cs"
      using HandleNewConnection_ok [OF I(1,2,5), of w] by blast
    have "serving (net\<lparr>clients := cs, maxFd := mx, masterSet := s\<rparr>) (w\<lparr>closed := closed w @ cl\<rparr>)"
      using assms(1) h(2,3) closed_law [OF I(3)] by (simp add: serving_def net_inv_def)
    from go [OF this] show ?thesis using True new h(1) by (simp add: serve_ready_def)
  qed
qed

lemma select_loop_ok:
  assumes "serving net w" "\<forall>r \<in> set rs. round_ok r"
  shows "\<exists>v net' w'. select_loop rs net w = Some (v, net', w') \<and> serving net' w' \<and> (v = 0 \<or> v = - 1)"
  using assms
proof (induction rs arbitrary: net w)
  case (Cons r rs)
  show ?case
  proof (cases "os_select r (maxFd net + 1) (masterSet net)")
    case (Select_Ready readSet)
    then have "length readSet = FD_SETSIZE" using Cons.prems(2) by (auto simp: round_ok_def)
    then obtain net1 w1 where "serve_ready r readSet net w = Some (net1, w1)" "serving net1 w1"
      using serve_ready_ok [OF Cons.prems(1)] Cons.prems(2) by (metis list.set_intros(1))
    then show ?thesis using Cons.IH [of net1 w1] Cons.prems(2) Select_Ready by simp
  qed (use Cons in auto)
qed simp

end

section \<open>Correctness of the networking layer\<close>

text \<open>A connection that receives chunks, one after the other.\<close>

fun receive_all ::
  "byte list list \<Rightarrow> ClientState \<Rightarrow> fd_set \<Rightarrow> 's Wire_scheme OnMessageFn \<Rightarrow> 's Wire_scheme OnDisconnectFn \<Rightarrow> 's Wire_scheme \<Rightarrow>
   (ClientState \<times> fd_set \<times> 's Wire_scheme) option"
where
  "receive_all [] c s msg disc w = Some (c, s, w)"
| "receive_all (bs # bss) c s msg disc w = do {
     (c, s, w) \<leftarrow> HandleClientData (\<lambda>_ n. Some (take n bs)) c s msg disc w;
     receive_all bss c s msg disc w
   }"

text \<open>A connection without data, a handler that sends each message back, and a stream of two messages for concrete instances.\<close>

definition sample_client :: ClientState where
  "sample_client = \<lparr>c_fd = 5, c_buffer = replicate RECV_BUFFER_SIZE 0, c_len = 0\<rparr>"

definition sample_wire :: Wire where
  "sample_wire = \<lparr>sent = [], closed = [], os_send = (\<lambda>_ bs. int (length bs))\<rparr>"

definition echo :: "Wire OnMessageFn" where
  "echo = Some (\<lambda>fd b n w. ServerNet_SendMessage fd (map_option (take n) b) n w)"

lemma sample_client_ok: "client_ok sample_client" "pending sample_client = []" "c_fd sample_client = 5"
  by (simp_all add: client_ok_def sample_client_def pending_def fd_ok_def FD_SETSIZE_def size_defs)

lemma frames_of_rest: "frames (rest bs) = [] \<and> rest (rest bs) = rest bs"
  by (induction bs rule: framing_induct) (simp_all add: framing_stop framing_step)

lemma echo_reads: "reads_message echo"
  by (auto simp: reads_message_def echo_def)

definition new_net :: "byte list \<Rightarrow> int \<Rightarrow> 's Wire_scheme OnMessageFn \<Rightarrow> 's Wire_scheme OnDisconnectFn \<Rightarrow> 's Wire_scheme ServerNet" where
  "new_net bufs fd msg disc = \<lparr>listenFd = fd, maxFd = fd, masterSet = FD_ZERO[nat fd := True],
     clients = replicate MAX_CLIENTS \<lparr>c_fd = - 1, c_buffer = bufs, c_len = 0\<rparr>, onMsg = msg, onDisc = disc\<rparr>"

lemma new_net_inv:
  assumes "length bufs = RECV_BUFFER_SIZE" "fd_ok fd"
  shows "net_inv (new_net bufs fd msg disc)"
proof -
  let ?cs = "replicate MAX_CLIENTS \<lparr>c_fd = - 1, c_buffer = bufs, c_len = 0\<rparr>"
  have z: "length FD_ZERO = FD_SETSIZE" by (simp add: FD_ZERO_def)
  have "client_ok \<lparr>c_fd = - 1, c_buffer = bufs, c_len = 0\<rparr>" using assms(1) by (simp add: client_ok_def size_defs)
  then have "conns_ok fd ?cs" using assms(2) by (auto simp: conns_ok_def fd_ok_def)
  moreover have "FD_ZERO[nat fd := True] ! n \<longleftrightarrow> int n = fd" if "n < FD_SETSIZE" for n
    using that assms(2) by (cases "n = nat fd") (auto simp: FD_ZERO_def fd_ok_def)
  then have "watches (FD_ZERO[nat fd := True]) fd fd ?cs"
    using assms(2) z by (auto simp: watches_def fd_ok_def)
  ultimately show ?thesis by (simp add: net_inv_def new_net_def)
qed

text \<open>All calls that open the listening socket succeed.\<close>

definition listen_ok :: "ListenOs \<Rightarrow> u16 \<Rightarrow> bool" where
  "listen_ok os port \<longleftrightarrow> os_socket os \<noteq> - 1 \<and> os_setsockopt os \<noteq> - 1 \<and> os_bind os port \<noteq> - 1 \<and> os_listen os \<noteq> - 1"

lemma ServerNet_Create_eq:
  assumes "os_socket os = - 1 \<or> fd_ok (os_socket os)"
  shows "ServerNet_Create ok bufs os port msg disc w =
    (if ok \<and> listen_ok os port then Some (Some (new_net bufs (os_socket os) msg disc), w)
     else Some (None, if ok \<and> os_socket os \<noteq> - 1 then close_fd (os_socket os) w else w))"
proof -
  have z: "length FD_ZERO = FD_SETSIZE" by (simp add: FD_ZERO_def)
  show ?thesis
    using assms FD_ok(1) [OF _ z, of "os_socket os" True]
    by (auto simp: ServerNet_Create_def SetupListeningSocket_def listen_ok_def new_net_def Let_def split: if_splits)
qed

definition sample_os :: ListenOs where
  "sample_os = \<lparr>os_socket = 3, os_setsockopt = 0, os_bind = (\<lambda>_. 0), os_listen = 0\<rparr>"

definition sample_net :: "Wire ServerNet" where
  "sample_net = new_net (replicate RECV_BUFFER_SIZE 0) 3 echo None"

lemma sample_net_inv: "net_inv sample_net" "listenFd sample_net = 3"
  unfolding sample_net_def by (rule new_net_inv) (simp_all add: fd_ok_def FD_SETSIZE_def new_net_def)

lemma sample_net_slot: "free_slot 0 (clients sample_net) = Some 0"
proof -
  obtain n where "MAX_CLIENTS = Suc n" by (cases MAX_CLIENTS) (auto simp: MAX_CLIENTS_def FD_SETSIZE_def)
  then have "clients sample_net = \<lparr>c_fd = - 1, c_buffer = replicate RECV_BUFFER_SIZE 0, c_len = 0\<rparr> #
      replicate n \<lparr>c_fd = - 1, c_buffer = replicate RECV_BUFFER_SIZE 0, c_len = 0\<rparr>"
    unfolding sample_net_def new_net_def by (metis ServerNet.select_convs(4) replicate_Suc)
  then show ?thesis by simp
qed

text \<open>
  Opening the server. \<open>ServerNet_Create\<close> gives a handle that satisfies the invariant of the layer, or NULL when a call fails; then
  the descriptor that was opened has been closed.
\<close>

theorem net_create:
  assumes "length bufs = RECV_BUFFER_SIZE" and "os_socket os = - 1 \<or> fd_ok (os_socket os)"
  shows "if ok \<and> listen_ok os port
    then \<exists>net. ServerNet_Create ok bufs os port msg disc w = Some (Some net, w) \<and> net_inv net \<and>
      listenFd net = os_socket os \<and> onMsg net = msg \<and> onDisc net = disc
    else ServerNet_Create ok bufs os port msg disc w =
      Some (None, if ok \<and> os_socket os \<noteq> - 1 then close_fd (os_socket os) w else w)"
  using new_net_inv [OF assms(1)] assms(2) ServerNet_Create_eq [OF assms(2), of ok bufs port msg disc w]
  by (auto simp: listen_ok_def new_net_def)

text \<open>
  C14: Framing. However TCP cuts the stream of a client into pieces that the buffer accepts, the callback is called
  on the same messages in the same order, namely the frames of the stream, and the bytes of the incomplete message at the end are
  kept. The loop over the buffer ends in every case.
\<close>

theorem stream_framing:
  assumes "client_ok c" and "frames (pending c) = []" and "reads_message msg"
    and "\<forall>bs \<in> set bss. bs \<noteq> [] \<and> length bs \<le> 2 * CHAT_MAX_MSG_SIZE"
  shows "\<exists>c'. receive_all bss c s msg disc w =
      map_option (\<lambda>w. (c', s, w)) (deliver msg (c_fd c) (frames (pending c @ concat bss)) w) \<and>
    client_ok c' \<and> c_fd c' = c_fd c \<and> pending c' = rest (pending c @ concat bss)"
  using assms
proof (induction bss arbitrary: c w)
  case Nil
  have "rest (pending c) = pending c" using Nil(2) frames_rest [of "pending c"] by simp
  then show ?case using Nil by (intro exI [of _ c]) simp
next
  case (Cons bs bss)
  have bs: "take (RECV_BUFFER_SIZE - c_len c) bs = bs" "bs \<noteq> []"
    using Cons.prems(4) client_ok_space(2) [OF Cons.prems(1)] by simp_all
  have "recv_ok (\<lambda>_ n. Some (take n bs))" by (simp add: recv_ok_def)
  then obtain b where b: "HandleClientData (\<lambda>_ n. Some (take n bs)) c s msg disc w =
      map_option (\<lambda>w. (c\<lparr>c_buffer := b, c_len := length (rest (pending c @ bs))\<rparr>, s, w))
        (deliver msg (c_fd c) (frames (pending c @ bs)) w)"
    "client_ok (c\<lparr>c_buffer := b, c_len := length (rest (pending c @ bs))\<rparr>)"
    "pending (c\<lparr>c_buffer := b, c_len := length (rest (pending c @ bs))\<rparr>) = rest (pending c @ bs)"
    using bs by (elim HandleClientData_data [OF Cons.prems(1,3)]) simp_all
  let ?c = "c\<lparr>c_buffer := b, c_len := length (rest (pending c @ bs))\<rparr>"
  have split: "frames (pending c @ concat (bs # bss)) = frames (pending c @ bs) @ frames (pending ?c @ concat bss)"
    "rest (pending c @ concat (bs # bss)) = rest (pending ?c @ concat bss)"
    using frames_append [of "pending c @ bs" "concat bss"] b(3) by simp_all
  have IH: "\<exists>c'. receive_all bss ?c s msg disc w =
      map_option (\<lambda>w. (c', s, w)) (deliver msg (c_fd c) (frames (pending ?c @ concat bss)) w) \<and>
      client_ok c' \<and> c_fd c' = c_fd c \<and> pending c' = rest (pending ?c @ concat bss)" for w
    using Cons.IH [of ?c w] b(2,3) frames_of_rest [of "pending c @ bs"] Cons.prems(3,4) by simp
  show ?case
  proof (cases "deliver msg (c_fd c) (frames (pending c @ bs)) w")
    case None
    then show ?thesis using IH [of w] b(1) unfolding split deliver_append by auto
  next
    case (Some w')
    then show ?thesis using IH [of w'] b(1) unfolding split deliver_append by auto
  qed
qed

theorem stream_framing_witness:
  "\<exists>c'. receive_all [[1], [0, 3], [1, 7, 9]] sample_client FD_ZERO echo None sample_wire =
     Some (c', FD_ZERO, sample_wire\<lparr>sent := [(5, [1, 0]), (5, [3, 1, 7])]\<rparr>) \<and> pending c' = [9]"
proof -
  have fr: "frames [1, 0, 3, 1, 7, 9] = [[1, 0], [3, 1, 7]]" "rest [1, 0, 3, 1, 7, 9] = [9]"
    by (simp_all add: frames.simps rest.simps)
  have "frames (pending sample_client) = []" by (simp add: sample_client_ok frames.simps)
  moreover have "\<forall>bs \<in> set [[1], [0, 3], [1, 7, 9]]. bs \<noteq> [] \<and> length bs \<le> 2 * CHAT_MAX_MSG_SIZE"
    by (simp add: size_defs)
  ultimately show ?thesis
    using stream_framing [OF sample_client_ok(1) _ echo_reads, of "[[1], [0, 3], [1, 7, 9]]" FD_ZERO None sample_wire]
    by (auto simp: sample_client_ok fr echo_def ServerNet_SendMessage_def sample_wire_def)
qed

text \<open>
  C31: Descriptors that do not fit. \<open>HandleNewConnection\<close> passes the result of \<open>accept\<close> to \<open>FD_SET\<close> unchecked: when a slot is free
  and the descriptor is \<open>FD_SETSIZE\<close> or more, the behaviour is undefined.
\<close>

theorem accept_unchecked:
  assumes "accept (open_fds lfd cs) \<ge> int FD_SETSIZE" and "\<exists>c \<in> set cs. c_fd c = - 1"
  shows "HandleNewConnection accept lfd cs mx s w = None"
proof -
  obtain i where "free_slot 0 cs = Some i" using assms(2) free_slot_None [of 0 cs] by fastforce
  moreover have "accept (open_fds lfd cs) \<noteq> - 1" using assms(1) by auto
  ultimately show ?thesis
    using assms(1) by (simp add: HandleNewConnection_def FD_put_def rd_def wr_def Let_def)
qed

theorem accept_unchecked_witness:
  "HandleNewConnection (\<lambda>_. 1024) 3 [sample_client\<lparr>c_fd := - 1\<rparr>] 3 FD_ZERO sample_wire = None"
  by (rule accept_unchecked) (simp_all add: FD_SETSIZE_def)

text \<open>
  C30: New connections. When \<open>accept\<close> fails nothing changes. Otherwise the descriptor is stored in the first free slot, with an empty
  buffer, and watched from now on; without a free slot it is closed and nothing else changes. Descriptors stay distinct and the
  master set stays exact.
\<close>

theorem new_connection:
  assumes "conns_ok lfd cs" and "watches s mx lfd cs" and "accept_ok accept"
  shows "\<exists>cs' mx' s' w'. HandleNewConnection accept lfd cs mx s w = Some (cs', mx', s', w') \<and>
    conns_ok lfd cs' \<and> watches s' mx' lfd cs' \<and>
    (let newFd = accept (open_fds lfd cs) in
     if newFd = - 1 then cs' = cs \<and> w' = w
     else case free_slot 0 cs of
       None \<Rightarrow> cs' = cs \<and> w' = close_fd newFd w
     | Some i \<Rightarrow> c_fd (cs' ! i) = newFd \<and> pending (cs' ! i) = [] \<and> (\<forall>j. j \<noteq> i \<longrightarrow> cs' ! j = cs ! j) \<and> w' = w)"
proof -
  obtain cs' mx' s' cl where h: "HandleNewConnection accept lfd cs mx s w = Some (cs', mx', s', w\<lparr>closed := closed w @ cl\<rparr>)"
      "conns_ok lfd cs'" "watches s' mx' lfd cs'"
    using HandleNewConnection_ok [OF assms, of w] by blast
  have L: "length cs = MAX_CLIENTS" "length s = FD_SETSIZE" using assms by (auto simp: conns_ok_def watches_def)
  let ?f = "accept (open_fds lfd cs)"
  have "let newFd = ?f in if newFd = - 1 then cs' = cs \<and> w\<lparr>closed := closed w @ cl\<rparr> = w
     else case free_slot 0 cs of
       None \<Rightarrow> cs' = cs \<and> w\<lparr>closed := closed w @ cl\<rparr> = close_fd newFd w
     | Some i \<Rightarrow> c_fd (cs' ! i) = newFd \<and> pending (cs' ! i) = [] \<and> (\<forall>j. j \<noteq> i \<longrightarrow> cs' ! j = cs ! j) \<and>
         w\<lparr>closed := closed w @ cl\<rparr> = w"
  proof (cases "?f = - 1")
    case True
    then show ?thesis using h(1) by (simp add: HandleNewConnection_def)
  next
    case False
    then have f: "fd_ok ?f" using assms(3) by (auto simp: accept_ok_def)
    show ?thesis
    proof (cases "free_slot 0 cs")
      case None
      then show ?thesis using h(1) False by (auto simp: HandleNewConnection_def)
    next
      case (Some i)
      have i: "i < length cs" using free_slot_spec [OF Some] by simp
      have "cs' = cs[i := (cs ! i)\<lparr>c_fd := ?f, c_len := 0\<rparr>]" "w\<lparr>closed := closed w @ cl\<rparr> = w"
        using h(1) False Some i FD_ok(1) [OF f L(2)] by (auto simp: HandleNewConnection_def rd_def wr_def Let_def)
      then show ?thesis using False Some i by (simp add: pending_def)
    qed
  qed
  then show ?thesis using h by (intro exI conjI) assumption+
qed

theorem new_connection_witness:
  "\<exists>cs mx s. HandleNewConnection (\<lambda>fds. if 4 \<in> set fds then - 1 else 4) (listenFd sample_net) (clients sample_net)
     (maxFd sample_net) (masterSet sample_net) sample_wire = Some (cs, mx, s, sample_wire) \<and> c_fd (cs ! 0) = 4"
proof -
  have "accept_ok (\<lambda>fds. if 4 \<in> set fds then - 1 else 4)" by (simp add: accept_ok_def fd_ok_def FD_SETSIZE_def)
  moreover have "4 \<notin> set (open_fds (listenFd sample_net) (clients sample_net))"
    by (auto simp: sample_net_def new_net_def open_fds_def)
  ultimately show ?thesis
    using new_connection [of "listenFd sample_net" "clients sample_net" "masterSet sample_net" "maxFd sample_net"
        "\<lambda>fds. if 4 \<in> set fds then - 1 else 4" sample_wire] sample_net_inv(1) sample_net_slot
    by (auto simp: net_inv_def)
qed

lemma distinct_filter_nth:
  "\<forall>i < length xs. \<forall>j < length xs. xs ! i = xs ! j \<longrightarrow> \<not> P (xs ! i) \<or> i = j \<Longrightarrow> distinct (filter P xs)"
proof (induction xs)
  case (Cons x xs)
  have "x \<notin> set (filter P xs)" if "P x"
  proof
    assume "x \<in> set (filter P xs)"
    then obtain j where "j < length xs" "xs ! j = x" by (auto simp: in_set_conv_nth)
    then show False using Cons.prems [rule_format, of 0 "Suc j"] that by simp
  qed
  moreover have "distinct (filter P xs)"
  proof (rule Cons.IH, intro allI impI)
    fix i j assume "i < length xs" "j < length xs" "xs ! i = xs ! j"
    then show "\<not> P (xs ! i) \<or> i = j" using Cons.prems [rule_format, of "Suc i" "Suc j"] by simp
  qed
  ultimately show ?case by simp
qed simp

lemma fold_close:
  "fold (\<lambda>c w. if - 1 \<noteq> c_fd c then close_fd (c_fd c) w else w) cs w =
   w\<lparr>closed := closed w @ filter (\<lambda>f. f \<noteq> - 1) (map c_fd cs)\<rparr>"
  by (induction cs arbitrary: w) (auto simp: close_fd_def)

text \<open>
  Closing down. \<open>ServerNet_Destroy\<close> closes each open connection and the listening socket, no descriptor twice.
\<close>

theorem net_destroy_closes:
  assumes "net_inv net"
  shows "\<exists>fds. ServerNet_Destroy (Some (Some net)) w = (Some None, w\<lparr>closed := closed w @ fds\<rparr>) \<and> distinct fds \<and>
    set fds = {int n |n. n < FD_SETSIZE \<and> masterSet net ! n}"
proof -
  let ?fds = "filter (\<lambda>f. f \<noteq> - 1) (map c_fd (clients net)) @ [listenFd net]"
  have C: "conns_ok (listenFd net) (clients net)" and W: "watches (masterSet net) (maxFd net) (listenFd net) (clients net)"
    using assms by (auto simp: net_inv_def)
  have L: "length (clients net) = MAX_CLIENTS" "fd_ok (listenFd net)" using C by (auto simp: conns_ok_def)
  have "distinct (filter (\<lambda>f. f \<noteq> - 1) (map c_fd (clients net)))"
    using C L(1) by (intro distinct_filter_nth) (auto simp: conns_ok_def)
  moreover have "listenFd net \<notin> c_fd ` set (clients net)"
    using C L(1) by (auto simp: conns_ok_def in_set_conv_nth)
  moreover have "set ?fds = {int n |n. n < FD_SETSIZE \<and> masterSet net ! n}"
  proof -
    have img: "x \<in> c_fd ` set (clients net) \<longleftrightarrow> (\<exists>i < MAX_CLIENTS. c_fd (clients net ! i) = x)" for x
      using L(1) by (auto simp: in_set_conv_nth image_iff) (metis nth_mem)
    have ok: "fd_ok x" if "c_fd (clients net ! i) = x" "i < MAX_CLIENTS" "x \<noteq> - 1" for x i
      using that C by (auto simp: conns_ok_def client_ok_def)
    have neg: "\<not> fd_ok (- 1)" by (simp add: fd_ok_def)
    have x: "x \<in> set ?fds \<longleftrightarrow> fd_ok x \<and> (x = listenFd net \<or> (\<exists>i < MAX_CLIENTS. c_fd (clients net ! i) = x))" for x
      using img [of x] ok [of _ x] neg L(2) by (cases "x = - 1") auto
    have "fd_ok x \<longleftrightarrow> (\<exists>n < FD_SETSIZE. x = int n)" for x
      by (auto simp: fd_ok_def intro: exI [of _ "nat x"])
    then show ?thesis using W unfolding x watches_def set_eq_iff mem_Collect_eq by (metis (no_types, lifting))
  qed
  ultimately show ?thesis
    by (intro exI [of _ ?fds]) (auto simp: ServerNet_Destroy_def fold_close close_fd_def)
qed

end
