(* ===== verification/Server_Mng.thy ===== *)
theory Server_Mng
  imports Protocol Server_Net User_Mng Group_Mng
begin

text \<open>
  The management layer of the server, \<^verbatim>\<open>server/server_mng.c\<close>: the handlers of the requests, over the three global objects.

  \<open>Server\<close> extends the log of the networking layer by the three globals. \<open>Chat\<close> is the specification: the accounts, the groups and
  the free addresses, with a step relation \<open>chat_step\<close> on requests. \<open>srv_rel\<close> relates the two; every message is a step of the specification, and \<open>chat_inv\<close>, which ties the two managers
  together, holds in every reachable state.
\<close>

section \<open>State\<close>

record Server = Wire +
  g_userMng :: "UserMng option"
  g_groupMng :: "GroupMng option"
  g_mcQueue :: "FreeMcQueue option"

text \<open>Which allocations of the three components succeed.\<close>

record srv_alloc =
  sa_queue :: "nat \<Rightarrow> bool"
  sa_pairs :: "nat \<Rightarrow> bool"
  sa_groups :: gm_alloc
  sa_users :: um_alloc

section \<open>Operations\<close>

text \<open>The context of the callback is the group manager; the pool it refers to is passed along.\<close>

definition OnUserImplicitLeave ::
  "cstring \<Rightarrow> GroupMng option \<times> FreeMcQueue option \<Rightarrow> (GroupMng option \<times> FreeMcQueue option) option"
where
  "OnUserImplicitLeave groupName ctx = do {
     (_, gm, q) \<leftarrow> GroupMng_LeaveGroup (fst ctx) (snd ctx) (Some groupName);
     Some (gm, q)
   }"

definition ServerMng_Init :: "srv_alloc \<Rightarrow> Server \<Rightarrow> (int \<times> Server) option" where
  "ServerMng_Init sa w = do {
     q \<leftarrow> FreeMcQueue_Create (sa_queue sa) (sa_pairs sa);
     let w = w\<lparr>g_mcQueue := q\<rparr>;
     if q = None then Some (- 1, w)
     else do {
       gm \<leftarrow> GroupMng_Create (sa_groups sa) q;
       let w = w\<lparr>g_groupMng := gm\<rparr>;
       if gm = None
       then do {
         (_, pq) \<leftarrow> FreeMcQueue_Destroy (Some q);
         Some (- 1, w\<lparr>g_mcQueue := the pq\<rparr>)
       }
       else do {
         um \<leftarrow> UserMng_Create (sa_users sa);
         let w = w\<lparr>g_userMng := um\<rparr>;
         if um = None
         then do {
           (pg, _) \<leftarrow> GroupMng_Destroy (Some gm);
           (_, pq) \<leftarrow> FreeMcQueue_Destroy (Some q);
           Some (- 1, w\<lparr>g_groupMng := the pg, g_mcQueue := the pq\<rparr>)
         }
         else Some (0, w)
       }}}"

text \<open>The second result is what is left allocated of each of the three objects, \<open>None\<close> for one that did not exist.\<close>

type_synonym users_left = "((heap \<times> cstring KeyValuePair store) option \<times> user_mem) option"
type_synonym groups_left = "((heap \<times> cstring KeyValuePair store) option \<times> Group store) option"
type_synonym left_over = "users_left \<times> groups_left \<times> McastPair store option"

definition ServerMng_Destroy :: "Server \<Rightarrow> (Server \<times> left_over) option" where
  "ServerMng_Destroy w = do {
     (um, ul) \<leftarrow> (if g_userMng w \<noteq> None
       then do { (p, l) \<leftarrow> UserMng_Destroy (Some (g_userMng w)); Some (the p, l) }
       else Some (g_userMng w, None));
     (gm, gl) \<leftarrow> (if g_groupMng w \<noteq> None
       then do { (p, l) \<leftarrow> GroupMng_Destroy (Some (g_groupMng w)); Some (the p, l) }
       else Some (g_groupMng w, None));
     (q, ql) \<leftarrow> (if g_mcQueue w \<noteq> None
       then do { (l, p) \<leftarrow> FreeMcQueue_Destroy (Some (g_mcQueue w)); Some (the p, l) }
       else Some (g_mcQueue w, None));
     Some (w\<lparr>g_userMng := um, g_groupMng := gm, g_mcQueue := q\<rparr>, ul, gl, ql)
   }"

text \<open>
  The buffers of the handlers. The reply buffer is not initialised in the code; no byte of it is sent before it is written.
\<close>

definition repBuf :: "byte list option" where
  "repBuf = Some (replicate CHAT_MAX_MSG_SIZE 0)"

definition zeroed :: "nat \<Rightarrow> byte list option" where
  "zeroed n = Some (replicate (n + 1) 0)"

definition send_rep :: "int \<Rightarrow> int \<times> byte list option \<Rightarrow> Server \<Rightarrow> Server option" where
  "send_rep sockfd rep w =
     (if fst rep > 0
      then do { (_, w) \<leftarrow> ServerNet_SendMessage sockfd (snd rep) (nat (fst rep)) w; Some w }
      else Some w)"

definition HandleRegisterReq :: "int \<Rightarrow> byte list option \<Rightarrow> nat \<Rightarrow> Server \<Rightarrow> Server option" where
  "HandleRegisterReq sockfd msg len w = do {
     (r, u, p) \<leftarrow> chat_decode_user_pass msg len (zeroed CHAT_MAX_USERNAME_LEN) (zeroed CHAT_MAX_PASSWORD_LEN);
     if 0 = r
     then do {
       user \<leftarrow> cstr (the u);
       pass \<leftarrow> cstr (the p);
       (status, um) \<leftarrow> UserMng_Register (g_userMng w) (Some user) (Some pass);
       rep \<leftarrow> chat_encode_status_rep repBuf OP_REG_REP status;
       send_rep sockfd rep (w\<lparr>g_userMng := um\<rparr>)
     }
     else Some w
   }"

definition HandleLoginReq :: "int \<Rightarrow> byte list option \<Rightarrow> nat \<Rightarrow> Server \<Rightarrow> Server option" where
  "HandleLoginReq sockfd msg len w = do {
     (r, u, p) \<leftarrow> chat_decode_user_pass msg len (zeroed CHAT_MAX_USERNAME_LEN) (zeroed CHAT_MAX_PASSWORD_LEN);
     if 0 = r
     then do {
       user \<leftarrow> cstr (the u);
       pass \<leftarrow> cstr (the p);
       (status, um) \<leftarrow> UserMng_Login (g_userMng w) (Some user) (Some pass) sockfd;
       rep \<leftarrow> chat_encode_status_rep repBuf OP_LOGIN_REP status;
       send_rep sockfd rep (w\<lparr>g_userMng := um\<rparr>)
     }
     else Some w
   }"

text \<open>The address of the group is read after the user has joined.\<close>

definition HandleCreateGroupReq :: "int \<Rightarrow> byte list option \<Rightarrow> nat \<Rightarrow> Server \<Rightarrow> Server option" where
  "HandleCreateGroupReq sockfd msg len w = do {
     (r, g) \<leftarrow> chat_decode_groupname msg len (zeroed CHAT_MAX_GROUPNAME_LEN);
     if 0 = r
     then do {
       groupName \<leftarrow> cstr (the g);
       logged_in \<leftarrow> UserMng_IsLoggedIn (g_userMng w) sockfd;
       if logged_in = 0
       then do {
         rep \<leftarrow> chat_encode_status_rep repBuf OP_CREATE_GROUP_REP ST_ERR_NOT_LOGGED_IN;
         send_rep sockfd rep w
       }
       else do {
         (status, newGroup, gm, q) \<leftarrow> GroupMng_CreateGroup \<lparr>mp_ip = [], mp_port = 0\<rparr> (g_groupMng w) (g_mcQueue w)
            (Some groupName) (Some NULL);
         let w = w\<lparr>g_groupMng := gm, g_mcQueue := q\<rparr>;
         if ST_OK = status \<and> newGroup \<noteq> Some NULL
         then do {
           (userStatus, um) \<leftarrow> UserMng_JoinGroup (g_userMng w) sockfd (Some groupName);
           let w = w\<lparr>g_userMng := um\<rparr>;
           if ST_OK \<noteq> userStatus
           then do {
             (_, gm, q) \<leftarrow> GroupMng_LeaveGroup (g_groupMng w) (g_mcQueue w) (Some groupName);
             rep \<leftarrow> chat_encode_status_rep repBuf OP_CREATE_GROUP_REP ST_ERR_SERVER_FULL;
             send_rep sockfd rep (w\<lparr>g_groupMng := gm, g_mcQueue := q\<rparr>)
           }
           else do {
             x \<leftarrow> deref (groups (the (g_groupMng w))) (the newGroup);
             rep \<leftarrow> chat_encode_group_rep_ok repBuf OP_CREATE_GROUP_REP (Some (mcast_ip x)) (mcast_port x);
             send_rep sockfd rep w
           }}
         else do {
           rep \<leftarrow> chat_encode_status_rep repBuf OP_CREATE_GROUP_REP status;
           send_rep sockfd rep w
         }}}
     else Some w
   }"

definition HandleJoinGroupReq :: "int \<Rightarrow> byte list option \<Rightarrow> nat \<Rightarrow> Server \<Rightarrow> Server option" where
  "HandleJoinGroupReq sockfd msg len w = do {
     (r, g) \<leftarrow> chat_decode_groupname msg len (zeroed CHAT_MAX_GROUPNAME_LEN);
     if 0 = r
     then do {
       groupName \<leftarrow> cstr (the g);
       logged_in \<leftarrow> UserMng_IsLoggedIn (g_userMng w) sockfd;
       if logged_in = 0
       then do {
         rep \<leftarrow> chat_encode_status_rep repBuf OP_JOIN_GROUP_REP ST_ERR_NOT_LOGGED_IN;
         send_rep sockfd rep w
       }
       else do {
         (status, group, gm) \<leftarrow> GroupMng_JoinGroup (g_groupMng w) (Some groupName) (Some NULL);
         let w = w\<lparr>g_groupMng := gm\<rparr>;
         if ST_OK = status \<and> group \<noteq> Some NULL
         then do {
           (userStatus, um) \<leftarrow> UserMng_JoinGroup (g_userMng w) sockfd (Some groupName);
           let w = w\<lparr>g_userMng := um\<rparr>;
           if ST_OK = userStatus
           then do {
             x \<leftarrow> deref (groups (the (g_groupMng w))) (the group);
             rep \<leftarrow> chat_encode_group_rep_ok repBuf OP_JOIN_GROUP_REP (Some (mcast_ip x)) (mcast_port x);
             send_rep sockfd rep w
           }
           else do {
             (_, gm, q) \<leftarrow> GroupMng_LeaveGroup (g_groupMng w) (g_mcQueue w) (Some groupName);
             rep \<leftarrow> chat_encode_status_rep repBuf OP_JOIN_GROUP_REP userStatus;
             send_rep sockfd rep (w\<lparr>g_groupMng := gm, g_mcQueue := q\<rparr>)
           }}
         else do {
           rep \<leftarrow> chat_encode_status_rep repBuf OP_JOIN_GROUP_REP status;
           send_rep sockfd rep w
         }}}
     else Some w
   }"

definition HandleLeaveGroupReq :: "int \<Rightarrow> byte list option \<Rightarrow> nat \<Rightarrow> Server \<Rightarrow> Server option" where
  "HandleLeaveGroupReq sockfd msg len w = do {
     (r, g) \<leftarrow> chat_decode_groupname msg len (zeroed CHAT_MAX_GROUPNAME_LEN);
     if 0 = r
     then do {
       groupName \<leftarrow> cstr (the g);
       (status, um) \<leftarrow> UserMng_LeaveGroup (g_userMng w) sockfd (Some groupName);
       let w = w\<lparr>g_userMng := um\<rparr>;
       (status, w) \<leftarrow> (if ST_OK = status
         then do {
           (status, gm, q) \<leftarrow> GroupMng_LeaveGroup (g_groupMng w) (g_mcQueue w) (Some groupName);
           Some (status, w\<lparr>g_groupMng := gm, g_mcQueue := q\<rparr>)
         }
         else Some (status, w));
       rep \<leftarrow> chat_encode_status_rep repBuf OP_LEAVE_GROUP_REP status;
       send_rep sockfd rep w
     }
     else Some w
   }"

text \<open>The case of \<open>OP_LOGOUT_REQ\<close>.\<close>

definition HandleLogoutReq :: "int \<Rightarrow> Server \<Rightarrow> Server option" where
  "HandleLogoutReq sockfd w = do {
     (status, um, gm, q) \<leftarrow> UserMng_Logout (g_userMng w) sockfd (Some OnUserImplicitLeave) (g_groupMng w, g_mcQueue w);
     rep \<leftarrow> chat_encode_status_rep repBuf OP_LOGOUT_REP status;
     send_rep sockfd rep (w\<lparr>g_userMng := um, g_groupMng := gm, g_mcQueue := q\<rparr>)
   }"

definition ServerMng_HandleMessage :: "int \<Rightarrow> byte list option \<Rightarrow> nat \<Rightarrow> Server \<Rightarrow> (int \<times> Server) option" where
  "ServerMng_HandleMessage sockfd msg len w = do {
     (r, type, _) \<leftarrow> chat_peek_header msg len (Some 0) (Some 0);
     if - 1 = r then Some (- 1, w)
     else do {
       w \<leftarrow> (case opcode_of (the type) of
           OP_REG_REQ \<Rightarrow> HandleRegisterReq sockfd msg len w
         | OP_LOGIN_REQ \<Rightarrow> HandleLoginReq sockfd msg len w
         | OP_LOGOUT_REQ \<Rightarrow> HandleLogoutReq sockfd w
         | OP_CREATE_GROUP_REQ \<Rightarrow> HandleCreateGroupReq sockfd msg len w
         | OP_JOIN_GROUP_REQ \<Rightarrow> HandleJoinGroupReq sockfd msg len w
         | OP_LEAVE_GROUP_REQ \<Rightarrow> HandleLeaveGroupReq sockfd msg len w
         | _ \<Rightarrow> Some w);
       Some (0, w)
     }}"

definition ServerMng_OnDisconnect :: "int \<Rightarrow> Server \<Rightarrow> Server option" where
  "ServerMng_OnDisconnect sockfd w =
     (if g_userMng w \<noteq> None
      then do {
        (um, gm, q) \<leftarrow> UserMng_Disconnect (g_userMng w) sockfd (Some OnUserImplicitLeave) (g_groupMng w, g_mcQueue w);
        Some (w\<lparr>g_userMng := um, g_groupMng := gm, g_mcQueue := q\<rparr>)
      }
      else Some w)"

section \<open>The specification\<close>

record Chat =
  accts :: accounts
  grps :: "cstring \<rightharpoonup> GroupInfo"
  avail :: "McastPair list"

datatype Request =
    Register cstring cstring
  | Login cstring cstring
  | Logout
  | CreateGroup cstring
  | JoinGroup cstring
  | LeaveGroup cstring
  | Ignored

text \<open>A reply has a status and, when a group was created or joined, its address.\<close>

type_synonym Reply = "ChatOpcode \<times> ChatStatus \<times> McastPair option"

text \<open>A name in a message ends at its first NUL.\<close>

abbreviation as_cstring :: "byte list \<Rightarrow> cstring" where
  "as_cstring \<equiv> takeWhile (\<lambda>c. c \<noteq> 0)"

definition parse_request :: "byte list \<Rightarrow> Request" where
  "parse_request fr =
     (if length fr < 2 then Ignored
      else let up = (\<lambda>f. case parse_user_pass fr of Some (u, p) \<Rightarrow> f (as_cstring u) (as_cstring p) | None \<Rightarrow> Ignored);
               gn = (\<lambda>f. case parse_groupname fr of Some g \<Rightarrow> f (as_cstring g) | None \<Rightarrow> Ignored)
      in case opcode_of (fr ! 0) of
           OP_REG_REQ \<Rightarrow> up Register
         | OP_LOGIN_REQ \<Rightarrow> up Login
         | OP_LOGOUT_REQ \<Rightarrow> Logout
         | OP_CREATE_GROUP_REQ \<Rightarrow> gn CreateGroup
         | OP_JOIN_GROUP_REQ \<Rightarrow> gn JoinGroup
         | OP_LEAVE_GROUP_REQ \<Rightarrow> gn LeaveGroup
         | _ \<Rightarrow> Ignored)"

fun encode_reply :: "Reply \<Rightarrow> byte list" where
  "encode_reply (op, st, None) = frame op [st_byte st]"
| "encode_reply (op, st, Some p) = frame op (st_byte st # field (mp_ip p) @ field (port_bytes (mp_port p)))"

text \<open>Logging out: the user leaves all groups.\<close>

definition leave_groups :: "cstring list \<Rightarrow> (cstring \<rightharpoonup> GroupInfo) \<Rightarrow> (cstring \<rightharpoonup> GroupInfo)" where
  "leave_groups gs G = fold drop_member gs G"

definition freed_by :: "cstring list \<Rightarrow> (cstring \<rightharpoonup> GroupInfo) \<Rightarrow> McastPair list" where
  "freed_by gs G = concat (map (\<lambda>g. freed g G) gs)"

abbreviation status_reply :: "ChatOpcode \<Rightarrow> ChatStatus \<Rightarrow> Reply option" where
  "status_reply op st \<equiv> Some (op, st, None)"

text \<open>
  The steps of the server for a request on a socket, with the reply. The first argument says that no allocation fails; only
  the steps \<open>reg_full\<close>, \<open>create_failed\<close>, \<open>join_full\<close> and the loss of a pair need that one does.
\<close>

inductive chat_step :: "bool \<Rightarrow> int \<Rightarrow> Request \<Rightarrow> Chat \<Rightarrow> Reply option \<Rightarrow> Chat \<Rightarrow> bool" for b fd where
  ignored: "chat_step b fd Ignored S None S"
| reg_exists: "accts S k = Some x \<Longrightarrow> chat_step b fd (Register k p) S (status_reply OP_REG_REP ST_ERR_USER_EXISTS) S"
| reg_ok: "accts S k = None \<Longrightarrow> chat_step b fd (Register k p) S (status_reply OP_REG_REP ST_OK)
    (S\<lparr>accts := (accts S)(k := Some \<lparr>a_pwd = p, a_fd = - 1, a_groups = []\<rparr>)\<rparr>)"
| reg_full: "\<not> b \<Longrightarrow> accts S k = None \<Longrightarrow> chat_step b fd (Register k p) S (status_reply OP_REG_REP ST_ERR_SERVER_FULL) S"
| login_bad_fd: "\<not> fd_ok fd \<Longrightarrow> chat_step b fd (Login k p) S (status_reply OP_LOGIN_REP ST_ERR_PROTOCOL) S"
| login_busy: "fd_ok fd \<Longrightarrow> \<not> free_fd (accts S) fd \<Longrightarrow>
    chat_step b fd (Login k p) S (status_reply OP_LOGIN_REP ST_ERR_ALREADY_LOGGED_IN) S"
| login_unknown: "fd_ok fd \<Longrightarrow> free_fd (accts S) fd \<Longrightarrow> accts S k = None \<Longrightarrow>
    chat_step b fd (Login k p) S (status_reply OP_LOGIN_REP ST_ERR_USER_NOT_FOUND) S"
| login_password: "fd_ok fd \<Longrightarrow> free_fd (accts S) fd \<Longrightarrow> accts S k = Some x \<Longrightarrow> a_pwd x \<noteq> p \<Longrightarrow>
    chat_step b fd (Login k p) S (status_reply OP_LOGIN_REP ST_ERR_BAD_PASSWORD) S"
| login_online: "fd_ok fd \<Longrightarrow> free_fd (accts S) fd \<Longrightarrow> accts S k = Some x \<Longrightarrow> a_pwd x = p \<Longrightarrow> a_fd x \<noteq> - 1 \<Longrightarrow>
    chat_step b fd (Login k p) S (status_reply OP_LOGIN_REP ST_ERR_ALREADY_LOGGED_IN) S"
| login_ok: "fd_ok fd \<Longrightarrow> free_fd (accts S) fd \<Longrightarrow> accts S k = Some x \<Longrightarrow> a_pwd x = p \<Longrightarrow> a_fd x = - 1 \<Longrightarrow>
    chat_step b fd (Login k p) S (status_reply OP_LOGIN_REP ST_OK) (S\<lparr>accts := (accts S)(k := Some (x\<lparr>a_fd := fd\<rparr>))\<rparr>)"
| logout_bad_fd: "\<not> fd_ok fd \<Longrightarrow> chat_step b fd Logout S (status_reply OP_LOGOUT_REP ST_ERR_PROTOCOL) S"
| logout_offline: "fd_ok fd \<Longrightarrow> free_fd (accts S) fd \<Longrightarrow>
    chat_step b fd Logout S (status_reply OP_LOGOUT_REP ST_ERR_NOT_LOGGED_IN) S"
| logout_ok: "fd_ok fd \<Longrightarrow> accts S k = Some x \<Longrightarrow> a_fd x = fd \<Longrightarrow> refilled b (avail S) (freed_by (a_groups x) (grps S)) ps \<Longrightarrow>
    chat_step b fd Logout S (status_reply OP_LOGOUT_REP ST_OK)
      (S\<lparr>accts := (accts S)(k := Some (x\<lparr>a_fd := - 1, a_groups := []\<rparr>)),
         grps := leave_groups (a_groups x) (grps S), avail := ps\<rparr>)"
| create_offline: "\<not> (fd_ok fd \<and> \<not> free_fd (accts S) fd) \<Longrightarrow>
    chat_step b fd (CreateGroup g) S (status_reply OP_CREATE_GROUP_REP ST_ERR_NOT_LOGGED_IN) S"
| create_exists: "fd_ok fd \<Longrightarrow> \<not> free_fd (accts S) fd \<Longrightarrow> grps S g = Some i \<Longrightarrow>
    chat_step b fd (CreateGroup g) S (status_reply OP_CREATE_GROUP_REP ST_ERR_GROUP_EXISTS) S"
| create_full: "fd_ok fd \<Longrightarrow> \<not> free_fd (accts S) fd \<Longrightarrow> grps S g = None \<Longrightarrow> avail S = [] \<Longrightarrow>
    chat_step b fd (CreateGroup g) S (status_reply OP_CREATE_GROUP_REP ST_ERR_SERVER_FULL) S"
| create_ok: "fd_ok fd \<Longrightarrow> accts S k = Some x \<Longrightarrow> a_fd x = fd \<Longrightarrow> grps S g = None \<Longrightarrow> avail S = p # ps \<Longrightarrow>
    chat_step b fd (CreateGroup g) S (Some (OP_CREATE_GROUP_REP, ST_OK, Some p))
      (S\<lparr>accts := (accts S)(k := Some (x\<lparr>a_groups := a_groups x @ [g]\<rparr>)),
         grps := (grps S)(g := Some \<lparr>i_pair = p, i_count = 1\<rparr>), avail := ps\<rparr>)"
| create_failed: "\<not> b \<Longrightarrow> fd_ok fd \<Longrightarrow> \<not> free_fd (accts S) fd \<Longrightarrow> grps S g = None \<Longrightarrow> avail S = p # ps \<Longrightarrow> refilled b ps [p] ps' \<Longrightarrow>
    st \<in> {ST_ERR_PROTOCOL, ST_ERR_SERVER_FULL} \<Longrightarrow>
    chat_step b fd (CreateGroup g) S (status_reply OP_CREATE_GROUP_REP st) (S\<lparr>avail := ps'\<rparr>)"
| join_offline: "\<not> (fd_ok fd \<and> \<not> free_fd (accts S) fd) \<Longrightarrow>
    chat_step b fd (JoinGroup g) S (status_reply OP_JOIN_GROUP_REP ST_ERR_NOT_LOGGED_IN) S"
| join_unknown: "fd_ok fd \<Longrightarrow> \<not> free_fd (accts S) fd \<Longrightarrow> grps S g = None \<Longrightarrow>
    chat_step b fd (JoinGroup g) S (status_reply OP_JOIN_GROUP_REP ST_ERR_GROUP_NOT_FOUND) S"
| join_member: "fd_ok fd \<Longrightarrow> accts S k = Some x \<Longrightarrow> a_fd x = fd \<Longrightarrow> grps S g = Some i \<Longrightarrow> g \<in> set (a_groups x) \<Longrightarrow>
    chat_step b fd (JoinGroup g) S (status_reply OP_JOIN_GROUP_REP ST_ERR_ALREADY_IN_GROUP) S"
| join_ok: "fd_ok fd \<Longrightarrow> accts S k = Some x \<Longrightarrow> a_fd x = fd \<Longrightarrow> grps S g = Some i \<Longrightarrow> g \<notin> set (a_groups x) \<Longrightarrow>
    chat_step b fd (JoinGroup g) S (Some (OP_JOIN_GROUP_REP, ST_OK, Some (i_pair i)))
      (S\<lparr>accts := (accts S)(k := Some (x\<lparr>a_groups := a_groups x @ [g]\<rparr>)),
         grps := (grps S)(g := Some (i\<lparr>i_count := i_count i + 1\<rparr>))\<rparr>)"
| join_full: "\<not> b \<Longrightarrow> fd_ok fd \<Longrightarrow> accts S k = Some x \<Longrightarrow> a_fd x = fd \<Longrightarrow> grps S g = Some i \<Longrightarrow> g \<notin> set (a_groups x) \<Longrightarrow>
    chat_step b fd (JoinGroup g) S (status_reply OP_JOIN_GROUP_REP ST_ERR_SERVER_FULL) S"
| leave_bad_fd: "\<not> fd_ok fd \<Longrightarrow> chat_step b fd (LeaveGroup g) S (status_reply OP_LEAVE_GROUP_REP ST_ERR_PROTOCOL) S"
| leave_offline: "fd_ok fd \<Longrightarrow> free_fd (accts S) fd \<Longrightarrow>
    chat_step b fd (LeaveGroup g) S (status_reply OP_LEAVE_GROUP_REP ST_ERR_NOT_LOGGED_IN) S"
| leave_stranger: "fd_ok fd \<Longrightarrow> accts S k = Some x \<Longrightarrow> a_fd x = fd \<Longrightarrow> g \<notin> set (a_groups x) \<Longrightarrow>
    chat_step b fd (LeaveGroup g) S (status_reply OP_LEAVE_GROUP_REP ST_ERR_NOT_IN_GROUP) S"
| leave_ok: "fd_ok fd \<Longrightarrow> accts S k = Some x \<Longrightarrow> a_fd x = fd \<Longrightarrow> g \<in> set (a_groups x) \<Longrightarrow> refilled b (avail S) (freed g (grps S)) ps \<Longrightarrow>
    chat_step b fd (LeaveGroup g) S (status_reply OP_LEAVE_GROUP_REP ST_OK)
      (S\<lparr>accts := (accts S)(k := Some (x\<lparr>a_groups := removeAll g (a_groups x)\<rparr>)),
         grps := drop_member g (grps S), avail := ps\<rparr>)"

text \<open>A disconnect acts like a logout without reply.\<close>

definition chat_disconnect :: "bool \<Rightarrow> int \<Rightarrow> Chat \<Rightarrow> Chat \<Rightarrow> bool" where
  "chat_disconnect b fd S S' \<longleftrightarrow> (\<exists>rep. chat_step b fd Logout S rep S')"

text \<open>
  The managers agree: a user is in groups only while online, on a socket of its own; every group has as many members as it counts, at
  least one; every group of a user exists; no multicast address is in use twice.
\<close>

definition chat_inv :: "Chat \<Rightarrow> bool" where
  "chat_inv S \<longleftrightarrow> accounts_ok (accts S) \<and> finite (dom (accts S)) \<and> pool_inv (grps S) (avail S) \<and>
     (\<forall>g. case grps S g of None \<Rightarrow> members (accts S) g = {}
        | Some i \<Rightarrow> members (accts S) g \<noteq> {} \<and> i_count i = card (members (accts S) g))"

section \<open>The relation between code and specification\<close>

definition srv_rel :: "Server \<Rightarrow> Chat \<Rightarrow> bool" where
  "srv_rel w S \<longleftrightarrow> (\<exists>um gm f. g_userMng w = Some um \<and> g_groupMng w = Some gm \<and> g_mcQueue w = Some f \<and>
     um_rel um (accts S) \<and> gm_rel gm (grps S) \<and> fmq_rel f (avail S))"

text \<open>No allocation of the management layer fails.\<close>

definition srv_ok :: "Server \<Rightarrow> bool" where
  "srv_ok w \<longleftrightarrow> um_ok (the (g_userMng w)) \<and> gm_ok (the (g_groupMng w)) \<and> fmq_ok (the (g_mcQueue w))"

text \<open>What \<open>send\<close> was called with for a reply.\<close>

definition reply_log :: "int \<Rightarrow> Reply option \<Rightarrow> (int \<times> byte list) list" where
  "reply_log fd rep = (case rep of None \<Rightarrow> [] | Some r \<Rightarrow> if fd < 0 then [] else [(fd, encode_reply r)])"

definition answers :: "int \<Rightarrow> Request \<Rightarrow> Server \<Rightarrow> Chat \<Rightarrow> Server \<Rightarrow> bool" where
  "answers fd rq w S w' \<longleftrightarrow> (\<exists>rep S'. chat_step (srv_ok w) fd rq S rep S' \<and> srv_rel w' S' \<and> srv_ok w' = srv_ok w \<and>
     sent w' = sent w @ reply_log fd rep \<and> closed w' = closed w \<and> os_send w' = os_send w)"

lemma answersI:
  "chat_step (srv_ok w) fd rq S rep S' \<Longrightarrow> srv_rel w0 S' \<Longrightarrow> srv_ok w0 = srv_ok w \<Longrightarrow> sent w0 = sent w \<Longrightarrow> closed w0 = closed w \<Longrightarrow>
   os_send w0 = os_send w \<Longrightarrow> answers fd rq w S (w0\<lparr>sent := sent w0 @ reply_log fd rep\<rparr>)"
  unfolding answers_def by (intro exI [of _ rep] exI [of _ S']) (simp add: srv_rel_def srv_ok_def)

lemma repBuf_length: "CHAT_MAX_MSG_SIZE \<le> length (replicate CHAT_MAX_MSG_SIZE (0 :: byte))"
  by simp

lemma send_built:
  assumes "fr \<noteq> []" "length fr \<le> length buf"
  shows "send_rep fd (int (length fr), Some (built fr buf)) w = Some (w\<lparr>sent := sent w @ (if fd < 0 then [] else [(fd, fr)])\<rparr>)"
  using assms by (simp add: send_rep_def ServerNet_SendMessage_def length_built Let_def)

lemma status_sent:
  "do { rep \<leftarrow> chat_encode_status_rep repBuf op st; send_rep fd rep w } =
   Some (w\<lparr>sent := sent w @ reply_log fd (status_reply op st)\<rparr>)"
proof -
  have "send_rep fd (3, Some (built (frame op [st_byte st]) (replicate CHAT_MAX_MSG_SIZE 0))) w =
      Some (w\<lparr>sent := sent w @ (if fd < 0 then [] else [(fd, frame op [st_byte st])])\<rparr>)"
    using send_built [of "frame op [st_byte st]" "replicate CHAT_MAX_MSG_SIZE 0" fd w] by (simp add: size_defs frame_def)
  then show ?thesis by (simp add: repBuf_def encode_status_layout reply_log_def)
qed

lemma group_sent:
  assumes "pair_ok p"
  shows "do { rep \<leftarrow> chat_encode_group_rep_ok repBuf op (Some (mp_ip p)) (mp_port p); send_rep fd rep w } =
   Some (w\<lparr>sent := sent w @ reply_log fd (Some (op, ST_OK, Some p))\<rparr>)"
proof -
  let ?fr = "frame op (st_byte ST_OK # field (mp_ip p) @ field (port_bytes (mp_port p)))"
  have "length ?fr \<le> CHAT_MAX_MSG_SIZE" "?fr \<noteq> []"
    using assms by (simp_all add: pair_ok_def size_defs port_bytes_def frame_def)
  then have "send_rep fd (int (length ?fr), Some (built ?fr (replicate CHAT_MAX_MSG_SIZE 0))) w =
      Some (w\<lparr>sent := sent w @ (if fd < 0 then [] else [(fd, ?fr)])\<rparr>)"
    by (intro send_built) simp_all
  then show ?thesis
    using assms unfolding repBuf_def
    by (subst encode_group_rep_layout) (simp_all add: pair_ok_def reply_log_def Let_def del: length_frame)
qed

text \<open>What the handlers see of a message.\<close>

lemma decoded_user_pass:
  assumes "n \<le> length b"
  shows "parse_user_pass (take n b) = Some (u, p) \<Longrightarrow> \<exists>ou op. chat_decode_user_pass (Some b) n (zeroed CHAT_MAX_USERNAME_LEN) (zeroed CHAT_MAX_PASSWORD_LEN) =
      Some (0, Some ou, Some op) \<and> cstr ou = Some (as_cstring u) \<and> cstr op = Some (as_cstring p)"
    and "parse_user_pass (take n b) = None \<Longrightarrow> \<exists>ou op. chat_decode_user_pass (Some b) n (zeroed CHAT_MAX_USERNAME_LEN) (zeroed CHAT_MAX_PASSWORD_LEN) =
      Some (- 1, ou, op)"
  using decode_user_pass_ref [OF assms, of "replicate (CHAT_MAX_USERNAME_LEN + 1) 0" "replicate (CHAT_MAX_PASSWORD_LEN + 1) 0"]
  by (auto simp: zeroed_def cstr_prefix)

lemma decoded_groupname:
  assumes "n \<le> length b"
  shows "parse_groupname (take n b) = Some g \<Longrightarrow> \<exists>og. chat_decode_groupname (Some b) n (zeroed CHAT_MAX_GROUPNAME_LEN) =
      Some (0, Some og) \<and> cstr og = Some (as_cstring g)"
    and "parse_groupname (take n b) = None \<Longrightarrow> \<exists>og. chat_decode_groupname (Some b) n (zeroed CHAT_MAX_GROUPNAME_LEN) = Some (- 1, og)"
  using decode_groupname_ref [OF assms, of "replicate (CHAT_MAX_GROUPNAME_LEN + 1) 0"]
  by (auto simp: zeroed_def cstr_prefix)

lemma as_cstring_lengths:
  "parse_user_pass fr = Some (u, p) \<Longrightarrow> length (as_cstring u) \<le> CHAT_MAX_USERNAME_LEN"
  "parse_user_pass fr = Some (u, p) \<Longrightarrow> length (as_cstring p) \<le> CHAT_MAX_PASSWORD_LEN"
  "parse_groupname fr = Some g \<Longrightarrow> length (as_cstring g) \<le> CHAT_MAX_GROUPNAME_LEN"
  using parse_lengths length_takeWhile_le le_trans by blast+

lemma srv_relE:
  assumes "srv_rel w S"
  obtains um gm f where "g_userMng w = Some um" "g_groupMng w = Some gm" "g_mcQueue w = Some f"
    "um_rel um (accts S)" "gm_rel gm (grps S)" "fmq_rel f (avail S)" "srv_ok w \<longleftrightarrow> um_ok um \<and> gm_ok gm \<and> fmq_ok f"
  using assms by (auto simp: srv_rel_def srv_ok_def)

lemma HandleRegisterReq_answers:
  assumes R: "srv_rel w S" and n: "n \<le> length b" and up: "parse_user_pass (take n b) = Some (u, p)"
  shows "\<exists>w'. HandleRegisterReq fd (Some b) n w = Some w' \<and> answers fd (Register (as_cstring u) (as_cstring p)) w S w'"
proof -
  obtain um gm f where g: "g_userMng w = Some um" "g_groupMng w = Some gm" "g_mcQueue w = Some f"
    "um_rel um (accts S)" "gm_rel gm (grps S)" "fmq_rel f (avail S)" "srv_ok w \<longleftrightarrow> um_ok um \<and> gm_ok gm \<and> fmq_ok f"
    by (rule srv_relE [OF R])
  let ?u = "as_cstring u" let ?p = "as_cstring p"
  obtain r um' where m: "UserMng_Register (Some um) (Some ?u) (Some ?p) = Some (r, Some um')" "um_ok um' = um_ok um"
    "if accts S ?u \<noteq> None then r = ST_ERR_USER_EXISTS \<and> um' = um
     else r = ST_OK \<and> um_rel um' ((accts S)(?u := Some \<lparr>a_pwd = ?p, a_fd = - 1, a_groups = []\<rparr>)) \<or>
       r = ST_ERR_SERVER_FULL \<and> um_rel um' (accts S) \<and> \<not> um_ok um"
    using um.register_law [OF g(4) as_cstring_lengths(1,2) [OF up]] by blast
  let ?w = "w\<lparr>g_userMng := Some um'\<rparr>"
  have "HandleRegisterReq fd (Some b) n w = Some (?w\<lparr>sent := sent ?w @ reply_log fd (status_reply OP_REG_REP r)\<rparr>)"
    using decoded_user_pass(1) [OF n up] g(1) m(1) unfolding HandleRegisterReq_def by (auto simp: status_sent)
  moreover have "\<exists>S'. chat_step (srv_ok w) fd (Register ?u ?p) S (status_reply OP_REG_REP r) S' \<and> srv_rel ?w S'"
  proof (cases "accts S ?u")
    case None
    then consider "r = ST_OK" "um_rel um' ((accts S)(?u := Some \<lparr>a_pwd = ?p, a_fd = - 1, a_groups = []\<rparr>))"
      | "r = ST_ERR_SERVER_FULL" "um_rel um' (accts S)" "\<not> srv_ok w" using m(3) g(7) by auto
    then show ?thesis
    proof cases
      case 1
      then show ?thesis using chat_step.reg_ok [of S ?u "srv_ok w" fd ?p] None g(2,3,5,6) by (auto simp: srv_rel_def)
    next
      case 2
      then show ?thesis using chat_step.reg_full [of "srv_ok w" S ?u fd ?p] None g(2,3,5,6) by (auto simp: srv_rel_def)
    qed
  next
    case (Some x)
    then show ?thesis using chat_step.reg_exists [of S ?u x "srv_ok w" fd ?p] m(3) g by (auto simp: srv_rel_def)
  qed
  moreover have "srv_ok ?w = srv_ok w" using g m(2) by (simp add: srv_ok_def)
  ultimately show ?thesis using answersI [of w fd _ S _ _ ?w] by fastforce
qed


text \<open>The usual end of a handler: a status reply after the globals were replaced.\<close>

lemma answers_status:
  assumes "chat_step (srv_ok w) fd rq S (status_reply op st) S'" "um_rel um (accts S')" "gm_rel gm (grps S')" "fmq_rel f (avail S')"
    and "srv_ok (w\<lparr>g_userMng := Some um, g_groupMng := Some gm, g_mcQueue := Some f\<rparr>) = srv_ok w"
  shows "answers fd rq w S (w\<lparr>g_userMng := Some um, g_groupMng := Some gm, g_mcQueue := Some f,
    sent := sent w @ reply_log fd (status_reply op st)\<rparr>)"
  using answersI [OF assms(1), of "w\<lparr>g_userMng := Some um, g_groupMng := Some gm, g_mcQueue := Some f\<rparr>"] assms(2-5)
  by (simp add: srv_rel_def)

lemma globals_same:
  "g_userMng w = Some um \<Longrightarrow> w\<lparr>g_userMng := Some um, sent := l\<rparr> = w\<lparr>sent := l\<rparr>"
  "g_groupMng w = Some gm \<Longrightarrow> g_mcQueue w = Some f \<Longrightarrow>
   w\<lparr>g_userMng := u, sent := l\<rparr> = w\<lparr>g_userMng := u, g_groupMng := Some gm, g_mcQueue := Some f, sent := l\<rparr>"
  "g_userMng w = Some um \<Longrightarrow>
   w\<lparr>g_groupMng := gs, g_mcQueue := q, sent := l\<rparr> = w\<lparr>g_userMng := Some um, g_groupMng := gs, g_mcQueue := q, sent := l\<rparr>"
  "g_userMng w = Some um \<Longrightarrow> g_groupMng w = Some gm \<Longrightarrow> g_mcQueue w = Some f \<Longrightarrow>
   w\<lparr>g_userMng := Some um, g_groupMng := Some gm, g_mcQueue := Some f, sent := l\<rparr> = w\<lparr>sent := l\<rparr>" for w :: Server
  by (cases w; simp)+

lemma answers_same:
  assumes "chat_step (srv_ok w) fd rq S (status_reply op st) S" "srv_rel w S"
  shows "answers fd rq w S (w\<lparr>sent := sent w @ reply_log fd (status_reply op st)\<rparr>)"
  using answersI [OF assms(1,2)] by simp

lemma HandleLoginReq_answers:
  assumes R: "srv_rel w S" and n: "n \<le> length b" and up: "parse_user_pass (take n b) = Some (u, p)"
  shows "\<exists>w'. HandleLoginReq fd (Some b) n w = Some w' \<and> answers fd (Login (as_cstring u) (as_cstring p)) w S w'"
proof -
  obtain um gm f where g: "g_userMng w = Some um" "g_groupMng w = Some gm" "g_mcQueue w = Some f"
    "um_rel um (accts S)" "gm_rel gm (grps S)" "fmq_rel f (avail S)" "srv_ok w \<longleftrightarrow> um_ok um \<and> gm_ok gm \<and> fmq_ok f"
    by (rule srv_relE [OF R])
  let ?u = "as_cstring u" let ?p = "as_cstring p"
  have eval: "HandleLoginReq fd (Some b) n w = Some (w\<lparr>g_userMng := Some um', sent := sent w @ reply_log fd (status_reply OP_LOGIN_REP r)\<rparr>)"
    if "UserMng_Login (Some um) (Some ?u) (Some ?p) fd = Some (r, Some um')" for r um'
    using decoded_user_pass(1) [OF n up] g(1) that unfolding HandleLoginReq_def by (auto simp: status_sent)
  have same: ?thesis if "UserMng_Login (Some um) (Some ?u) (Some ?p) fd = Some (r, Some um)"
    "chat_step (srv_ok w) fd (Login ?u ?p) S (status_reply OP_LOGIN_REP r) S" for r
    using eval [OF that(1)] answers_same [OF that(2) R] g(1) by (simp add: globals_same(1))
  show ?thesis
  proof (cases "fd_ok fd")
    case False
    then show ?thesis using same [OF _ chat_step.login_bad_fd [OF False]] um_bad_fd(1) [OF False] by simp
  next
    case fd: True
    obtain r um' where m: "UserMng_Login (Some um) (Some ?u) (Some ?p) fd = Some (r, Some um')" "um_ok um' = um_ok um"
      "if \<not> free_fd (accts S) fd then r = ST_ERR_ALREADY_LOGGED_IN \<and> um' = um
       else case accts S ?u of
         None \<Rightarrow> r = ST_ERR_USER_NOT_FOUND \<and> um' = um
       | Some x \<Rightarrow> if a_pwd x \<noteq> ?p then r = ST_ERR_BAD_PASSWORD \<and> um' = um
           else if a_fd x \<noteq> - 1 then r = ST_ERR_ALREADY_LOGGED_IN \<and> um' = um
           else r = ST_OK \<and> um_rel um' ((accts S)(?u := Some (x\<lparr>a_fd := fd\<rparr>)))"
      using um.login_law [OF g(4) fd, of ?u ?p] by blast
    show ?thesis
    proof (cases "free_fd (accts S) fd")
      case False
      then show ?thesis using same m(1,3) chat_step.login_busy fd by simp
    next
      case free: True
      show ?thesis
      proof (cases "accts S ?u")
        case None
        then show ?thesis using same m(1,3) free chat_step.login_unknown fd by simp
      next
        case (Some x)
        then consider "a_pwd x \<noteq> ?p" | "a_pwd x = ?p" "a_fd x \<noteq> - 1" | "a_pwd x = ?p" "a_fd x = - 1" by blast
        then show ?thesis
        proof cases
          case 1
          then show ?thesis using same m(1,3) free Some chat_step.login_password [OF fd free Some 1] by simp
        next
          case 2
          then show ?thesis using same m(1,3) free Some chat_step.login_online [OF fd free Some 2] by simp
        next
          case 3
          then have "r = ST_OK" "um_rel um' ((accts S)(?u := Some (x\<lparr>a_fd := fd\<rparr>)))" using m(3) free Some by auto
          then show ?thesis
            using eval [OF m(1)] answers_status [OF chat_step.login_ok [OF fd free Some 3], of um' gm f] g m(2)
            by (simp add: srv_ok_def globals_same(2))
        qed
      qed
    qed
  qed
qed

lemma freed_by_each: "freed_by gs G = concat (map (\<lambda>g. freed g G) gs)"
  by (simp add: freed_by_def)

lemma refilled_mono: "refilled c ps qs ps' \<Longrightarrow> (b \<longrightarrow> c) \<Longrightarrow> refilled b ps qs ps'"
  by (auto simp: refilled_def)

text \<open>Every group of an account exists.\<close>

lemma chat_inv_groups:
  assumes "chat_inv S" "accts S k = Some x" "g \<in> set (a_groups x)"
  obtains i where "grps S g = Some i" "i_count i = card (members (accts S) g)" "0 < i_count i" "i_count i \<le> card (dom (accts S))"
proof -
  have k: "k \<in> members (accts S) g" using assms(2,3) by (auto simp: members_def)
  have fin: "finite (members (accts S) g)" "members (accts S) g \<subseteq> dom (accts S)" "finite (dom (accts S))"
  proof -
    show s: "members (accts S) g \<subseteq> dom (accts S)" by (auto simp: members_def)
    show "finite (dom (accts S))" using assms(1) by (simp add: chat_inv_def)
    then show "finite (members (accts S) g)" by (rule finite_subset [OF s])
  qed
  obtain i where i: "grps S g = Some i" "i_count i = card (members (accts S) g)"
  proof (cases "grps S g")
    case None
    then have "members (accts S) g = {}" using assms(1) by (force simp: chat_inv_def dest: spec [of _ g])
    then show thesis using k by simp
  next
    case (Some i)
    then have "i_count i = card (members (accts S) g)" using assms(1) by (force simp: chat_inv_def dest: spec [of _ g])
    then show thesis using that Some by blast
  qed
  moreover have "0 < card (members (accts S) g)" using k fin by (auto simp: card_gt_0_iff)
  ultimately show thesis using that card_mono [OF fin(3,2)] by simp
qed

lemma chat_inv_accounts:
  assumes "chat_inv S" "accts S k = Some x"
  shows "distinct (a_groups x)" "a_fd x = - 1 \<Longrightarrow> a_groups x = []"
  using assms by (auto simp: chat_inv_def accounts_ok_def)

lemma chat_inv_pool: "chat_inv S \<Longrightarrow> pool_inv (grps S) (avail S)"
  by (simp add: chat_inv_def)

text \<open>Logging out, with the callback that leaves the groups.\<close>

lemma logout_globals:
  assumes R: "srv_rel w S" and inv: "chat_inv S" and fd: "fd_ok fd" and k: "accts S k = Some x" "a_fd x = fd"
  shows "\<exists>um gm f ps. UserMng_Logout (g_userMng w) fd (Some OnUserImplicitLeave) (g_groupMng w, g_mcQueue w) =
      Some (ST_OK, Some um, Some gm, Some f) \<and> um_rel um ((accts S)(k := Some (x\<lparr>a_fd := - 1, a_groups := []\<rparr>))) \<and>
    gm_rel gm (leave_groups (a_groups x) (grps S)) \<and> fmq_rel f ps \<and>
    refilled (srv_ok w) (avail S) (freed_by (a_groups x) (grps S)) ps \<and>
    srv_ok (w\<lparr>g_userMng := Some um, g_groupMng := Some gm, g_mcQueue := Some f\<rparr>) = srv_ok w"
proof -
  obtain um gm f where g: "g_userMng w = Some um" "g_groupMng w = Some gm" "g_mcQueue w = Some f"
    "um_rel um (accts S)" "gm_rel gm (grps S)" "fmq_rel f (avail S)" "srv_ok w \<longleftrightarrow> um_ok um \<and> gm_ok gm \<and> fmq_ok f"
    by (rule srv_relE [OF R])
  have cb: "\<forall>g pm pl. OnUserImplicitLeave g (pm, pl) = do { (_, pm, pl) \<leftarrow> GroupMng_LeaveGroup pm pl (Some g); Some (pm, pl) }"
    by (simp add: OnUserImplicitLeave_def)
  have "\<forall>g \<in> set (a_groups x). grps S g \<noteq> None" using chat_inv_groups [OF inv k(1)] by blast
  then obtain gm' f' ps where l: "leave_all (Some OnUserImplicitLeave) (a_groups x) (Some gm, Some f) = Some (Some gm', Some f')"
      "gm_ok gm' = gm_ok gm" "fmq_ok f' = fmq_ok f" "gm_rel gm' (fold drop_member (a_groups x) (grps S))" "fmq_rel f' ps"
      "refilled (fmq_ok f) (avail S) (concat (map (\<lambda>g. freed g (grps S)) (a_groups x))) ps"
    using gm.leave_each [OF cb g(5,6) chat_inv_pool [OF inv] chat_inv_accounts(1) [OF inv k(1)]] by blast
  obtain um' where m: "UserMng_Logout (Some um) fd (Some OnUserImplicitLeave) (Some gm, Some f) = Some (ST_OK, Some um', Some gm', Some f')"
      "um_ok um' = um_ok um" "um_rel um' ((accts S)(k := Some (x\<lparr>a_fd := - 1, a_groups := []\<rparr>)))"
    using um_logout [OF g(4) fd k l(1)] by blast
  then show ?thesis
    using g l refilled_mono [OF l(6), of "srv_ok w"] by (auto simp: srv_ok_def leave_groups_def freed_by_def)
qed

lemma HandleLogoutReq_answers:
  assumes R: "srv_rel w S" and inv: "chat_inv S"
  shows "\<exists>w'. HandleLogoutReq fd w = Some w' \<and> answers fd Logout w S w'"
proof -
  obtain um gm f where g: "g_userMng w = Some um" "g_groupMng w = Some gm" "g_mcQueue w = Some f" "um_rel um (accts S)"
    by (rule srv_relE [OF R])
  have eval: "HandleLogoutReq fd w = Some (w\<lparr>g_userMng := um', g_groupMng := gm', g_mcQueue := f',
      sent := sent w @ reply_log fd (status_reply OP_LOGOUT_REP r)\<rparr>)"
    if "UserMng_Logout (g_userMng w) fd (Some OnUserImplicitLeave) (g_groupMng w, g_mcQueue w) = Some (r, um', gm', f')" for r um' gm' f'
    using that unfolding HandleLogoutReq_def by (simp add: status_sent)
  have same: ?thesis if "UserMng_Logout (Some um) fd (Some OnUserImplicitLeave) (Some gm, Some f) = Some (r, Some um, Some gm, Some f)"
    "chat_step (srv_ok w) fd Logout S (status_reply OP_LOGOUT_REP r) S" for r
    using eval [of r "Some um" "Some gm" "Some f"] that(1) answers_same [OF that(2) R] g by (simp add: globals_same(4))
  show ?thesis
  proof (cases rule: um.socket_cases [OF g(4), of fd])
    case 1
    show ?thesis by (rule same [OF um_bad_fd(2) [OF 1] chat_step.logout_bad_fd [OF 1]])
  next
    case 2
    show ?thesis by (rule same [OF um_join_free(3) [OF g(4) 2] chat_step.logout_offline [OF 2]])
  next
    case (3 k x)
    obtain um' gm' f' ps where l: "UserMng_Logout (g_userMng w) fd (Some OnUserImplicitLeave) (g_groupMng w, g_mcQueue w) =
        Some (ST_OK, Some um', Some gm', Some f')" "um_rel um' ((accts S)(k := Some (x\<lparr>a_fd := - 1, a_groups := []\<rparr>)))"
      "gm_rel gm' (leave_groups (a_groups x) (grps S))" "fmq_rel f' ps"
      "refilled (srv_ok w) (avail S) (freed_by (a_groups x) (grps S)) ps"
      "srv_ok (w\<lparr>g_userMng := Some um', g_groupMng := Some gm', g_mcQueue := Some f'\<rparr>) = srv_ok w"
      using logout_globals [OF R inv 3(1,3,4)] by blast
    show ?thesis
      using eval [OF l(1)] answers_status [OF chat_step.logout_ok [OF 3(1,3,4) l(5)], of um' gm' f'] l(2-4,6) by simp
  qed
qed


lemma HandleLeaveGroupReq_answers:
  assumes R: "srv_rel w S" and inv: "chat_inv S" and n: "n \<le> length b" and gn: "parse_groupname (take n b) = Some g0"
  shows "\<exists>w'. HandleLeaveGroupReq fd (Some b) n w = Some w' \<and> answers fd (LeaveGroup (as_cstring g0)) w S w'"
proof -
  let ?g = "as_cstring g0"
  obtain um gm f where g: "g_userMng w = Some um" "g_groupMng w = Some gm" "g_mcQueue w = Some f"
    "um_rel um (accts S)" "gm_rel gm (grps S)" "fmq_rel f (avail S)" "srv_ok w \<longleftrightarrow> um_ok um \<and> gm_ok gm \<and> fmq_ok f"
    by (rule srv_relE [OF R])
  have refused: ?thesis if "UserMng_LeaveGroup (Some um) fd (Some ?g) = Some (r, Some um)" "r \<noteq> ST_OK"
    "chat_step (srv_ok w) fd (LeaveGroup ?g) S (status_reply OP_LEAVE_GROUP_REP r) S" for r
  proof -
    have "HandleLeaveGroupReq fd (Some b) n w = Some (w\<lparr>g_userMng := Some um, sent := sent w @ reply_log fd (status_reply OP_LEAVE_GROUP_REP r)\<rparr>)"
      using decoded_groupname(1) [OF n gn] g(1) that(1,2) unfolding HandleLeaveGroupReq_def by (auto simp: status_sent)
    then show ?thesis using answers_same [OF that(3) R] g(1) by (simp add: globals_same(1))
  qed
  show ?thesis
  proof (cases rule: um.socket_cases [OF g(4), of fd])
    case 1
    then show ?thesis using refused [OF um_bad_fd(4) [OF 1] _ chat_step.leave_bad_fd [OF 1]] by simp
  next
    case 2
    then show ?thesis using refused [OF um_join_free(2) [OF g(4) 2] _ chat_step.leave_offline [OF 2]] by simp
  next
    case (3 k x)
    note l = um.leave_law [OF g(4) 3(1,3,4) chat_inv_accounts(1) [OF inv 3(3)], of ?g]
    show ?thesis
    proof (cases "?g \<in> set (a_groups x)")
      case False
      then show ?thesis using l refused [OF _ _ chat_step.leave_stranger [OF 3(1,3,4) False]] by simp
    next
      case True
      then obtain um' where um': "UserMng_LeaveGroup (Some um) fd (Some ?g) = Some (ST_OK, Some um')" "um_ok um' = um_ok um"
          "um_rel um' ((accts S)(k := Some (x\<lparr>a_groups := removeAll ?g (a_groups x)\<rparr>)))"
        using l by auto
      obtain i where i: "grps S ?g = Some i" by (rule chat_inv_groups [OF inv 3(3) True])
      obtain gm' f' ps where gm': "GroupMng_LeaveGroup (Some gm) (Some f) (Some ?g) = Some (ST_OK, Some gm', Some f')"
          "gm_ok gm' = gm_ok gm" "fmq_ok f' = fmq_ok f" "gm_rel gm' (drop_member ?g (grps S))" "fmq_rel f' ps"
          "refilled (fmq_ok f) (avail S) (freed ?g (grps S)) ps"
        using gm.leave_law [OF g(5) i g(6) pool_inv_room [OF chat_inv_pool [OF inv] i]] by blast
      have "HandleLeaveGroupReq fd (Some b) n w = Some (w\<lparr>g_userMng := Some um', g_groupMng := Some gm', g_mcQueue := Some f',
          sent := sent w @ reply_log fd (status_reply OP_LEAVE_GROUP_REP ST_OK)\<rparr>)"
        using decoded_groupname(1) [OF n gn] g(1-3) um'(1) gm'(1) unfolding HandleLeaveGroupReq_def by (auto simp: status_sent)
      moreover have rf: "refilled (srv_ok w) (avail S) (freed ?g (grps S)) ps" using refilled_mono [OF gm'(6)] g(7) by blast
      ultimately show ?thesis
        using answers_status [OF chat_step.leave_ok [OF 3(1,3,4) True rf], of um' gm' f'] um' gm' g by (simp add: srv_ok_def)
    qed
  qed
qed


lemma chat_inv_count:
  assumes "chat_inv S" "grps S g = Some i"
  shows "i_count i = card (members (accts S) g)" "0 < i_count i"
proof -
  have i: "i_count i = card (members (accts S) g)" "members (accts S) g \<noteq> {}"
    using assms by (force simp: chat_inv_def dest: spec [of _ g])+
  then obtain k x where "accts S k = Some x" "g \<in> set (a_groups x)" by (auto simp: members_def)
  then show "0 < i_count i" using chat_inv_groups [OF assms(1)] assms(2) by (metis option.inject)
  show "i_count i = card (members (accts S) g)" by (rule i(1))
qed

lemma gm_rel_pair_ok: "gm_rel m G \<Longrightarrow> G k = Some i \<Longrightarrow> pair_ok (i_pair i)"
  by (auto simp: gm_rel_def elim: gm_group)

text \<open>Handlers that need a login: what a client without one gets, and the user of a socket.\<close>

lemma logged_in:
  assumes R: "um_rel um U"
  obtains (no) "UserMng_IsLoggedIn (Some um) fd = Some 0" "\<not> (fd_ok fd \<and> \<not> free_fd U fd)"
  | (yes) k x where "UserMng_IsLoggedIn (Some um) fd = Some 1" "fd_ok fd" "\<not> free_fd U fd" "U k = Some x" "a_fd x = fd"
  using um.logged_in_law [OF R, of fd] by (cases "fd_ok fd \<and> \<not> free_fd U fd") (auto simp: free_fd_def)

lemma answers_group:
  assumes "chat_step (srv_ok w) fd rq S (Some (op, ST_OK, Some p)) S'" "um_rel um (accts S')" "gm_rel gm (grps S')" "fmq_rel f (avail S')"
    and "srv_ok (w\<lparr>g_userMng := Some um, g_groupMng := Some gm, g_mcQueue := Some f\<rparr>) = srv_ok w"
  shows "answers fd rq w S (w\<lparr>g_userMng := Some um, g_groupMng := Some gm, g_mcQueue := Some f,
    sent := sent w @ reply_log fd (Some (op, ST_OK, Some p))\<rparr>)"
  using answersI [OF assms(1), of "w\<lparr>g_userMng := Some um, g_groupMng := Some gm, g_mcQueue := Some f\<rparr>"] assms(2-5)
  by (simp add: srv_rel_def)

lemma info_pair: "info x = i \<Longrightarrow> mcast_ip x = mp_ip (i_pair i) \<and> mcast_port x = mp_port (i_pair i)"
  by (auto simp: info_def)

text \<open>The count of a group fits into \<open>size_t\<close>, and leaving undoes a join.\<close>

lemma count_fits:
  assumes "um_rel um (accts S)" "chat_inv S" "grps S g = Some i"
  shows "i_count i < 2 ^ 64 - 1"
proof -
  have "i_count i = card (members (accts S) g)" by (rule chat_inv_count(1) [OF assms(2,3)])
  also have "\<dots> \<le> FD_SETSIZE" using um.members_bound [OF assms(1)] assms(2) by (simp add: chat_inv_def)
  finally show ?thesis by (simp add: FD_SETSIZE_def)
qed

lemma undo_join:
  assumes inv: "chat_inv S" and i: "grps S g = Some i" and gm: "gm_rel gm ((grps S)(g := Some (i\<lparr>i_count := i_count i + 1\<rparr>)))" and f: "fmq_rel f (avail S)"
  shows "\<exists>gm' f'. GroupMng_LeaveGroup (Some gm) (Some f) (Some g) = Some (ST_OK, Some gm', Some f') \<and>
    gm_ok gm' = gm_ok gm \<and> fmq_ok f' = fmq_ok f \<and> gm_rel gm' (grps S) \<and> fmq_rel f' (avail S)"
proof -
  let ?i = "i\<lparr>i_count := i_count i + 1\<rparr>"
  have room: "length (avail S) < 255" by (rule pool_inv_room [OF chat_inv_pool [OF inv] i])
  have d: "drop_member g ((grps S)(g := Some ?i)) = grps S" "freed g ((grps S)(g := Some ?i)) = []"
    using i chat_inv_count(2) [OF inv i] by (auto simp: drop_member_def freed_def fun_eq_iff)
  show ?thesis using gm.leave_law [OF gm _ f room, of g ?i] d by auto
qed

lemma HandleJoinGroupReq_answers:
  assumes R: "srv_rel w S" and inv: "chat_inv S" and n: "n \<le> length b" and gn: "parse_groupname (take n b) = Some g0"
  shows "\<exists>w'. HandleJoinGroupReq fd (Some b) n w = Some w' \<and> answers fd (JoinGroup (as_cstring g0)) w S w'"
proof -
  let ?g = "as_cstring g0"
  obtain um gm f where g: "g_userMng w = Some um" "g_groupMng w = Some gm" "g_mcQueue w = Some f"
    "um_rel um (accts S)" "gm_rel gm (grps S)" "fmq_rel f (avail S)" "srv_ok w \<longleftrightarrow> um_ok um \<and> gm_ok gm \<and> fmq_ok f"
    by (rule srv_relE [OF R])
  obtain og where og: "chat_decode_groupname (Some b) n (zeroed CHAT_MAX_GROUPNAME_LEN) = Some (0, Some og)" "cstr og = Some ?g"
    using decoded_groupname(1) [OF n gn] by blast
  show ?thesis
  proof (cases rule: logged_in [OF g(4), of fd])
    case no: 1
    have "HandleJoinGroupReq fd (Some b) n w = Some (w\<lparr>sent := sent w @ reply_log fd (status_reply OP_JOIN_GROUP_REP ST_ERR_NOT_LOGGED_IN)\<rparr>)"
      using og no(1) g(1) unfolding HandleJoinGroupReq_def by (simp add: status_sent)
    then show ?thesis using answers_same [OF chat_step.join_offline [OF no(2)] R] by simp
  next
    case yes: (2 k x)
    show ?thesis
    proof (cases "grps S ?g")
      case None
      have "HandleJoinGroupReq fd (Some b) n w = Some (w\<lparr>sent := sent w @ reply_log fd (status_reply OP_JOIN_GROUP_REP ST_ERR_GROUP_NOT_FOUND)\<rparr>)"
        using og yes(1) g(1,2) gm.absent_law [OF g(5) None] unfolding HandleJoinGroupReq_def by (simp add: status_sent)
      then show ?thesis using answers_same [OF chat_step.join_unknown [OF yes(2,3) None] R] by simp
    next
      case (Some i)
      have "i_count i < 2 ^ 64 - 1" by (rule count_fits [OF g(4) inv Some])
      let ?i = "i\<lparr>i_count := i_count i + 1\<rparr>"
      obtain a y gm1 where j: "GroupMng_JoinGroup (Some gm) (Some ?g) (Some NULL) = Some (ST_OK, Some a, Some gm1)" "a \<noteq> NULL"
          "gm_ok gm1 = gm_ok gm" "deref (groups gm1) a = Some y" "info y = ?i" "gm_rel gm1 ((grps S)(?g := Some ?i))"
        using gm.join_law [OF g(5) Some \<open>i_count i < 2 ^ 64 - 1\<close>] by blast
      have y: "mcast_ip y = mp_ip (i_pair i)" "mcast_port y = mp_port (i_pair i)" using info_pair [OF j(5)] by simp_all
      obtain r um1 where u: "UserMng_JoinGroup (Some um) fd (Some ?g) = Some (r, Some um1)" "um_ok um1 = um_ok um"
          "if ?g \<in> set (a_groups x) then r = ST_ERR_ALREADY_IN_GROUP \<and> um1 = um
           else r = ST_OK \<and> um_rel um1 ((accts S)(k := Some (x\<lparr>a_groups := a_groups x @ [?g]\<rparr>))) \<or>
             r = ST_ERR_SERVER_FULL \<and> um_rel um1 (accts S) \<and> \<not> um_ok um"
        using um.join_law [OF g(4) yes(2,4,5), of ?g] by blast
      have undone: ?thesis if "r \<noteq> ST_OK" "um_rel um1 (accts S)"
        "chat_step (srv_ok w) fd (JoinGroup ?g) S (status_reply OP_JOIN_GROUP_REP r) S"
      proof -
        obtain gm2 f2 where l: "GroupMng_LeaveGroup (Some gm1) (Some f) (Some ?g) = Some (ST_OK, Some gm2, Some f2)"
            "gm_ok gm2 = gm_ok gm1" "fmq_ok f2 = fmq_ok f" "gm_rel gm2 (grps S)" "fmq_rel f2 (avail S)"
          using undo_join [OF inv Some j(6) g(6)] by blast
        have "HandleJoinGroupReq fd (Some b) n w = Some (w\<lparr>g_userMng := Some um1, g_groupMng := Some gm2, g_mcQueue := Some f2,
            sent := sent w @ reply_log fd (status_reply OP_JOIN_GROUP_REP r)\<rparr>)"
          using og yes(1) g(1-3) j(1,2) u(1) that(1) l(1) unfolding HandleJoinGroupReq_def by (simp add: status_sent)
        then show ?thesis
          using answers_status [OF that(3,2) l(4,5)] l(2,3) u(2) j(3) g by (simp add: srv_ok_def)
      qed
      show ?thesis
      proof (cases "?g \<in> set (a_groups x)")
        case True
        then show ?thesis using undone u(3) g(4) chat_step.join_member [OF yes(2,4,5) Some True] by simp
      next
        case False
        then consider "r = ST_OK" "um_rel um1 ((accts S)(k := Some (x\<lparr>a_groups := a_groups x @ [?g]\<rparr>)))"
          | "r = ST_ERR_SERVER_FULL" "um_rel um1 (accts S)" "\<not> srv_ok w" using u(3) g(7) by auto
        then show ?thesis
        proof cases
          case 1
          have "pair_ok (i_pair i)" by (rule gm_rel_pair_ok [OF g(5) Some])
          then have "HandleJoinGroupReq fd (Some b) n w = Some (w\<lparr>g_userMng := Some um1, g_groupMng := Some gm1, g_mcQueue := Some f,
              sent := sent w @ reply_log fd (Some (OP_JOIN_GROUP_REP, ST_OK, Some (i_pair i)))\<rparr>)"
            using og yes(1) g(1-3) j(1,2,4) u(1) 1(1) y group_sent [of "i_pair i"] unfolding HandleJoinGroupReq_def by simp
          then show ?thesis
            using answers_group [OF chat_step.join_ok [OF yes(2,4,5) Some False], of um1 gm1 f] 1(2) j(3,6) u(2) g
            by (simp add: srv_ok_def)
        next
          case 2
          then show ?thesis using undone chat_step.join_full [OF 2(3) yes(2,4,5) Some False] by simp
        qed
      qed
    qed
  qed
qed


lemma create_joined:
  assumes R: "srv_rel w S" and inv: "chat_inv S" and li: "UserMng_IsLoggedIn (g_userMng w) fd = Some 1"
    and fd: "fd_ok fd" "accts S k = Some x" "a_fd x = fd" and None: "grps S g = None" and Cons: "avail S = p # ps"
    and og: "chat_decode_groupname (Some b) n (zeroed CHAT_MAX_GROUPNAME_LEN) = Some (0, Some og)" "cstr og = Some g"
    and c: "GroupMng_CreateGroup \<lparr>mp_ip = [], mp_port = 0\<rparr> (g_groupMng w) (g_mcQueue w) (Some g) (Some NULL) =
      Some (ST_OK, Some a, Some gm1, Some f1)" "a \<noteq> NULL" "deref (groups gm1) a = Some y" "info y = \<lparr>i_pair = p, i_count = 1\<rparr>"
      "gm_rel gm1 ((grps S)(g := Some \<lparr>i_pair = p, i_count = 1\<rparr>))" "fmq_rel f1 ps"
      "gm_ok gm1 = gm_ok (the (g_groupMng w))" "fmq_ok f1 = fmq_ok (the (g_mcQueue w))"
  shows "\<exists>w'. HandleCreateGroupReq fd (Some b) n w = Some w' \<and> answers fd (CreateGroup g) w S w'"
proof -
  obtain um gm f where h: "g_userMng w = Some um" "g_groupMng w = Some gm" "g_mcQueue w = Some f"
    "um_rel um (accts S)" "gm_rel gm (grps S)" "fmq_rel f (avail S)" "srv_ok w \<longleftrightarrow> um_ok um \<and> gm_ok gm \<and> fmq_ok f"
    by (rule srv_relE [OF R])
  have new: "g \<notin> set (a_groups x)" using chat_inv_groups [OF inv fd(2)] None by (metis option.distinct(1))
  have y: "mcast_ip y = mp_ip p" "mcast_port y = mp_port p" using info_pair [OF c(4)] by simp_all
  have ok: "srv_ok (w\<lparr>g_userMng := Some um', g_groupMng := Some gm', g_mcQueue := Some f'\<rparr>) = srv_ok w"
    if "um_ok um' = um_ok um" "gm_ok gm' = gm_ok gm1" "fmq_ok f' = fmq_ok f1" for um' gm' f'
    using that c(7,8) h by (simp add: srv_ok_def)
  obtain r um1 where u: "UserMng_JoinGroup (Some um) fd (Some g) = Some (r, Some um1)" "um_ok um1 = um_ok um"
      "r = ST_OK \<and> um_rel um1 ((accts S)(k := Some (x\<lparr>a_groups := a_groups x @ [g]\<rparr>))) \<or>
       r = ST_ERR_SERVER_FULL \<and> um_rel um1 (accts S) \<and> \<not> um_ok um"
    using um.join_law [OF h(4) fd, of g] new by auto
  from u(3) show ?thesis
  proof (elim disjE conjE)
    assume r: "r = ST_OK" "um_rel um1 ((accts S)(k := Some (x\<lparr>a_groups := a_groups x @ [g]\<rparr>)))"
    have "pair_ok p" using fmq_rel_pair_ok [OF h(6), of p] Cons by simp
    then have "HandleCreateGroupReq fd (Some b) n w = Some (w\<lparr>g_userMng := Some um1, g_groupMng := Some gm1, g_mcQueue := Some f1,
        sent := sent w @ reply_log fd (Some (OP_CREATE_GROUP_REP, ST_OK, Some p))\<rparr>)"
      using og li c(1-3) u(1) h(1) r(1) y group_sent [of p] unfolding HandleCreateGroupReq_def by simp
    then show ?thesis
      using answers_group [OF chat_step.create_ok [OF fd None Cons], of um1 gm1 f1] r(2) c(5,6) ok [OF u(2) refl refl] by simp
  next
    assume r: "r = ST_ERR_SERVER_FULL" "um_rel um1 (accts S)" "\<not> um_ok um"
    have room: "length ps < 255" using fmq_rel_length [OF h(6)] Cons by simp
    have d: "drop_member g ((grps S)(g := Some \<lparr>i_pair = p, i_count = 1\<rparr>)) = grps S"
      "freed g ((grps S)(g := Some \<lparr>i_pair = p, i_count = 1\<rparr>)) = [p]"
      using None by (auto simp: drop_member_def freed_def fun_eq_iff)
    obtain gm2 f2 ps' where l: "GroupMng_LeaveGroup (Some gm1) (Some f1) (Some g) = Some (ST_OK, Some gm2, Some f2)"
        "gm_ok gm2 = gm_ok gm1" "fmq_ok f2 = fmq_ok f1" "gm_rel gm2 (grps S)" "fmq_rel f2 ps'" "refilled (fmq_ok f1) ps [p] ps'"
      using gm.leave_law [OF c(5) _ c(6) room, of g "\<lparr>i_pair = p, i_count = 1\<rparr>"] d by auto
    have "HandleCreateGroupReq fd (Some b) n w = Some (w\<lparr>g_userMng := Some um1, g_groupMng := Some gm2, g_mcQueue := Some f2,
        sent := sent w @ reply_log fd (status_reply OP_CREATE_GROUP_REP ST_ERR_SERVER_FULL)\<rparr>)"
      using og li c(1,2) u(1) h(1) r(1) l(1) unfolding HandleCreateGroupReq_def by (simp add: status_sent)
    moreover have "\<not> srv_ok w" "refilled (srv_ok w) ps [p] ps'" "\<not> free_fd (accts S) fd"
      using h r(3) refilled_mono [OF l(6), of "srv_ok w"] c(8) fd(2,3) by (auto simp: free_fd_def)
    from chat_step.create_failed [OF this(1) fd(1) this(3) None Cons this(2), of ST_ERR_SERVER_FULL]
    have "chat_step (srv_ok w) fd (CreateGroup g) S (status_reply OP_CREATE_GROUP_REP ST_ERR_SERVER_FULL) (S\<lparr>avail := ps'\<rparr>)" by simp
    ultimately show ?thesis
      using answers_status [of w fd _ S _ _ "S\<lparr>avail := ps'\<rparr>" um1 gm2 f2] r(2) l(4,5) ok [OF u(2) l(2,3)] by simp
  qed
qed

lemma HandleCreateGroupReq_answers:
  assumes R: "srv_rel w S" and inv: "chat_inv S" and n: "n \<le> length b" and gn: "parse_groupname (take n b) = Some g0"
  shows "\<exists>w'. HandleCreateGroupReq fd (Some b) n w = Some w' \<and> answers fd (CreateGroup (as_cstring g0)) w S w'"
proof -
  let ?g = "as_cstring g0" let ?d = "\<lparr>mp_ip = [], mp_port = 0\<rparr>"
  obtain um gm f where g: "g_userMng w = Some um" "g_groupMng w = Some gm" "g_mcQueue w = Some f"
    "um_rel um (accts S)" "gm_rel gm (grps S)" "fmq_rel f (avail S)" "srv_ok w \<longleftrightarrow> um_ok um \<and> gm_ok gm \<and> fmq_ok f"
    by (rule srv_relE [OF R])
  obtain og where og: "chat_decode_groupname (Some b) n (zeroed CHAT_MAX_GROUPNAME_LEN) = Some (0, Some og)" "cstr og = Some ?g"
    using decoded_groupname(1) [OF n gn] by blast
  have refused: "HandleCreateGroupReq fd (Some b) n w = Some (w\<lparr>g_groupMng := gm', g_mcQueue := q',
      sent := sent w @ reply_log fd (status_reply OP_CREATE_GROUP_REP r)\<rparr>)"
    if "UserMng_IsLoggedIn (Some um) fd = Some 1" "r \<noteq> ST_OK"
      "GroupMng_CreateGroup ?d (Some gm) (Some f) (Some ?g) (Some NULL) = Some (r, a, gm', q')" for r a gm' q'
    using og that g(1-3) unfolding HandleCreateGroupReq_def by (simp add: status_sent)
  show ?thesis
  proof (cases rule: logged_in [OF g(4), of fd])
    case no: 1
    have "HandleCreateGroupReq fd (Some b) n w = Some (w\<lparr>sent := sent w @ reply_log fd (status_reply OP_CREATE_GROUP_REP ST_ERR_NOT_LOGGED_IN)\<rparr>)"
      using og no(1) g(1) unfolding HandleCreateGroupReq_def by (simp add: status_sent)
    then show ?thesis using answers_same [OF chat_step.create_offline [OF no(2)] R] by simp
  next
    case yes: (2 k x)
    show ?thesis
    proof (cases "grps S ?g")
      case (Some i)
      then show ?thesis
        using refused [OF yes(1) _ gm.create_exists_law [OF g(5) Some]]
          answers_same [OF chat_step.create_exists [OF yes(2,3) Some] R]
          globals_same(3) [OF g(1)] globals_same(4) [OF g(1-3)] by simp
    next
      case None
      show ?thesis
      proof (cases "avail S")
        case Nil
        then obtain f' where c: "GroupMng_CreateGroup ?d (Some gm) (Some f) (Some ?g) (Some NULL) = Some (ST_ERR_SERVER_FULL, Some NULL, Some gm, Some f')"
            "fmq_rel f' (avail S)" "fmq_ok f' = fmq_ok f"
          using gm.create_full_law [OF g(5) None, of f ?d NULL] g(6) by auto
        then show ?thesis
          using refused [OF yes(1) _ c(1)] answers_status [OF chat_step.create_full [OF yes(2,3) None Nil] g(4,5) c(2)] g c(3)
          globals_same(3) [OF g(1)] by (simp add: srv_ok_def)
      next
        case (Cons p ps)
        have fp: "fmq_rel f (p # ps)" using g(6) Cons by simp
        obtain r a gm1 f1 where c: "GroupMng_CreateGroup ?d (Some gm) (Some f) (Some ?g) (Some NULL) = Some (r, Some a, Some gm1, Some f1)"
            "gm_ok gm1 = gm_ok gm" "fmq_ok f1 = fmq_ok f"
            "r = ST_OK \<and> a \<noteq> NULL \<and> (\<exists>x. deref (groups gm1) a = Some x \<and> info x = \<lparr>i_pair = p, i_count = 1\<rparr>) \<and>
              gm_rel gm1 ((grps S)(?g := Some \<lparr>i_pair = p, i_count = 1\<rparr>)) \<and> fmq_rel f1 ps \<or>
             r = ST_ERR_PROTOCOL \<and> gm_rel gm1 (grps S) \<and> \<not> gm_ok gm \<and> (\<exists>ps'. fmq_rel f1 ps' \<and> refilled (fmq_ok f) ps [p] ps')"
          using gm.create_law [OF g(5) None as_cstring_lengths(3) [OF gn] fp, of ?d NULL] by blast
        from c(4) show ?thesis
        proof (elim disjE conjE exE)
          fix ps' assume r: "r = ST_ERR_PROTOCOL" "gm_rel gm1 (grps S)" "\<not> gm_ok gm" "fmq_rel f1 ps'" "refilled (fmq_ok f) ps [p] ps'"
          have "\<not> srv_ok w" "refilled (srv_ok w) ps [p] ps'" using g(7) r(3) refilled_mono [OF r(5)] by blast+
          from chat_step.create_failed [OF this(1) yes(2,3) None Cons this(2), of r] r(1)
          have "chat_step (srv_ok w) fd (CreateGroup ?g) S (status_reply OP_CREATE_GROUP_REP r) (S\<lparr>avail := ps'\<rparr>)" by simp
          then show ?thesis
            using refused [OF yes(1) _ c(1)] answers_status [of w fd _ S _ r "S\<lparr>avail := ps'\<rparr>" um gm1 f1] g r(1,2,4) c(2,3)
              globals_same(3) [OF g(1)] by (simp add: srv_ok_def)
        next
          fix y assume r: "r = ST_OK" "a \<noteq> NULL" "deref (groups gm1) a = Some y" "info y = \<lparr>i_pair = p, i_count = 1\<rparr>"
            "gm_rel gm1 ((grps S)(?g := Some \<lparr>i_pair = p, i_count = 1\<rparr>))" "fmq_rel f1 ps"
          show ?thesis
            using create_joined [OF R inv _ yes(2,4,5) None Cons og _ r(2-6)] yes(1) c(1-3) r(1) g(1-3) by simp
        qed
      qed
    qed
  qed
qed

section \<open>The whole dispatcher\<close>

lemma answers_ignored: "srv_rel w S \<Longrightarrow> answers fd Ignored w S w"
  unfolding answers_def by (intro exI [of _ None] exI [of _ S]) (simp add: chat_step.ignored reply_log_def)

lemma ServerMng_HandleMessage_answers:
  assumes R: "srv_rel w S" and inv: "chat_inv S" and n: "2 \<le> n" "n \<le> length b"
  shows "\<exists>w'. ServerMng_HandleMessage fd (Some b) n w = Some (0, w') \<and> answers fd (parse_request (take n b)) w S w'"
proof -
  have "1 < length b" "0 < length b" "\<not> n < 2" using n by linarith+
  then have peek: "chat_peek_header (Some b) n (Some 0) (Some 0) = Some (0, Some (b ! 0), Some (b ! 1))"
    by (simp add: chat_peek_header_def rd_def)
  have b0: "take n b ! 0 = b ! 0" using n by simp
  have pr: "\<not> length (take n b) < 2" using n by simp
  have up: "\<exists>w'. h fd (Some b) n w = Some w' \<and> answers fd (case parse_user_pass (take n b) of Some (u, p) \<Rightarrow> f (as_cstring u) (as_cstring p) | None \<Rightarrow> Ignored) w S w'"
    if "parse_user_pass (take n b) = None \<Longrightarrow> h fd (Some b) n w = Some w"
      "\<And>u p. parse_user_pass (take n b) = Some (u, p) \<Longrightarrow> \<exists>w'. h fd (Some b) n w = Some w' \<and> answers fd (f (as_cstring u) (as_cstring p)) w S w'" for h f
    using that answers_ignored [OF R, of fd] by (cases "parse_user_pass (take n b)") auto
  have gn: "\<exists>w'. h fd (Some b) n w = Some w' \<and> answers fd (case parse_groupname (take n b) of Some g \<Rightarrow> f (as_cstring g) | None \<Rightarrow> Ignored) w S w'"
    if "parse_groupname (take n b) = None \<Longrightarrow> h fd (Some b) n w = Some w"
      "\<And>g. parse_groupname (take n b) = Some g \<Longrightarrow> \<exists>w'. h fd (Some b) n w = Some w' \<and> answers fd (f (as_cstring g)) w S w'" for h f
    using that answers_ignored [OF R, of fd] by (cases "parse_groupname (take n b)") auto
  note bad_up = decoded_user_pass(2) [OF n(2)] and bad_gn = decoded_groupname(2) [OF n(2)]
  have reg: "\<exists>w'. HandleRegisterReq fd (Some b) n w = Some w' \<and> answers fd (case parse_user_pass (take n b) of Some (u, p) \<Rightarrow> Register (as_cstring u) (as_cstring p) | None \<Rightarrow> Ignored) w S w'"
    by (rule up, use bad_up in \<open>fastforce simp: HandleRegisterReq_def\<close>, rule HandleRegisterReq_answers [OF R n(2)])
  have log: "\<exists>w'. HandleLoginReq fd (Some b) n w = Some w' \<and> answers fd (case parse_user_pass (take n b) of Some (u, p) \<Rightarrow> Login (as_cstring u) (as_cstring p) | None \<Rightarrow> Ignored) w S w'"
    by (rule up, use bad_up in \<open>fastforce simp: HandleLoginReq_def\<close>, rule HandleLoginReq_answers [OF R n(2)])
  have cre: "\<exists>w'. HandleCreateGroupReq fd (Some b) n w = Some w' \<and> answers fd (case parse_groupname (take n b) of Some g \<Rightarrow> CreateGroup (as_cstring g) | None \<Rightarrow> Ignored) w S w'"
    by (rule gn, use bad_gn in \<open>fastforce simp: HandleCreateGroupReq_def\<close>, rule HandleCreateGroupReq_answers [OF R inv n(2)])
  have joi: "\<exists>w'. HandleJoinGroupReq fd (Some b) n w = Some w' \<and> answers fd (case parse_groupname (take n b) of Some g \<Rightarrow> JoinGroup (as_cstring g) | None \<Rightarrow> Ignored) w S w'"
    by (rule gn, use bad_gn in \<open>fastforce simp: HandleJoinGroupReq_def\<close>, rule HandleJoinGroupReq_answers [OF R inv n(2)])
  have lea: "\<exists>w'. HandleLeaveGroupReq fd (Some b) n w = Some w' \<and> answers fd (case parse_groupname (take n b) of Some g \<Rightarrow> LeaveGroup (as_cstring g) | None \<Rightarrow> Ignored) w S w'"
    by (rule gn, use bad_gn in \<open>fastforce simp: HandleLeaveGroupReq_def\<close>, rule HandleLeaveGroupReq_answers [OF R inv n(2)])
  note eqs = ServerMng_HandleMessage_def peek parse_request_def b0 pr Let_def
  show ?thesis
    using reg log cre joi lea HandleLogoutReq_answers [OF R inv, of fd] answers_ignored [OF R, of fd]
    by (cases "opcode_of (b ! 0)") (auto simp: eqs simp del: length_take)
qed

lemma ServerMng_HandleMessage_short: "n < 2 \<Longrightarrow> ServerMng_HandleMessage fd b n w = Some (- 1, w)"
  by (simp add: ServerMng_HandleMessage_def chat_peek_header_def)

text \<open>No handler looks at a byte beyond the message.\<close>

lemma ServerMng_reads_message: "reads_message (Some ServerMng_HandleMessage)"
proof -
  have "ServerMng_HandleMessage fd (Some b) n w = ServerMng_HandleMessage fd (Some (take n b)) n w" for fd b n w
  proof -
    have peek: "chat_peek_header (Some (take n b)) n (Some 0) (Some 0) = chat_peek_header (Some b) n (Some 0) (Some 0)"
      by (cases "n < 2") (simp_all add: chat_peek_header_def rd_take)
    have handlers: "HandleRegisterReq fd (Some (take n b)) n w = HandleRegisterReq fd (Some b) n w"
      "HandleLoginReq fd (Some (take n b)) n w = HandleLoginReq fd (Some b) n w"
      "HandleCreateGroupReq fd (Some (take n b)) n w = HandleCreateGroupReq fd (Some b) n w"
      "HandleJoinGroupReq fd (Some (take n b)) n w = HandleJoinGroupReq fd (Some b) n w"
      "HandleLeaveGroupReq fd (Some (take n b)) n w = HandleLeaveGroupReq fd (Some b) n w"
      by (simp_all add: HandleRegisterReq_def HandleLoginReq_def HandleCreateGroupReq_def HandleJoinGroupReq_def
          HandleLeaveGroupReq_def decoders_window)
    show ?thesis unfolding ServerMng_HandleMessage_def peek handlers ..
  qed
  then show ?thesis unfolding reads_message_def by blast
qed

lemma ServerMng_OnDisconnect_step:
  assumes R: "srv_rel w S" and inv: "chat_inv S"
  shows "\<exists>w' S'. ServerMng_OnDisconnect fd w = Some w' \<and> chat_disconnect (srv_ok w) fd S S' \<and> srv_rel w' S' \<and> srv_ok w' = srv_ok w \<and>
    sent w' = sent w \<and> closed w' = closed w \<and> os_send w' = os_send w"
proof -
  obtain um gm f where g: "g_userMng w = Some um" "g_groupMng w = Some gm" "g_mcQueue w = Some f" "um_rel um (accts S)"
    by (rule srv_relE [OF R])
  have same: ?thesis if "UserMng_Logout (Some um) fd (Some OnUserImplicitLeave) (Some gm, Some f) = Some (r, Some um, Some gm, Some f)"
    "chat_step (srv_ok w) fd Logout S (status_reply OP_LOGOUT_REP r) S" for r
    using that R g by (intro exI [of _ w] exI [of _ S]) (auto simp: ServerMng_OnDisconnect_def UserMng_Disconnect_def chat_disconnect_def)
  show ?thesis
  proof (cases rule: um.socket_cases [OF g(4), of fd])
    case 1
    show ?thesis by (rule same [OF um_bad_fd(2) [OF 1] chat_step.logout_bad_fd [OF 1]])
  next
    case 2
    show ?thesis by (rule same [OF um_join_free(3) [OF g(4) 2] chat_step.logout_offline [OF 2]])
  next
    case (3 k x)
    obtain um' gm' f' ps where l: "UserMng_Logout (g_userMng w) fd (Some OnUserImplicitLeave) (g_groupMng w, g_mcQueue w) =
        Some (ST_OK, Some um', Some gm', Some f')" "um_rel um' ((accts S)(k := Some (x\<lparr>a_fd := - 1, a_groups := []\<rparr>)))"
      "gm_rel gm' (leave_groups (a_groups x) (grps S))" "fmq_rel f' ps"
      "refilled (srv_ok w) (avail S) (freed_by (a_groups x) (grps S)) ps"
      "srv_ok (w\<lparr>g_userMng := Some um', g_groupMng := Some gm', g_mcQueue := Some f'\<rparr>) = srv_ok w"
      using logout_globals [OF R inv 3(1,3,4)] by blast
    let ?w = "w\<lparr>g_userMng := Some um', g_groupMng := Some gm', g_mcQueue := Some f'\<rparr>"
    let ?S = "S\<lparr>accts := (accts S)(k := Some (x\<lparr>a_fd := - 1, a_groups := []\<rparr>)), grps := leave_groups (a_groups x) (grps S), avail := ps\<rparr>"
    have "chat_disconnect (srv_ok w) fd S ?S" using chat_step.logout_ok [OF 3(1,3,4) l(5)] by (auto simp: chat_disconnect_def)
    moreover have "ServerMng_OnDisconnect fd w = Some ?w"
      using l(1) g(1) by (simp add: ServerMng_OnDisconnect_def UserMng_Disconnect_def)
    moreover have "srv_rel ?w ?S" using l by (simp add: srv_rel_def)
    ultimately show ?thesis using l(6) by (intro exI [of _ ?w] exI [of _ ?S]) simp
  qed
qed

section \<open>The invariant of the specification\<close>

definition group_ok :: "accounts \<Rightarrow> (cstring \<rightharpoonup> GroupInfo) \<Rightarrow> cstring \<Rightarrow> bool" where
  "group_ok U G g \<longleftrightarrow> (case G g of None \<Rightarrow> members U g = {} | Some i \<Rightarrow> members U g \<noteq> {} \<and> i_count i = card (members U g))"

lemma chat_inv_iff: "chat_inv S \<longleftrightarrow> accounts_ok (accts S) \<and> finite (dom (accts S)) \<and> pool_inv (grps S) (avail S) \<and> (\<forall>g. group_ok (accts S) (grps S) g)"
  by (simp add: chat_inv_def group_ok_def)

lemma chat_members_finite: "finite (dom U) \<Longrightarrow> finite (members U g)"
  by (rule finite_subset [of _ "dom U"]) (auto simp: members_def)

lemma members_upd: "members (U(k := Some x)) g = (if g \<in> set (a_groups x) then insert k (members U g) else members U g - {k})"
  by (auto simp: members_def split: if_splits)

lemma members_of: "U k = Some x \<Longrightarrow> k \<in> members U g \<longleftrightarrow> g \<in> set (a_groups x)"
  by (simp add: members_def)

lemma group_ok_same: "group_ok U G g \<Longrightarrow> members U' g = members U g \<Longrightarrow> G' g = G g \<Longrightarrow> group_ok U' G' g"
  by (cases "G g") (simp_all add: group_ok_def)

lemma drop_member_at: "drop_member g G g = (case G g of None \<Rightarrow> None | Some i \<Rightarrow> if i_count i \<le> 1 then None else Some (i\<lparr>i_count := i_count i - 1\<rparr>))"
  "h \<noteq> g \<Longrightarrow> drop_member g G h = G h"
  by (auto simp: drop_member_def split: option.split)

lemma group_ok_drop:
  assumes ok: "group_ok U G g" and fin: "finite (dom U)" and k: "k \<in> members U g" and m: "members U' g = members U g - {k}"
    and G': "G' g = drop_member g G g"
  shows "group_ok U' G' g"
proof -
  obtain i where i: "G g = Some i" "i_count i = card (members U g)" using ok k by (auto simp: group_ok_def split: option.splits)
  have c: "card (members U' g) = card (members U g) - 1" using k m chat_members_finite [OF fin] by (simp add: card_Diff_singleton)
  have f: "finite (members U' g)" "finite (members U g)" using m chat_members_finite [OF fin] by auto
  show ?thesis
  proof (cases "card (members U g) \<le> 1")
    case True
    then have "members U' g = {}" using c f by simp
    then show ?thesis using True i G' by (simp add: group_ok_def drop_member_at)
  next
    case False
    then have "members U' g \<noteq> {}" using c by auto
    then show ?thesis using False i G' c by (simp add: group_ok_def drop_member_at)
  qed
qed

lemma leave_groups_at: "distinct gs \<Longrightarrow> leave_groups gs G g = (if g \<in> set gs then drop_member g G g else G g)"
proof (induction gs arbitrary: G)
  case (Cons h gs)
  have "drop_member g (drop_member h G) g = drop_member g G g" if "g \<noteq> h"
    using that by (simp add: drop_member_at)
  then show ?case using Cons by (auto simp: leave_groups_def drop_member_at(2))
qed (simp add: leave_groups_def)

lemma refilled_split: "refilled b ps (qs @ rs) ps' \<Longrightarrow> \<exists>ps1. refilled b ps qs ps1 \<and> refilled b ps1 rs ps'"
proof -
  assume "refilled b ps (qs @ rs) ps'"
  then obtain zs where z: "ps' = ps @ zs" "subseq zs (qs @ rs)" "b \<longrightarrow> zs = qs @ rs" by (auto simp: refilled_def)
  show ?thesis
  proof (cases b)
    case True
    then show ?thesis using z by simp
  next
    case False
    obtain z1 z2 where "zs = z1 @ z2" "subseq z1 qs" "subseq z2 rs" using z(2) by (auto simp: subseq_append_iff)
    then show ?thesis using False z(1) by (auto simp: refilled_def)
  qed
qed

lemma pool_inv_leave_groups:
  "pool_inv G ps \<Longrightarrow> distinct gs \<Longrightarrow> \<forall>g \<in> set gs. G g \<noteq> None \<Longrightarrow> refilled b ps (freed_by gs G) ps' \<Longrightarrow> pool_inv (leave_groups gs G) ps'"
proof (induction gs arbitrary: G ps)
  case (Cons g gs)
  obtain i where i: "G g = Some i" using Cons.prems(3) by auto
  obtain ps1 where p: "refilled b ps (freed g G) ps1" "refilled b ps1 (freed_by gs G) ps'"
    using refilled_split Cons.prems(4) by (fastforce simp: freed_by_def)
  have "freed h (drop_member g G) = freed h G" "drop_member g G h = G h" if "h \<in> set gs" for h
    using Cons.prems(2) that by (cases "h = g"; simp add: freed_def drop_member_at(2))+
  then have "freed_by gs (drop_member g G) = freed_by gs G" "\<forall>h \<in> set gs. drop_member g G h \<noteq> None"
    using Cons.prems(3) by (simp_all add: freed_by_def cong: map_cong)
  then have "pool_inv (leave_groups gs (drop_member g G)) ps'"
    using Cons.IH [OF pool_inv_drop [OF Cons.prems(1) i p(1)]] Cons.prems(2) p(2) by simp
  then show ?case by (simp add: leave_groups_def)
qed (simp add: leave_groups_def freed_by_def)

lemma accounts_ok_upd: "accounts_ok U \<Longrightarrow> distinct (a_groups x) \<Longrightarrow> (a_fd x = - 1 \<Longrightarrow> a_groups x = []) \<Longrightarrow> accounts_ok (U(k := Some x))"
  by (auto simp: accounts_ok_def)

lemma chat_inv_upd:
  assumes inv: "chat_inv S" and x': "distinct (a_groups x')" "a_fd x' = - 1 \<longrightarrow> a_groups x' = []"
    and pool: "pool_inv G ps" and g: "\<forall>g. group_ok ((accts S)(k := Some x')) G g"
  shows "chat_inv (S\<lparr>accts := (accts S)(k := Some x'), grps := G, avail := ps\<rparr>)"
  using assms by (auto simp: chat_inv_iff intro: accounts_ok_upd)

lemma chat_inv_offline: "chat_inv S \<Longrightarrow> accts S k = Some x \<Longrightarrow> a_fd x = fd \<Longrightarrow> fd_ok fd \<Longrightarrow> a_fd x \<noteq> - 1"
  by (auto simp: fd_ok_def)

lemma chat_inv_same_members: "chat_inv S \<Longrightarrow> (\<And>g. members U g = members (accts S) g) \<Longrightarrow> \<forall>g. group_ok U (grps S) g"
  unfolding chat_inv_iff by (blast intro: group_ok_same [of "accts S" "grps S"])

lemma chat_inv_groups_ok: "chat_inv S \<Longrightarrow> group_ok (accts S) (grps S) g" "chat_inv S \<Longrightarrow> finite (dom (accts S))"
  by (simp_all add: chat_inv_iff)

lemma inv_register:
  assumes "chat_inv S" "accts S k = None"
  shows "chat_inv (S\<lparr>accts := (accts S)(k := Some \<lparr>a_pwd = p, a_fd = - 1, a_groups = []\<rparr>)\<rparr>)"
proof -
  have "members ((accts S)(k := Some \<lparr>a_pwd = p, a_fd = - 1, a_groups = []\<rparr>)) g = members (accts S) g" for g
    using assms(2) by (auto simp: members_def)
  from chat_inv_upd [OF assms(1) _ _ chat_inv_pool [OF assms(1)] chat_inv_same_members [OF assms(1) this]] show ?thesis by simp
qed

lemma inv_login:
  assumes "chat_inv S" "accts S k = Some x" "fd_ok fd"
  shows "chat_inv (S\<lparr>accts := (accts S)(k := Some (x\<lparr>a_fd := fd\<rparr>))\<rparr>)"
proof -
  have "members ((accts S)(k := Some (x\<lparr>a_fd := fd\<rparr>))) g = members (accts S) g" for g
    using assms(2) by (auto simp: members_upd members_of insert_absorb)
  moreover have "fd \<noteq> - 1" using assms(3) by (auto simp: fd_ok_def)
  ultimately show ?thesis
    using chat_inv_upd [OF assms(1) _ _ chat_inv_pool [OF assms(1)] chat_inv_same_members [OF assms(1)], of "x\<lparr>a_fd := fd\<rparr>" k]
      chat_inv_accounts [OF assms(1,2)] by simp
qed

lemma inv_logout:
  assumes inv: "chat_inv S" and k: "accts S k = Some x" and r: "refilled b (avail S) (freed_by (a_groups x) (grps S)) ps"
  shows "chat_inv (S\<lparr>accts := (accts S)(k := Some (x\<lparr>a_fd := - 1, a_groups := []\<rparr>)),
    grps := leave_groups (a_groups x) (grps S), avail := ps\<rparr>)"
proof -
  let ?x = "x\<lparr>a_fd := - 1, a_groups := []\<rparr>"
  note ok = chat_inv_groups_ok [OF inv] and d = chat_inv_accounts(1) [OF inv k]
  have ex: "\<forall>g \<in> set (a_groups x). grps S g \<noteq> None" using chat_inv_groups [OF inv k] by blast
  have "group_ok ((accts S)(k := Some ?x)) (leave_groups (a_groups x) (grps S)) g" for g
  proof (cases "g \<in> set (a_groups x)")
    case True
    then show ?thesis
      using members_of [of "accts S" k x g, OF k] leave_groups_at [OF d, of "grps S" g]
      by (intro group_ok_drop [OF ok, of k]) (simp_all add: members_upd)
  next
    case False
    then show ?thesis
      using members_of [of "accts S" k x g, OF k] leave_groups_at [OF d, of "grps S" g]
      by (intro group_ok_same [OF ok(1)]) (simp_all add: members_upd)
  qed
  then show ?thesis
    using chat_inv_upd [OF inv _ _ pool_inv_leave_groups [OF chat_inv_pool [OF inv] d ex r], of ?x k] by simp
qed

text \<open>A user enters a group: a new one, or one that exists.\<close>

lemma inv_enter:
  assumes inv: "chat_inv S" and k: "accts S k = Some x" "a_fd x \<noteq> - 1" and g: "g \<notin> set (a_groups x)"
    and i: "i_count i = card (members (accts S) g) + 1" and p: "pool_inv ((grps S)(g := Some i)) ps"
  shows "chat_inv (S\<lparr>accts := (accts S)(k := Some (x\<lparr>a_groups := a_groups x @ [g]\<rparr>)), grps := (grps S)(g := Some i), avail := ps\<rparr>)"
proof -
  let ?x = "x\<lparr>a_groups := a_groups x @ [g]\<rparr>"
  note ok = chat_inv_groups_ok [OF inv]
  have "group_ok ((accts S)(k := Some ?x)) ((grps S)(g := Some i)) h" for h
  proof (cases "h = g")
    case True
    then show ?thesis
      using i members_of [of "accts S" k x g, OF k(1)] g chat_members_finite [OF ok(2), of g] by (simp add: group_ok_def members_upd)
  next
    case False
    then show ?thesis
      using members_of [of "accts S" k x h, OF k(1)] by (intro group_ok_same [OF ok(1)]) (auto simp: members_upd)
  qed
  then show ?thesis
    using chat_inv_upd [OF inv _ _ p, of ?x k] chat_inv_accounts [OF inv k(1)] k(2) g by simp
qed

lemma inv_leave:
  assumes inv: "chat_inv S" and k: "accts S k = Some x" "a_fd x \<noteq> - 1" and g: "g \<in> set (a_groups x)"
    and r: "refilled b (avail S) (freed g (grps S)) ps"
  shows "chat_inv (S\<lparr>accts := (accts S)(k := Some (x\<lparr>a_groups := removeAll g (a_groups x)\<rparr>)), grps := drop_member g (grps S), avail := ps\<rparr>)"
proof -
  let ?x = "x\<lparr>a_groups := removeAll g (a_groups x)\<rparr>"
  note ok = chat_inv_groups_ok [OF inv]
  obtain i where i: "grps S g = Some i" by (rule chat_inv_groups [OF inv k(1) g])
  have "group_ok ((accts S)(k := Some ?x)) (drop_member g (grps S)) h" for h
  proof (cases "h = g")
    case True
    then show ?thesis
      using members_of [of "accts S" k x g, OF k(1)] g by (intro group_ok_drop [OF ok, of k]) (simp_all add: members_upd)
  next
    case False
    then show ?thesis
      using members_of [of "accts S" k x h, OF k(1)] by (intro group_ok_same [OF ok(1)]) (auto simp: members_upd drop_member_at(2))
  qed
  then show ?thesis
    using chat_inv_upd [OF inv _ _ pool_inv_drop [OF chat_inv_pool [OF inv] i r], of ?x k] chat_inv_accounts [OF inv k(1)] k(2)
    by (simp add: distinct_removeAll)
qed

lemma chat_step_inv:
  assumes "chat_step b fd rq S rep S'" "chat_inv S"
  shows "chat_inv S'"
  using assms(1)
proof (cases rule: chat_step.cases)
  case (create_ok k x g p ps)
  have "members (accts S) g = {}" using chat_inv_groups_ok(1) [OF assms(2), of g] create_ok(7) by (simp add: group_ok_def)
  moreover from this have "g \<notin> set (a_groups x)" using members_of [of "accts S" k x g, OF create_ok(5)] by simp
  moreover have "pool_inv ((grps S)(g := Some \<lparr>i_pair = p, i_count = 1\<rparr>)) ps"
    using pool_inv_take [of "grps S" p ps g] chat_inv_pool [OF assms(2)] create_ok(7,8) by simp
  ultimately show ?thesis
    using inv_enter [OF assms(2) create_ok(5)] chat_inv_offline [OF assms(2) create_ok(5,6,4)] create_ok(3) by simp
next
  case (join_ok k x g i)
  have "pool_inv ((grps S)(g := Some (i\<lparr>i_count := i_count i + 1\<rparr>))) (avail S)"
    using pool_inv_count [OF chat_inv_pool [OF assms(2)] join_ok(7)] by simp
  then show ?thesis
    using inv_enter [OF assms(2) join_ok(5) _ join_ok(8), of "i\<lparr>i_count := i_count i + 1\<rparr>" "avail S"]
      chat_inv_count(1) [OF assms(2) join_ok(7)] chat_inv_offline [OF assms(2) join_ok(5,6,4)] join_ok(3) by simp
next
  case (create_failed g p ps ps' st)
  then show ?thesis
    using assms(2) pool_inv_refilled [of "grps S" p ps b ps'] by (auto simp: chat_inv_iff)
next
  case (leave_ok k x g ps)
  then show ?thesis
    using inv_leave [OF assms(2) leave_ok(5) _ leave_ok(7,8)] chat_inv_offline [OF assms(2) leave_ok(5,6,4)] by simp
qed (use assms(2) inv_register inv_login inv_logout in simp_all)

section \<open>Start and end\<close>

definition start :: "McastPair list \<Rightarrow> Chat" where
  "start ps = \<lparr>accts = Map.empty, grps = Map.empty, avail = ps\<rparr>"

lemma start_inv: "distinct ps \<Longrightarrow> length ps \<le> 255 \<Longrightarrow> chat_inv (start ps)"
  by (simp add: start_def chat_inv_def accounts_ok_def pool_inv_def members_def)

definition no_globals :: "Server \<Rightarrow> bool" where
  "no_globals w \<longleftrightarrow> g_userMng w = None \<and> g_groupMng w = None \<and> g_mcQueue w = None"

lemma no_globals_upd: "w\<lparr>g_userMng := None, g_groupMng := None, g_mcQueue := None\<rparr> = w" if "no_globals w" for w :: Server
  using that by (cases w) (simp add: no_globals_def)

text \<open>The allocations of the fixed structures, without which the server does not start.\<close>

definition structs_ok :: "srv_alloc \<Rightarrow> bool" where
  "structs_ok sa \<longleftrightarrow> (\<forall>i \<in> {0, 1, 2}. sa_queue sa i \<and> ga_structs (sa_groups sa) i \<and> ua_structs (sa_users sa) i)"

definition never_fails :: "srv_alloc \<Rightarrow> bool" where
  "never_fails sa \<longleftrightarrow> (\<forall>n. sa_pairs sa n) \<and>
     (\<forall>n. ga_nodes (sa_groups sa) n \<and> ga_kvps (sa_groups sa) n \<and> ga_groups (sa_groups sa) n) \<and>
     (\<forall>n. ua_nodes (sa_users sa) n \<and> ua_kvps (sa_users sa) n \<and> ua_users (sa_users sa) n \<and> ua_lists (sa_users sa) n \<and> ua_names (sa_users sa) n)"

lemma init_started:
  assumes "structs_ok sa"
  obtains w' js where "ServerMng_Init sa w = Some (0, w')" "subseq js [1..<256]" "srv_rel w' (start (map pool_pair js))"
    "chat_inv (start (map pool_pair js))" "srv_ok w' = never_fails sa" "never_fails sa \<longrightarrow> js = [1..<256]"
    "sent w' = sent w" "closed w' = closed w"
proof -
  obtain f js where f: "FreeMcQueue_Create (sa_queue sa) (sa_pairs sa) = Some (Some f)" "subseq js [1..<256]"
      "fmq_rel f (map pool_pair js)" "distinct (map pool_pair js)" "(\<forall>n. sa_pairs sa n) \<longrightarrow> js = [1..<256]"
      "fmq_ok f = (\<forall>n. sa_pairs sa n)"
    using fmq_create_cases [of "sa_queue sa" "sa_pairs sa"] assms by (fastforce simp: structs_ok_def split: option.splits if_splits)
  obtain gm where gm: "GroupMng_Create (sa_groups sa) (Some f) = Some (Some gm)" "gm_rel gm Map.empty"
      "gm_ok gm = ((\<forall>n. ga_nodes (sa_groups sa) n) \<and> (\<forall>n. ga_kvps (sa_groups sa) n) \<and> (\<forall>n. ga_groups (sa_groups sa) n))"
    using gm_create [of "sa_groups sa" f] assms by (auto simp: structs_ok_def)
  obtain um where um: "UserMng_Create (sa_users sa) = Some (Some um)" "um_rel um Map.empty"
      "um_ok um = ((\<forall>n. ua_nodes (sa_users sa) n) \<and> (\<forall>n. ua_kvps (sa_users sa) n) \<and> (\<forall>n. ua_users (sa_users sa) n) \<and>
        (\<forall>n. ua_lists (sa_users sa) n) \<and> (\<forall>n. ua_names (sa_users sa) n))"
  proof -
    have "ua_structs (sa_users sa) 0 \<and> ua_structs (sa_users sa) 1 \<and> ua_structs (sa_users sa) 2" using assms by (simp add: structs_ok_def)
    from um_create [of "sa_users sa", unfolded if_P [OF this]] show thesis using that by blast
  qed
  let ?w = "w\<lparr>g_mcQueue := Some f, g_groupMng := Some gm, g_userMng := Some um\<rparr>"
  have "ServerMng_Init sa w = Some (0, ?w)" using f(1) gm(1) um(1) by (simp add: ServerMng_Init_def)
  moreover have "srv_rel ?w (start (map pool_pair js))" using f gm um by (simp add: srv_rel_def start_def)
  moreover have "chat_inv (start (map pool_pair js))" by (rule start_inv [OF f(4) fmq_rel_length [OF f(3)]])
  moreover have "srv_ok ?w = never_fails sa" unfolding never_fails_def all_conj_distrib using f(6) gm(3) um(3) by (simp add: srv_ok_def) argo
  moreover have "never_fails sa \<longrightarrow> js = [1..<256]" using f(5) by (auto simp: never_fails_def)
  ultimately show thesis using that [of ?w js] f(2) by simp
qed

lemma init_refused:
  assumes "\<not> structs_ok sa" "no_globals w"
  shows "ServerMng_Init sa w = Some (- 1, w)"
proof -
  obtain r where r: "FreeMcQueue_Create (sa_queue sa) (sa_pairs sa) = Some r"
      "case r of None \<Rightarrow> \<not> (sa_queue sa 0 \<and> sa_queue sa 1 \<and> sa_queue sa 2) | Some f \<Rightarrow> \<exists>js. fmq_rel f (map pool_pair js)"
    using fmq_create_cases [of "sa_queue sa" "sa_pairs sa"] by (fastforce split: option.splits)
  have undo: "w\<lparr>g_mcQueue := None\<rparr> = w" "w\<lparr>g_mcQueue := None, g_groupMng := None\<rparr> = w"
    "w\<lparr>g_mcQueue := None, g_groupMng := None, g_userMng := None\<rparr> = w"
    using assms(2) by (cases w; simp add: no_globals_def)+
  show ?thesis
  proof (cases r)
    case None
    then show ?thesis using r(1) undo by (simp add: ServerMng_Init_def)
  next
    case (Some f)
    then obtain js where f: "fmq_rel f (map pool_pair js)" using r(2) by auto
    obtain s where fd: "FreeMcQueue_Destroy (Some (Some f)) = Some (Some s, Some None)" using fmq_destroy [OF f] by blast
    show ?thesis
    proof (cases "GroupMng_Create (sa_groups sa) (Some f) = Some None")
      case True
      then show ?thesis using r(1) Some fd undo by (simp add: ServerMng_Init_def)
    next
      case False
      then obtain gm where gm: "GroupMng_Create (sa_groups sa) (Some f) = Some (Some gm)" "gm_rel gm Map.empty"
        "ga_structs (sa_groups sa) 0" "ga_structs (sa_groups sa) 1" "ga_structs (sa_groups sa) 2"
        using gm_create [of "sa_groups sa" f] by (auto split: if_splits)
      obtain h ks s' where gd: "GroupMng_Destroy (Some (Some gm)) = Some (Some None, Some (Some (h, ks), s'))"
        using gm_destroy [OF gm(2)] by blast
      have "sa_queue sa 0 \<and> sa_queue sa 1 \<and> sa_queue sa 2"
        using r(1) Some by (auto simp: FreeMcQueue_Create_def QueueCreate_def numeral_2_eq_2 split: if_splits option.splits)
      then have "UserMng_Create (sa_users sa) = Some None"
        using um_create [of "sa_users sa"] assms(1) gm(3-5) by (auto simp: structs_ok_def split: if_splits)
      then show ?thesis using r(1) Some gm(1) gd fd undo by (simp add: ServerMng_Init_def)
    qed
  qed
qed

text \<open>Nothing is left allocated.\<close>

definition all_freed :: "left_over \<Rightarrow> bool" where
  "all_freed l \<longleftrightarrow> (\<exists>h1 k1 us li ns h2 k2 gs ps. l = (Some (Some (h1, k1), us, li, ns), Some (Some (h2, k2), gs), Some ps) \<and>
     mem h1 = Map.empty \<and> mem k1 = Map.empty \<and> mem us = Map.empty \<and> mem li = Map.empty \<and> mem ns = Map.empty \<and>
     mem h2 = Map.empty \<and> mem k2 = Map.empty \<and> mem gs = Map.empty \<and> mem ps = Map.empty)"

lemma destroy_frees:
  assumes "srv_rel w S"
  shows "\<exists>l. ServerMng_Destroy w = Some (w\<lparr>g_userMng := None, g_groupMng := None, g_mcQueue := None\<rparr>, l) \<and> all_freed l"
proof -
  obtain um gm f where g: "g_userMng w = Some um" "g_groupMng w = Some gm" "g_mcQueue w = Some f"
    "um_rel um (accts S)" "gm_rel gm (grps S)" "fmq_rel f (avail S)"
    by (rule srv_relE [OF assms])
  obtain h1 k1 us li ns where u: "UserMng_Destroy (Some (Some um)) = Some (Some None, Some (Some (h1, k1), us, li, ns))"
      "mem h1 = Map.empty" "mem k1 = Map.empty" "mem us = Map.empty" "mem li = Map.empty" "mem ns = Map.empty"
    using um_destroy [OF g(4)] by blast
  obtain h2 k2 gs where m: "GroupMng_Destroy (Some (Some gm)) = Some (Some None, Some (Some (h2, k2), gs))"
      "mem h2 = Map.empty" "mem k2 = Map.empty" "mem gs = Map.empty"
    using gm_destroy [OF g(5)] by blast
  obtain ps where q: "FreeMcQueue_Destroy (Some (Some f)) = Some (Some ps, Some None)" "mem ps = Map.empty"
    using fmq_destroy [OF g(6)] by auto
  show ?thesis using g(1-3) u m q by (auto simp: ServerMng_Destroy_def all_freed_def)
qed

lemma destroy_again: "no_globals w \<Longrightarrow> ServerMng_Destroy w = Some (w, None, None, None)"
  by (cases w) (simp add: ServerMng_Destroy_def no_globals_def)

section \<open>Histories\<close>

text \<open>The states the server can be in: started, and driven by messages and disconnects, in any order and on any socket.\<close>

inductive reachable :: "srv_alloc \<Rightarrow> Server \<Rightarrow> Server \<Rightarrow> bool" for sa w0 where
  started: "ServerMng_Init sa w0 = Some (0, w) \<Longrightarrow> reachable sa w0 w"
| message: "reachable sa w0 w \<Longrightarrow> n \<le> length b \<Longrightarrow> ServerMng_HandleMessage fd (Some b) n w = Some (r, w') \<Longrightarrow> reachable sa w0 w'"
| disconnect: "reachable sa w0 w \<Longrightarrow> ServerMng_OnDisconnect fd w = Some w' \<Longrightarrow> reachable sa w0 w'"

definition srv_inv :: "Server \<Rightarrow> bool" where
  "srv_inv w \<longleftrightarrow> (\<exists>S. srv_rel w S \<and> chat_inv S)"

lemma message_inv:
  assumes "srv_inv w" "n \<le> length b"
  shows "\<exists>r w'. ServerMng_HandleMessage fd (Some b) n w = Some (r, w') \<and> srv_inv w'"
proof (cases "n < 2")
  case True
  then show ?thesis using ServerMng_HandleMessage_short assms(1) by blast
next
  case False
  obtain S where S: "srv_rel w S" "chat_inv S" using assms(1) by (auto simp: srv_inv_def)
  obtain w' where "ServerMng_HandleMessage fd (Some b) n w = Some (0, w')" "answers fd (parse_request (take n b)) w S w'"
    using ServerMng_HandleMessage_answers [OF S _ assms(2)] False by fastforce
  then show ?thesis using chat_step_inv [OF _ S(2)] unfolding answers_def srv_inv_def by blast
qed

lemma disconnect_inv:
  assumes "srv_inv w"
  shows "\<exists>w'. ServerMng_OnDisconnect fd w = Some w' \<and> srv_inv w'"
proof -
  obtain S where S: "srv_rel w S" "chat_inv S" using assms by (auto simp: srv_inv_def)
  then show ?thesis
    using ServerMng_OnDisconnect_step [OF S, of fd] chat_step_inv [OF _ S(2)] unfolding chat_disconnect_def srv_inv_def by blast
qed

lemma reachable_inv: "reachable sa w0 w \<Longrightarrow> no_globals w0 \<Longrightarrow> srv_inv w"
proof (induction rule: reachable.induct)
  case (started w)
  have "structs_ok sa" using init_refused [OF _ started(2), of sa] started(1) by fastforce
  then show ?case using started(1) by (elim init_started [of sa w0]) (auto simp: srv_inv_def)
next
  case (message w n b fd r w')
  then show ?case using message_inv [of w n b fd] by auto
next
  case (disconnect w fd w')
  then show ?case using disconnect_inv [of w fd] by auto
qed

interpretation srv: message_handler "Some ServerMng_HandleMessage" "Some ServerMng_OnDisconnect" srv_inv
proof
  show "reads_message (Some ServerMng_HandleMessage)" by (rule ServerMng_reads_message)
  show "\<exists>r w'. h fd (Some f) (length f) w = Some (r, w') \<and> srv_inv w'"
    if "Some ServerMng_HandleMessage = Some h" "srv_inv w" "2 \<le> length f" for h w f fd
    using message_inv [OF that(2) order_refl, of fd] that(1) by simp
  show "\<exists>w'. d fd w = Some w' \<and> srv_inv w'" if "Some ServerMng_OnDisconnect = Some d" "srv_inv w" for d fd w
    using disconnect_inv [OF that(2)] that(1) by auto
  show "srv_inv (w\<lparr>closed := cl\<rparr>)" if "srv_inv w" for w cl
    using that by (auto simp: srv_inv_def srv_rel_def)
qed

section \<open>Correctness of the management layer\<close>

text \<open>A server without allocation failures, for concrete instances.\<close>

definition sure_alloc :: srv_alloc where
  "sure_alloc = \<lparr>sa_queue = (\<lambda>_. True), sa_pairs = (\<lambda>_. True), sa_groups = all_groups_ok, sa_users = all_ok\<rparr>"

definition idle_server :: Server where
  "idle_server = \<lparr>sent = [], closed = [], os_send = (\<lambda>_ bs. int (length bs)), g_userMng = None, g_groupMng = None, g_mcQueue = None\<rparr>"

lemma idle_no_globals: "no_globals idle_server"
  by (simp add: no_globals_def idle_server_def)

lemma sure_started:
  obtains w js where "ServerMng_Init sure_alloc idle_server = Some (0, w)" "srv_rel w (start (map pool_pair js))"
    "chat_inv (start (map pool_pair js))" "srv_ok w" "sent w = []"
proof -
  have "structs_ok sure_alloc" "never_fails sure_alloc"
    by (simp_all add: structs_ok_def never_fails_def sure_alloc_def all_groups_ok_def all_ok_def)
  then show thesis using that by (elim init_started [of sure_alloc idle_server]) (auto simp: idle_server_def)
qed

text \<open>The message of a client that registers as \<open>bob\<close> with a one-byte password.\<close>

definition sample_register :: "byte list" where
  "sample_register = frame OP_REG_REQ (field sample_name @ field [49])"

lemma sample_register_parsed: "parse_request sample_register = Register sample_name [49]" "length sample_register = 8"
proof -
  have "parse_user_pass sample_register = Some (sample_name, [49])"
    unfolding sample_register_def by (rule parse_user_pass_frame) (simp_all add: sample_name_def bytes_of_def size_defs)
  moreover have "as_cstring sample_name = sample_name" by (simp add: sample_name_def bytes_of_def)
  moreover have "opcode_of (sample_register ! 0) = OP_REG_REQ"
    by (simp add: sample_register_def frame_def opcode_of_def opcodes_def)
  ultimately show "parse_request sample_register = Register sample_name [49]"
    by (simp add: parse_request_def) (simp add: sample_register_def)
  show "length sample_register = 8" by (simp add: sample_register_def sample_name_def bytes_of_def)
qed

text \<open>
  C2: Refinement. Every message the dispatcher is called with is handled, whatever bytes it consists of and whatever
  allocations fail: the handler returns, the new state represents the state of the specification after a step for the request
  the message encodes, exactly the reply of that step is sent, to the sender, and the invariant that ties the managers together is kept.
  A message of less than two bytes gives -1 and changes nothing.
\<close>

theorem message_refines_step:
  assumes "srv_rel w S" and "chat_inv S" and "n \<le> length b"
  shows "if n < 2 then ServerMng_HandleMessage fd (Some b) n w = Some (- 1, w)
    else \<exists>w' rep S'. ServerMng_HandleMessage fd (Some b) n w = Some (0, w') \<and>
      chat_step (srv_ok w) fd (parse_request (take n b)) S rep S' \<and> srv_rel w' S' \<and> chat_inv S' \<and>
      sent w' = sent w @ reply_log fd rep"
proof (cases "n < 2")
  case False
  then obtain w' where "ServerMng_HandleMessage fd (Some b) n w = Some (0, w')" "answers fd (parse_request (take n b)) w S w'"
    using ServerMng_HandleMessage_answers [OF assms(1,2) _ assms(3), of fd] by auto
  moreover from this(2) obtain rep S' where "chat_step (srv_ok w) fd (parse_request (take n b)) S rep S'" "srv_rel w' S'"
      "sent w' = sent w @ reply_log fd rep" by (auto simp: answers_def)
  moreover from this(1) have "chat_inv S'" by (rule chat_step_inv [OF _ assms(2)])
  ultimately show ?thesis using False by auto
qed (simp add: ServerMng_HandleMessage_short)

theorem message_refines_step_witness:
  "\<exists>w w'. ServerMng_Init sure_alloc idle_server = Some (0, w) \<and>
     ServerMng_HandleMessage 4 (Some sample_register) 8 w = Some (0, w') \<and> sent w' = [(4, [2, 1, 0])]"
proof -
  obtain w js where w: "ServerMng_Init sure_alloc idle_server = Some (0, w)" "srv_rel w (start (map pool_pair js))"
      "chat_inv (start (map pool_pair js))" "srv_ok w" "sent w = []" by (rule sure_started)
  obtain w' rep S' where s: "ServerMng_HandleMessage 4 (Some sample_register) 8 w = Some (0, w')"
      "chat_step True 4 (Register sample_name [49]) (start (map pool_pair js)) rep S'" "sent w' = reply_log 4 rep"
    using message_refines_step [OF w(2,3), of 8 sample_register 4] sample_register_parsed w(4,5) by auto
  from s(2) have "rep = status_reply OP_REG_REP ST_OK"
    by (cases rule: chat_step.cases) (auto simp: start_def)
  then show ?thesis using w(1) s(1,3) by (auto simp: reply_log_def frame_def)
qed

text \<open>
  Safety of every history. Whatever clients send, on whatever sockets, in whatever order, with whatever disconnects in between and
  whatever allocations fail: the next message is handled and the next disconnect is handled (no access outside a buffer, no use of a
  freed object, no endless loop), and the server can be destroyed with nothing left allocated.
\<close>

theorem server_history_safe:
  assumes "reachable sa w0 w" and "no_globals w0"
  shows "(n \<le> length b \<longrightarrow> (\<exists>r w'. ServerMng_HandleMessage fd (Some b) n w = Some (r, w'))) \<and>
    (\<exists>w'. ServerMng_OnDisconnect fd w = Some w') \<and>
    (\<exists>l. ServerMng_Destroy w = Some (w\<lparr>g_userMng := None, g_groupMng := None, g_mcQueue := None\<rparr>, l) \<and> all_freed l)"
proof -
  have "srv_inv w" by (rule reachable_inv [OF assms])
  then show ?thesis
    using message_inv [of w n b fd] disconnect_inv [of w fd] destroy_frees [of w] unfolding srv_inv_def by blast
qed

text \<open>
  C12: Consistency of the two managers. In every state a server can reach, each group has exactly as many members as its 64-bit counter
  says, at least one and at most \<open>FD_SETSIZE\<close>; every group of a user exists; users in groups are online; and no multicast
  address belongs to two groups or to a group and the pool.
\<close>

theorem server_consistent:
  assumes "reachable sa w0 w" and "no_globals w0"
  shows "\<exists>S. srv_rel w S \<and>
    (\<forall>g i. grps S g = Some i \<longrightarrow> i_count i = card (members (accts S) g) \<and> 0 < i_count i \<and> i_count i \<le> FD_SETSIZE) \<and>
    (\<forall>k x g. accts S k = Some x \<longrightarrow> g \<in> set (a_groups x) \<longrightarrow> grps S g \<noteq> None \<and> a_fd x \<noteq> - 1) \<and>
    (\<forall>g h i j. grps S g = Some i \<longrightarrow> grps S h = Some j \<longrightarrow> i_pair i = i_pair j \<longrightarrow> g = h) \<and>
    (\<forall>g i. grps S g = Some i \<longrightarrow> i_pair i \<notin> set (avail S))"
proof -
  obtain S where S: "srv_rel w S" "chat_inv S" using reachable_inv [OF assms] by (auto simp: srv_inv_def)
  obtain um where um: "um_rel um (accts S)" by (rule srv_relE [OF S(1)])
  have "accounts_ok (accts S)" "pool_inv (grps S) (avail S)" using S(2) by (auto simp: chat_inv_def)
  moreover have "i_count i = card (members (accts S) g) \<and> 0 < i_count i \<and> i_count i \<le> FD_SETSIZE" if "grps S g = Some i" for g i
    using chat_inv_count [OF S(2) that] um.members_bound [OF um, of g] calculation(1) by simp
  moreover have "grps S g \<noteq> None \<and> a_fd x \<noteq> - 1" if "accts S k = Some x" "g \<in> set (a_groups x)" for k x g
    using chat_inv_accounts(2) [OF S(2) that(1)] that(2) by (auto intro: chat_inv_groups [OF S(2) that])
  ultimately show ?thesis using S(1) unfolding pool_inv_def by (intro exI [of _ S] conjI) blast+
qed

theorem server_consistent_witness:
  "\<exists>w S. ServerMng_Init sure_alloc idle_server = Some (0, w) \<and> srv_rel w S"
proof -
  obtain w where w: "ServerMng_Init sure_alloc idle_server = Some (0, w)" by (rule sure_started)
  then have "reachable sure_alloc idle_server w" by (rule reachable.started)
  then show ?thesis using server_consistent [OF _ idle_no_globals] w by blast
qed

fun reply_opcode :: "Request \<Rightarrow> ChatOpcode option" where
  "reply_opcode (Register u p) = Some OP_REG_REP"
| "reply_opcode (Login u p) = Some OP_LOGIN_REP"
| "reply_opcode Logout = Some OP_LOGOUT_REP"
| "reply_opcode (CreateGroup g) = Some OP_CREATE_GROUP_REP"
| "reply_opcode (JoinGroup g) = Some OP_JOIN_GROUP_REP"
| "reply_opcode (LeaveGroup g) = Some OP_LEAVE_GROUP_REP"
| "reply_opcode Ignored = None"

lemma chat_step_reply:
  "chat_step b fd rq S rep S' \<Longrightarrow> (case reply_opcode rq of None \<Rightarrow> rep = None | Some op \<Rightarrow> \<exists>st p. rep = Some (op, st, p))"
  by (induction rule: chat_step.induct) auto





text \<open>
  Starting the server. \<open>ServerMng_Init\<close> returns 0 exactly when the fixed structures can be allocated; then there are no users
  and no groups, and the pool holds distinct addresses, all 255 of them when no allocation fails. Otherwise it returns -1, all three
  globals are NULL and what was allocated has been freed.
\<close>

theorem server_init:
  assumes "no_globals w"
  shows "if structs_ok sa
    then \<exists>w' js. ServerMng_Init sa w = Some (0, w') \<and> srv_rel w' (start (map pool_pair js)) \<and> chat_inv (start (map pool_pair js)) \<and>
      (if never_fails sa then js = [1..<256] else subseq js [1..<256])
    else ServerMng_Init sa w = Some (- 1, w)"
proof (cases "structs_ok sa")
  case True
  obtain w' js where "ServerMng_Init sa w = Some (0, w')" "subseq js [1..<256]" "srv_rel w' (start (map pool_pair js))"
      "chat_inv (start (map pool_pair js))" "never_fails sa \<longrightarrow> js = [1..<256]"
    by (rule init_started [OF True, of w])
  then show ?thesis using True by (intro if_P [THEN iffD2] exI [of _ w'] exI [of _ js]) auto
qed (simp add: init_refused [OF _ assms])

end
