(* ===== verification/Server_Main.thy ===== *)
theory Server_Main
  imports Server_Mng Server_Net
begin

text \<open>
  The main program of the server, \<^verbatim>\<open>server/server_main.c\<close>: the management layer and the networking layer together.

  The signal handler clears \<open>g_keepRunning\<close>; here the list of rounds ends at the round that reads the cleared flag. Results are the exit code,
  the final state and what \<open>ServerMng_Destroy\<close> left allocated.
\<close>

definition EXIT_SUCCESS :: int where "EXIT_SUCCESS = 0"
definition EXIT_FAILURE :: int where "EXIT_FAILURE = 1"

text \<open>The flag, with the handler of SIGINT.\<close>

definition SigIntHandler :: "int \<Rightarrow> int \<Rightarrow> int" where
  "SigIntHandler sig g_keepRunning = 0"

text \<open>
  The rounds the loop runs, when the signal arrives at the given position: the flag is 1 before and 0 after.
\<close>

fun rounds_until :: "(round \<times> bool) list \<Rightarrow> int \<Rightarrow> round list" where
  "rounds_until [] flag = []"
| "rounds_until ((r, sig) # rs) flag =
     (if flag = 0 then [] else r # rounds_until rs (if sig then SigIntHandler 2 flag else flag))"

definition main :: "srv_alloc \<Rightarrow> bool \<Rightarrow> byte list \<Rightarrow> ListenOs \<Rightarrow> (round \<times> bool) list \<Rightarrow> Server \<Rightarrow> (int \<times> Server \<times> left_over) option" where
  "main sa ok bufs os evs w = do {
     (r, w) \<leftarrow> ServerMng_Init sa w;
     if 0 \<noteq> r then Some (EXIT_FAILURE, w, None, None, None)
     else do {
       (net, w) \<leftarrow> ServerNet_Create ok bufs os CHAT_TCP_PORT (Some ServerMng_HandleMessage) (Some ServerMng_OnDisconnect) w;
       if net = None
       then do { (w, l) \<leftarrow> ServerMng_Destroy w; Some (EXIT_FAILURE, w, l) }
       else do {
         (exit_code, net, w) \<leftarrow> ServerNet_Run net (Some (rounds_until evs 1)) w;
         (w, l) \<leftarrow> ServerMng_Destroy w;
         let (_, w) = ServerNet_Destroy (Some net) w;
         (w, _) \<leftarrow> ServerMng_Destroy w;
         Some (EXIT_SUCCESS, w, l)
       }}}"

lemma rounds_until_set: "r \<in> set (rounds_until evs flag) \<Longrightarrow> \<exists>sig. (r, sig) \<in> set evs"
  by (induction evs flag rule: rounds_until.induct) (auto split: if_splits)

lemma destroy_server_net:
  assumes "no_globals w"
  shows "no_globals (snd (ServerNet_Destroy (Some (Some net)) w))"
  using assms by (simp add: ServerNet_Destroy_def fold_close close_fd_def no_globals_def)

lemma no_globals_after: "no_globals (w\<lparr>g_userMng := None, g_groupMng := None, g_mcQueue := None\<rparr>)"
  by (simp add: no_globals_def)

text \<open>Everything after a successful start.\<close>

lemma main_serves:
  assumes init: "ServerMng_Init sa w0 = Some (0, w)" and inv: "srv_inv w"
    and net: "net_inv n" "onMsg n = Some ServerMng_HandleMessage" "onDisc n = Some ServerMng_OnDisconnect"
    and create: "ServerNet_Create ok bufs os CHAT_TCP_PORT (Some ServerMng_HandleMessage) (Some ServerMng_OnDisconnect) w = Some (Some n, w)"
    and evs: "\<forall>(r, sig) \<in> set evs. round_ok r"
  shows "\<exists>w' l. main sa ok bufs os evs w0 = Some (EXIT_SUCCESS, w', l) \<and> no_globals w' \<and> all_freed l"
proof -
  have "srv.serving n w" using net inv by (simp add: srv.serving_def)
  moreover have "\<forall>r \<in> set (rounds_until evs 1). round_ok r" using evs rounds_until_set by fastforce
  ultimately obtain v n' w1 where run: "select_loop (rounds_until evs 1) n w = Some (v, n', w1)" "srv_inv w1"
    using srv.select_loop_ok by (metis srv.serving_def)
  obtain l where d: "ServerMng_Destroy w1 = Some (w1\<lparr>g_userMng := None, g_groupMng := None, g_mcQueue := None\<rparr>, l)" "all_freed l"
    using run(2) destroy_frees unfolding srv_inv_def by blast
  obtain p w3 where w3: "ServerNet_Destroy (Some (Some n')) (w1\<lparr>g_userMng := None, g_groupMng := None, g_mcQueue := None\<rparr>) = (p, w3)"
    by fastforce
  then have "no_globals w3" using destroy_server_net [OF no_globals_after, of n' w1] by simp
  then show ?thesis
    using init create run(1) d w3 destroy_again [of w3] by (simp add: main_def ServerNet_Run_def)
qed


text \<open>A round in which a client connects, for concrete instances.\<close>

definition sample_round :: round where
  "sample_round = \<lparr>os_select = (\<lambda>_ _. Select_Ready (FD_ZERO[3 := True])), os_accept = (\<lambda>fds. if 4 \<in> set fds then - 1 else 4),
     os_recv = (\<lambda>_ _. None)\<rparr>"

lemma sample_round_ok: "round_ok sample_round"
  by (auto simp: round_ok_def sample_round_def recv_ok_def accept_ok_def fd_ok_def FD_ZERO_def FD_SETSIZE_def)


text \<open>
  C13: The connections. Running the loop with the handlers of the management layer keeps the invariants of both layers: live connections have
  different descriptors below \<open>FD_SETSIZE\<close>, the master set holds exactly these and the listening one, and no buffer ever holds a
  whole message of the longest kind when the loop waits, so there is always room for two more messages and the branch for a full buffer is
  never taken.
\<close>

theorem run_keeps_connections:
  assumes "net_inv n" and "onMsg n = Some ServerMng_HandleMessage" and "onDisc n = Some ServerMng_OnDisconnect" and "srv_inv w"
    and "\<forall>r \<in> set rs. round_ok r"
  shows "\<exists>v n' w'. ServerNet_Run (Some n) (Some rs) w = Some (v, Some n', w') \<and> net_inv n' \<and> srv_inv w' \<and> (v = 0 \<or> v = - 1) \<and>
    (\<forall>i < MAX_CLIENTS. 2 * CHAT_MAX_MSG_SIZE \<le> (RECV_BUFFER_SIZE + 2 ^ 64 - c_len (clients n' ! i)) mod 2 ^ 64)"
proof -
  have sv: "srv.serving n w" using assms by (simp add: srv.serving_def)
  obtain v n' w' where r: "select_loop rs n w = Some (v, n', w')" "net_inv n'" "srv_inv w'" "v = 0 \<or> v = - 1"
    using srv.select_loop_ok [OF sv assms(5)] by (auto simp: srv.serving_def)
  have "2 * CHAT_MAX_MSG_SIZE \<le> (RECV_BUFFER_SIZE + 2 ^ 64 - c_len (clients n' ! i)) mod 2 ^ 64" if "i < MAX_CLIENTS" for i
  proof -
    have "client_ok (clients n' ! i)" using r(2) that by (simp add: net_inv_def conns_ok_def)
    then show ?thesis using client_ok_space by simp
  qed
  then show ?thesis using r by (simp add: ServerNet_Run_def)
qed

theorem run_keeps_connections_witness:
  "\<exists>w n v n' w'. ServerMng_Init sure_alloc idle_server = Some (0, w) \<and>
     ServerNet_Create True (replicate RECV_BUFFER_SIZE 0) sample_os CHAT_TCP_PORT (Some ServerMng_HandleMessage) (Some ServerMng_OnDisconnect) w =
       Some (Some n, w) \<and> ServerNet_Run (Some n) (Some [sample_round]) w = Some (v, Some n', w') \<and> net_inv n'"
proof -
  obtain w js where w: "ServerMng_Init sure_alloc idle_server = Some (0, w)" "srv_rel w (start (map pool_pair js))"
      "chat_inv (start (map pool_pair js))" by (rule sure_started)
  let ?n = "new_net (replicate RECV_BUFFER_SIZE 0) 3 (Some ServerMng_HandleMessage) (Some ServerMng_OnDisconnect)"
  have fd: "fd_ok 3" by (simp add: fd_ok_def FD_SETSIZE_def)
  then have n: "net_inv ?n" by (intro new_net_inv) simp_all
  have "ServerNet_Create True (replicate RECV_BUFFER_SIZE 0) sample_os CHAT_TCP_PORT (Some ServerMng_HandleMessage)
      (Some ServerMng_OnDisconnect) w = Some (Some ?n, w)"
    using ServerNet_Create_eq [of sample_os True "replicate RECV_BUFFER_SIZE 0" CHAT_TCP_PORT "Some ServerMng_HandleMessage"
        "Some ServerMng_OnDisconnect" w] fd by (simp add: sample_os_def listen_ok_def)
  moreover have "srv_inv w" using w(2,3) by (auto simp: srv_inv_def)
  ultimately show ?thesis
    using run_keeps_connections [OF n, of w "[sample_round]"] sample_round_ok w(1) by (auto simp: new_net_def)
qed

end
