(* ===== verification/Client_Net.thy ===== *)
theory Client_Net
  imports Protocol
begin

text \<open>
  The TCP transport of the client, \<^verbatim>\<open>client/client_net.h\<close> and \<^verbatim>\<open>client/client_net.c\<close>.

  The operating system is a parameter: a record of system calls, each a function on a state \<open>'e\<close> of the world outside the
  process. \<open>recv\<close> gives the bytes it stores, \<open>None\<close> when it returns -1. The loops over \<open>send\<close> and \<open>recv\<close> are partial functions.

  The lemmas first hold for every world: the loops end and stay inside the buffer. The locale \<open>byte_stream\<close> then describes a
  connection that delivers bytes in order, in fragments of any size, to a peer that answers; in it a request is sent as a whole and one
  message is read, however the bytes are cut.
\<close>

section \<open>System calls\<close>

record 'e Net =
  sys_socket :: "'e \<Rightarrow> int \<times> 'e"
  sys_inet_pton :: "cstring \<Rightarrow> int"
  sys_connect :: "int \<Rightarrow> cstring \<Rightarrow> u16 \<Rightarrow> 'e \<Rightarrow> int \<times> 'e"
  sys_send :: "int \<Rightarrow> byte list \<Rightarrow> 'e \<Rightarrow> int \<times> 'e"
  sys_recv :: "int \<Rightarrow> nat \<Rightarrow> 'e \<Rightarrow> byte list option \<times> 'e"
  sys_close :: "int \<Rightarrow> 'e \<Rightarrow> 'e"

section \<open>Operations\<close>

definition client_net_connect :: "('e, 'z) Net_scheme \<Rightarrow> cstring option \<Rightarrow> u16 \<Rightarrow> 'e \<Rightarrow> int \<times> 'e" where
  "client_net_connect net ip port e =
     (if ip = None then (- 1, e)
      else let (fd, e) = sys_socket net e
      in if fd < 0 then (- 1, e)
      else if sys_inet_pton net (the ip) \<noteq> 1 then (- 1, sys_close net fd e)
      else let (r, e) = sys_connect net fd (the ip) port e
      in if r < 0 then (- 1, sys_close net fd e)
      else (fd, e))"

partial_function (option) send_loop ::
  "('e, 'z) Net_scheme \<Rightarrow> int \<Rightarrow> byte list \<Rightarrow> nat \<Rightarrow> nat \<Rightarrow> 'e \<Rightarrow> (int \<times> 'e) option"
where
  "send_loop net fd buf len sent e =
     (if sent < len
      then if length buf < len then None
      else let (n, e) = sys_send net fd (take (len - sent) (drop sent buf)) e
      in if n < 0 then Some (- 1, e)
      else if n = 0 then Some (- 1, e)
      else send_loop net fd buf len (sent + nat n) e
      else Some (0, e))"

definition client_net_send_all ::
  "('e, 'z) Net_scheme \<Rightarrow> int \<Rightarrow> byte list option \<Rightarrow> nat \<Rightarrow> 'e \<Rightarrow> (int \<times> 'e) option"
where
  "client_net_send_all net fd buf len e =
     (if fd < 0 \<or> buf = None then Some (- 1, e) else send_loop net fd (the buf) len 0 e)"

text \<open>\<open>recv_loop\<close> is the loop of \<open>recv_exact\<close>, which writes from the index \<open>off\<close> on.\<close>

partial_function (option) recv_loop ::
  "('e, 'z) Net_scheme \<Rightarrow> int \<Rightarrow> byte list \<Rightarrow> nat \<Rightarrow> nat \<Rightarrow> nat \<Rightarrow> 'e \<Rightarrow> (int \<times> byte list \<times> 'e) option"
where
  "recv_loop net fd buf off need got e =
     (if got < need
      then let (r, e) = sys_recv net fd (need - got) e
      in case r of
           None \<Rightarrow> Some (- 1, buf, e)
         | Some bs \<Rightarrow>
             if bs = [] then Some (- 1, buf, e)
             else do {
               buf \<leftarrow> memcpy buf (off + got) bs 0 (length bs);
               recv_loop net fd buf off need (got + length bs) e
             }
      else Some (0, buf, e))"

definition recv_exact ::
  "('e, 'z) Net_scheme \<Rightarrow> int \<Rightarrow> byte list \<Rightarrow> nat \<Rightarrow> nat \<Rightarrow> 'e \<Rightarrow> (int \<times> byte list \<times> 'e) option"
where
  "recv_exact net fd buf off need e = recv_loop net fd buf off need 0 e"

definition client_net_recv_msg ::
  "('e, 'z) Net_scheme \<Rightarrow> int \<Rightarrow> byte list option \<Rightarrow> nat option \<Rightarrow> 'e \<Rightarrow> (int \<times> byte list option \<times> nat option \<times> 'e) option"
where
  "client_net_recv_msg net fd buf out_len e =
     (if fd < 0 \<or> buf = None \<or> out_len = None then Some (- 1, buf, out_len, e)
      else do {
        (r, b, e) \<leftarrow> recv_exact net fd (the buf) 0 2 e;
        if r \<noteq> 0 then Some (- 1, Some b, out_len, e)
        else do {
          (r, _, len) \<leftarrow> chat_peek_header (Some b) 2 (Some 0) (Some 0);
          if r \<noteq> 0 then Some (- 1, Some b, out_len, e)
          else do {
            (r, b, e) \<leftarrow> (if the len > 0 then recv_exact net fd b 2 (unat (the len)) e else Some (0, b, e));
            if r \<noteq> 0 then Some (- 1, Some b, out_len, e)
            else Some (0, Some b, Some (2 + unat (the len)), e)
          }}})"

definition client_net_close :: "('e, 'z) Net_scheme \<Rightarrow> int \<Rightarrow> 'e \<Rightarrow> 'e" where
  "client_net_close net fd e = (if fd \<ge> 0 then sys_close net fd e else e)"

section \<open>Every world\<close>

text \<open>The documented behaviour of \<open>recv\<close>: it stores at most as many bytes as asked for.\<close>

definition recv_bounded :: "('e, 'z) Net_scheme \<Rightarrow> bool" where
  "recv_bounded net \<longleftrightarrow> (\<forall>fd n e bs e'. sys_recv net fd n e = (Some bs, e') \<longrightarrow> length bs \<le> n)"

lemma send_loop_total:
  "len \<le> length buf \<Longrightarrow> \<exists>r e'. send_loop net fd buf len sent e = Some (r, e') \<and> r \<in> {0, - 1}"
proof (induction "len - sent" arbitrary: sent e rule: less_induct)
  case less
  show ?case
  proof (cases "sent < len")
    case True
    obtain n e1 where s: "sys_send net fd (take (len - sent) (drop sent buf)) e = (n, e1)" by fastforce
    show ?thesis
    proof (cases "n > 0")
      case True
      then have "len - (sent + nat n) < len - sent" using \<open>sent < len\<close> by simp
      then show ?thesis
        using less \<open>sent < len\<close> True s by (subst send_loop.simps) simp
    qed (use s less.prems True in \<open>auto simp: send_loop.simps [of net fd buf len sent e]\<close>)
  qed (simp add: send_loop.simps)
qed

lemma recv_loop_total:
  assumes net: "recv_bounded net"
  shows "off + need \<le> length buf \<Longrightarrow>
    \<exists>r buf' e'. recv_loop net fd buf off need got e = Some (r, buf', e') \<and> r \<in> {0, - 1} \<and> length buf' = length buf \<and>
      take off buf' = take off buf \<and> drop (off + need) buf' = drop (off + need) buf"
proof (induction "need - got" arbitrary: got buf e rule: less_induct)
  case less
  show ?case
  proof (cases "got < need")
    case True
    obtain r e1 where s: "sys_recv net fd (need - got) e = (r, e1)" by fastforce
    show ?thesis
    proof (cases "r = None \<or> r = Some []")
      case False
      then obtain bs where bs: "r = Some bs" "bs \<noteq> []" by auto
      have len: "length bs \<le> need - got" using net s bs(1) unfolding recv_bounded_def by blast
      let ?b = "take (off + got) buf @ bs @ drop (off + got + length bs) buf"
      have cp: "memcpy buf (off + got) bs 0 (length bs) = Some ?b"
        using len True less.prems by (simp add: memcpy_def)
      have b: "length ?b = length buf" using length_memcpy [OF cp] .
      have keep: "take off ?b = take off buf" "drop (off + need) ?b = drop (off + need) buf"
        using len True less.prems by (simp_all add: min_def add.commute)
      have "recv_loop net fd buf off need got e = recv_loop net fd ?b off need (got + length bs) e1"
        using s bs True cp by (subst recv_loop.simps) simp
      moreover have "need - (got + length bs) < need - got" using bs(2) True by (cases bs) auto
      ultimately show ?thesis using less.hyps [of "got + length bs" ?b e1] less.prems b keep by simp
    qed (use s True in \<open>auto simp: recv_loop.simps [of net fd buf off need got e]\<close>)
  qed (simp add: recv_loop.simps)
qed

lemma client_transport:
  assumes "recv_bounded net" "CHAT_MAX_MSG_SIZE \<le> length buf" "len \<le> length buf"
  shows "\<exists>r e'. client_net_send_all net fd (Some buf) len e = Some (r, e') \<and> r \<in> {0, - 1}"
    and "\<exists>r buf' n e'. client_net_recv_msg net fd (Some buf) (Some n0) e = Some (r, Some buf', Some n, e') \<and> length buf' = length buf \<and>
      (r = - 1 \<and> n = n0 \<or> r = 0 \<and> n = 2 + unat (buf' ! 1) \<and> n \<le> CHAT_MAX_MSG_SIZE \<and> drop n buf' = drop n buf)"
proof -
  show "\<exists>r e'. client_net_send_all net fd (Some buf) len e = Some (r, e') \<and> r \<in> {0, - 1}"
    using send_loop_total [OF assms(3), of net fd 0 e] by (simp add: client_net_send_all_def)
next
  have L: "0 + 2 \<le> length buf" using assms(2) by (simp add: size_defs)
  obtain r b e1 where h: "recv_exact net fd buf 0 2 e = Some (r, b, e1)" "r \<in> {0, - 1}" "length b = length buf" "drop 2 b = drop 2 buf"
    using recv_loop_total [OF assms(1) L, of fd 0 e] unfolding recv_exact_def add_0 by blast
  have pk: "chat_peek_header (Some b) 2 (Some 0) (Some 0) = Some (0, Some (b ! 0), Some (b ! 1))"
    using h(3) L by (auto simp: chat_peek_header_def rd_def)
  let ?l = "unat (b ! 1)"
  have "2 + ?l \<le> length b" using h(3) assms(2) unat_byte_le [of "b ! 1"] unfolding size_defs by linarith
  then obtain r' b' e2 where p: "recv_exact net fd b 2 ?l e1 = Some (r', b', e2)" "r' \<in> {0, - 1}" "length b' = length b"
      "take 2 b' = take 2 b" "drop (2 + ?l) b' = drop (2 + ?l) b"
    using recv_loop_total [OF assms(1), of 2 ?l b fd 0 e1] by (auto simp: recv_exact_def)
  have b1: "b' ! 1 = b ! 1" using arg_cong [OF p(4), of "\<lambda>x. x ! 1"] by simp
  have d: "drop (2 + ?l) b = drop (2 + ?l) buf" using arg_cong [OF h(4), of "drop ?l"] by simp
  have n: "2 + ?l \<le> CHAT_MAX_MSG_SIZE" using unat_byte_le [of "b ! 1"] by (simp add: size_defs)
  have z: "0 < b ! 1 \<longleftrightarrow> ?l \<noteq> 0" by (simp add: word_neq_0_conv [symmetric] unat_eq_0 del: One_nat_def)
  show "\<exists>r buf' n e'. client_net_recv_msg net fd (Some buf) (Some n0) e = Some (r, Some buf', Some n, e') \<and> length buf' = length buf \<and>
      (r = - 1 \<and> n = n0 \<or> r = 0 \<and> n = 2 + unat (buf' ! 1) \<and> n \<le> CHAT_MAX_MSG_SIZE \<and> drop n buf' = drop n buf)"
    using h p pk b1 d n z by (auto simp: client_net_recv_msg_def)
qed

text \<open>
  C24: for every behaviour of the network the exchange of a message returns. \<open>client_net_send_all\<close> stops with 0 or -1, and
  \<open>client_net_recv_msg\<close>, with a buffer of \<open>CHAT_MAX_MSG_SIZE\<close> bytes, never writes outside it; when it returns 0 the length it reports is
  the one of the message header, and the buffer from that length on is unchanged.
\<close>

theorem client_transport_safe:
  assumes "recv_bounded net" "CHAT_MAX_MSG_SIZE \<le> length buf" "len \<le> length buf"
  shows "(\<exists>r e'. client_net_send_all net fd (Some buf) len e = Some (r, e') \<and> r \<in> {0, - 1}) \<and>
    (\<exists>r buf' n e'. client_net_recv_msg net fd (Some buf) (Some n0) e = Some (r, Some buf', Some n, e') \<and> length buf' = length buf \<and>
      (r = - 1 \<and> n = n0 \<or> r = 0 \<and> n = 2 + unat (buf' ! 1) \<and> n \<le> CHAT_MAX_MSG_SIZE \<and> drop n buf' = drop n buf))"
  using client_transport [OF assms] by blast

text \<open>A property of the world that \<open>send\<close> and \<open>recv\<close> do not change is kept by the exchange of messages.\<close>

definition wire_inv :: "('e, 'z) Net_scheme \<Rightarrow> ('e \<Rightarrow> bool) \<Rightarrow> bool" where
  "wire_inv net P \<longleftrightarrow> (\<forall>e. P e \<longrightarrow> (\<forall>fd bs. P (snd (sys_send net fd bs e))) \<and> (\<forall>fd n. P (snd (sys_recv net fd n e))))"

lemma wire_invD:
  assumes "wire_inv net P" "P e"
  shows "sys_send net fd bs e = (r, e') \<Longrightarrow> P e'" "sys_recv net fd n e = (r', e') \<Longrightarrow> P e'"
  using assms unfolding wire_inv_def by (metis snd_conv)+

lemma send_loop_inv: "send_loop net fd buf len sent e = Some y \<Longrightarrow> wire_inv net P \<longrightarrow> P e \<longrightarrow> P (snd y)"
proof (rule send_loop.raw_induct [where P = "\<lambda>net fd buf len sent e y. wire_inv net P \<longrightarrow> P e \<longrightarrow> P (snd y)"])
  fix sl net fd buf len sent e y
  assume IH: "\<And>net fd buf len sent e y. sl net fd buf len sent e = Some y \<Longrightarrow> wire_inv net P \<longrightarrow> P e \<longrightarrow> P (snd y)"
    and y: "(if sent < len
      then if length buf < len then None
      else let (n, e) = sys_send net fd (take (len - sent) (drop sent buf)) e
      in if n < 0 then Some (- 1, e) else if n = 0 then Some (- 1, e) else sl net fd buf len (sent + nat n) e
      else Some (0, e)) = Some y"
  show "wire_inv net P \<longrightarrow> P e \<longrightarrow> P (snd y)"
    using y by (auto split: if_splits prod.splits dest: IH wire_invD(1))
qed

lemma recv_loop_inv: "recv_loop net fd buf off need got e = Some y \<Longrightarrow> wire_inv net P \<longrightarrow> P e \<longrightarrow> P (snd (snd y))"
proof (rule recv_loop.raw_induct [where P = "\<lambda>net fd buf off need got e y. wire_inv net P \<longrightarrow> P e \<longrightarrow> P (snd (snd y))"])
  fix rl net fd buf off need got e y
  assume IH: "\<And>net fd buf off need got e y. rl net fd buf off need got e = Some y \<Longrightarrow> wire_inv net P \<longrightarrow> P e \<longrightarrow> P (snd (snd y))"
    and y: "(if got < need
      then let (r, e) = sys_recv net fd (need - got) e
      in case r of
           None \<Rightarrow> Some (- 1, buf, e)
         | Some bs \<Rightarrow> if bs = [] then Some (- 1, buf, e)
             else do { buf \<leftarrow> memcpy buf (off + got) bs 0 (length bs); rl net fd buf off need (got + length bs) e }
      else Some (0, buf, e)) = Some y"
  show "wire_inv net P \<longrightarrow> P e \<longrightarrow> P (snd (snd y))"
    using y by (auto split: if_splits prod.splits option.splits bind_splits dest!: IH dest: wire_invD(2))
qed

lemma transport_inv:
  assumes "wire_inv net P" "P e"
  shows "client_net_send_all net fd buf len e = Some (r, e') \<Longrightarrow> P e'"
    and "client_net_recv_msg net fd buf n e = Some (r', b', n', e') \<Longrightarrow> P e'"
proof -
  show "client_net_send_all net fd buf len e = Some (r, e') \<Longrightarrow> P e'"
    using send_loop_inv [of net fd _ len 0 e _ P] assms by (auto simp: client_net_send_all_def split: if_splits)
next
  have ex: "P e'" if "recv_exact net fd b off k e = Some (r, b', e')" "P e" for b off k e r b' e'
    using recv_loop_inv [of net fd b off k 0 e _ P] assms(1) that by (auto simp: recv_exact_def)
  show "client_net_recv_msg net fd buf n e = Some (r', b', n', e') \<Longrightarrow> P e'"
    using assms(2) by (auto simp: client_net_recv_msg_def split: if_splits bind_splits prod.splits dest!: ex)
qed

section \<open>A connection that delivers\<close>

text \<open>
  The contract of a connection while it is up. The bytes given to \<open>send\<close> reach the peer in order, and the peer reacts to them: \<open>talk p bs r p'\<close>
  says that in state \<open>p\<close> it may react to the bytes \<open>bs\<close> by the bytes \<open>r\<close> and be in state \<open>p'\<close>. \<open>send\<close> takes some of the bytes, at least one;
  \<open>recv\<close> gives some of the bytes that are on the way, at least one, if there are any.
\<close>

locale byte_stream =
  fixes net :: "('e, 'z) Net_scheme"
    and fd :: int
    and live :: "'e \<Rightarrow> bool"
    and incoming :: "'e \<Rightarrow> byte list"
    and peer :: "'e \<Rightarrow> 'p"
    and talk :: "'p \<Rightarrow> byte list \<Rightarrow> byte list \<Rightarrow> 'p \<Rightarrow> bool"
  assumes fd_law: "live e \<Longrightarrow> 0 \<le> fd"
    and talk_Nil: "live e \<Longrightarrow> talk (peer e) [] [] (peer e)"
    and talk_append: "talk p a r p' \<Longrightarrow> talk p' b r' p'' \<Longrightarrow> talk p (a @ b) (r @ r') p''"
    and send_law: "live e \<Longrightarrow> bs \<noteq> [] \<Longrightarrow> \<exists>k r e'. 0 < k \<and> k \<le> length bs \<and> sys_send net fd bs e = (int k, e') \<and> live e' \<and>
      talk (peer e) (take k bs) r (peer e') \<and> incoming e' = incoming e @ r"
    and recv_law: "live e \<Longrightarrow> incoming e \<noteq> [] \<Longrightarrow> 0 < n \<Longrightarrow> \<exists>k e'. 0 < k \<and> k \<le> n \<and> k \<le> length (incoming e) \<and>
      sys_recv net fd n e = (Some (take k (incoming e)), e') \<and> live e' \<and> incoming e' = drop k (incoming e) \<and> peer e' = peer e"
begin

lemma send_rest:
  "live e \<Longrightarrow> len \<le> length buf \<Longrightarrow> sent \<le> len \<Longrightarrow> \<exists>r e'. send_loop net fd buf len sent e = Some (0, e') \<and> live e' \<and>
    talk (peer e) (take (len - sent) (drop sent buf)) r (peer e') \<and> incoming e' = incoming e @ r"
proof (induction "len - sent" arbitrary: sent e rule: less_induct)
  case less
  let ?bs = "take (len - sent) (drop sent buf)"
  show ?case
  proof (cases "sent < len")
    case True
    then have ne: "?bs \<noteq> []" "length ?bs = len - sent" using less.prems(2) by auto
    obtain k r e1 where s: "0 < k" "k \<le> length ?bs" "sys_send net fd ?bs e = (int k, e1)" "live e1"
        "talk (peer e) (take k ?bs) r (peer e1)" "incoming e1 = incoming e @ r"
      using send_law [OF less.prems(1) ne(1)] by blast
    have "len - (sent + k) < len - sent" "sent + k \<le> len" using s(1,2) True unfolding ne(2) by linarith+
    then obtain r' e2 where IH: "send_loop net fd buf len (sent + k) e1 = Some (0, e2)" "live e2"
        "talk (peer e1) (take (len - (sent + k)) (drop (sent + k) buf)) r' (peer e2)" "incoming e2 = incoming e1 @ r'"
      using less.hyps [of "sent + k" e1] less.prems(2) s(4) by blast
    have sp: "take k ?bs @ take (len - (sent + k)) (drop (sent + k) buf) = ?bs"
    proof -
      have "?bs = take k ?bs @ drop k ?bs" by (rule append_take_drop_id [symmetric])
      also have "drop k ?bs = take (len - (sent + k)) (drop (sent + k) buf)"
        by (simp add: drop_take add.commute)
      finally show ?thesis by (rule sym)
    qed
    have "send_loop net fd buf len sent e = Some (0, e2)"
      using s(1,3) True less.prems(2) IH(1) by (subst send_loop.simps) simp
    moreover have "talk (peer e) ?bs (r @ r') (peer e2)" using talk_append [OF s(5) IH(3)] unfolding sp .
    ultimately show ?thesis using s(6) IH by auto
  next
    case False
    then have "sent = len" using less.prems(3) by simp
    then show ?thesis using less.prems talk_Nil [of e] by (intro exI [of _ "[]"] exI [of _ e]) (simp add: send_loop.simps)
  qed
qed

lemma send_all:
  assumes "live e" "len \<le> length buf"
  shows "\<exists>r e'. client_net_send_all net fd (Some buf) len e = Some (0, e') \<and> live e' \<and>
    talk (peer e) (take len buf) r (peer e') \<and> incoming e' = incoming e @ r"
  using send_rest [OF assms, of 0] fd_law [OF assms(1)] by (simp add: client_net_send_all_def)

lemma recv_rest:
  "live e \<Longrightarrow> off + need \<le> length buf \<Longrightarrow> got \<le> need \<Longrightarrow> need - got \<le> length (incoming e) \<Longrightarrow>
   \<exists>e'. recv_loop net fd buf off need got e =
       Some (0, take (off + got) buf @ take (need - got) (incoming e) @ drop (off + need) buf, e') \<and>
     live e' \<and> incoming e' = drop (need - got) (incoming e) \<and> peer e' = peer e"
proof (induction "need - got" arbitrary: got buf e rule: less_induct)
  case less
  show ?case
  proof (cases "got < need")
    case True
    then have "incoming e \<noteq> []" "0 < need - got" using less.prems(4) by auto
    then obtain k e1 where k: "0 < k" "k \<le> need - got" "k \<le> length (incoming e)"
        "sys_recv net fd (need - got) e = (Some (take k (incoming e)), e1)" "live e1" "incoming e1 = drop k (incoming e)" "peer e1 = peer e"
      using recv_law [OF less.prems(1), of "need - got"] by blast
    let ?bs = "take k (incoming e)"
    have bs: "length ?bs = k" "?bs \<noteq> []" using k(1,3) by auto
    let ?b = "take (off + got) buf @ ?bs @ drop (off + got + k) buf"
    have cp: "memcpy buf (off + got) ?bs 0 (length ?bs) = Some ?b"
      using k(2) bs less.prems(2) True by (simp add: memcpy_def)
    have "length ?b = length buf" using length_memcpy [OF cp] .
    moreover have "need - (got + k) < need - got" "got + k \<le> need" "need - (got + k) \<le> length (incoming e1)"
      using k(1-3,6) True less.prems(4) by simp_all
    ultimately obtain e2 where IH: "recv_loop net fd ?b off need (got + k) e1 =
        Some (0, take (off + (got + k)) ?b @ take (need - (got + k)) (incoming e1) @ drop (off + need) ?b, e2)"
        "live e2" "incoming e2 = drop (need - (got + k)) (incoming e1)" "peer e2 = peer e1"
      using less.hyps [of "got + k" e1 ?b] k(5) less.prems(2) by auto
    have step: "recv_loop net fd buf off need got e = recv_loop net fd ?b off need (got + k) e1"
      using k(4) bs True cp by (subst recv_loop.simps) simp
    have t: "take (off + (got + k)) ?b = take (off + got) buf @ ?bs" "drop (off + need) ?b = drop (off + need) buf"
      using k(2) bs(1) less.prems(2) True by (simp_all add: min_def add.commute)
    have j: "?bs @ take (need - (got + k)) (incoming e1) = take (need - got) (incoming e)"
      unfolding k(6) using k(2) by (metis diff_diff_left le_add_diff_inverse take_add)
    have "drop (need - (got + k)) (incoming e1) = drop (need - got) (incoming e)"
      unfolding k(6) drop_drop using k(2) by (intro arg_cong2 [of _ _ _ _ drop]) simp_all
    then show ?thesis
      using IH(2-4) k(7) j [symmetric] unfolding step IH(1) t by (intro exI [of _ e2]) simp
  next
    case False
    then have "got = need" using less.prems(3) by simp
    then show ?thesis using less.prems by (intro exI [of _ e]) (simp add: recv_loop.simps)
  qed
qed

text \<open>A complete message at the front of the stream is read, and nothing after it.\<close>

lemma recv_msg:
  assumes e: "live e" "incoming e = f @ later" and f: "2 \<le> length f" "length f = 2 + unat (f ! 1)"
    and buf: "CHAT_MAX_MSG_SIZE \<le> length buf"
  shows "\<exists>e'. client_net_recv_msg net fd (Some buf) (Some n) e = Some (0, Some (f @ drop (length f) buf), Some (length f), e') \<and>
    live e' \<and> incoming e' = later \<and> peer e' = peer e"
proof -
  have L: "0 + 2 \<le> length buf" "length f \<le> length buf"
    using buf f(2) unat_byte_le [of "f ! 1"] unfolding size_defs by linarith+
  let ?b = "take 2 f @ drop 2 buf"
  obtain e1 where h: "recv_exact net fd buf 0 2 e = Some (0, ?b, e1)" "live e1" "incoming e1 = drop 2 f @ later" "peer e1 = peer e"
    using recv_rest [OF e(1) L(1), of 0] e(2) f(1) by (auto simp: recv_exact_def numeral_2_eq_2)
  have b: "length ?b = length buf" "?b ! 1 = f ! 1" "?b ! 0 = f ! 0" using f(1) L(1) by (simp_all add: nth_append)
  have pk: "chat_peek_header (Some ?b) 2 (Some 0) (Some 0) = Some (0, Some (f ! 0), Some (f ! 1))"
    using b L(1) by (auto simp: chat_peek_header_def rd_def)
  let ?l = "unat (f ! 1)"
  have t: "take 2 ?b @ take ?l (drop 2 f @ later) @ drop (2 + ?l) ?b = f @ drop (length f) buf"
  proof -
    have "take ?l (drop 2 f @ later) = drop 2 f" using f(2) by simp
    moreover have "take 2 ?b = take 2 f" "drop (2 + ?l) ?b = drop (length f) buf" using f by simp_all
    ultimately show ?thesis by (simp only: append_assoc [symmetric] append_take_drop_id)
  qed
  have "2 + ?l \<le> length ?b" using L(2) f(2) b(1) by simp
  then obtain e2 where p: "recv_exact net fd ?b 2 ?l e1 = Some (0, f @ drop (length f) buf, e2)" "live e2" "incoming e2 = later" "peer e2 = peer e"
    using recv_rest [OF h(2), of 2 ?l ?b 0] t f(2) h(3,4) by (auto simp: recv_exact_def)
  show ?thesis
  proof (cases "f ! 1 = 0")
    case True
    then have "length f = 2" using f(2) by simp
    then have "?b = f @ drop (length f) buf" "drop 2 f @ later = later" by simp_all
    then show ?thesis using h pk True fd_law [OF e(1)] \<open>length f = 2\<close> by (auto simp: client_net_recv_msg_def)
  next
    case False
    then show ?thesis using h(1) p pk f(2) fd_law [OF e(1)] by (auto simp: client_net_recv_msg_def word_neq_0_conv)
  qed
qed

text \<open>A request and its reply: what is read is the first message of what the peer answers, if nothing was on the way before.\<close>

lemma exchange:
  assumes e: "live e" "incoming e = []" and len: "len \<le> length buf" "CHAT_MAX_MSG_SIZE \<le> length buf"
    and one: "\<forall>r p'. talk (peer e) (take len buf) r p' \<longrightarrow> 2 \<le> length r \<and> length r = 2 + unat (r ! 1)"
  shows "\<exists>r e1 e2. client_net_send_all net fd (Some buf) len e = Some (0, e1) \<and> talk (peer e) (take len buf) r (peer e2) \<and>
    client_net_recv_msg net fd (Some buf) (Some n) e1 = Some (0, Some (r @ drop (length r) buf), Some (length r), e2) \<and>
    live e2 \<and> incoming e2 = []"
proof -
  obtain r e1 where s: "client_net_send_all net fd (Some buf) len e = Some (0, e1)" "live e1"
      "talk (peer e) (take len buf) r (peer e1)" "incoming e1 = r"
    using send_all [OF e(1) len(1)] e(2) by auto
  have "2 \<le> length r" "length r = 2 + unat (r ! 1)" using one s(3) by blast+
  then obtain e2 where "client_net_recv_msg net fd (Some buf) (Some n) e1 = Some (0, Some (r @ drop (length r) buf), Some (length r), e2)"
      "live e2" "incoming e2 = []" "peer e2 = peer e1"
    using recv_msg [OF s(2), of r "[]" buf n] s(4) len(2) by auto
  then show ?thesis using s by auto
qed

end

section \<open>Examples\<close>

text \<open>A world that is the bytes on the way: \<open>recv\<close> gives them one at a time and \<open>send\<close> takes one byte.\<close>

definition trickle :: "byte list Net" where
  "trickle = \<lparr>sys_socket = (\<lambda>e. (3, e)), sys_inet_pton = (\<lambda>_. 1), sys_connect = (\<lambda>_ _ _ e. (0, e)), sys_send = (\<lambda>_ _ e. (1, e)),
     sys_recv = (\<lambda>_ n e. (if n = 0 then Some [] else Some (take 1 e), drop 1 e)), sys_close = (\<lambda>_ e. e)\<rparr>"

lemma trickle_bounded: "recv_bounded trickle"
  by (auto simp: recv_bounded_def trickle_def split: if_splits)

theorem client_transport_safe_witness:
  "(\<exists>r e'. client_net_send_all trickle 3 (Some (replicate 257 0)) 2 [6, 1, 0] = Some (r, e') \<and> r \<in> {0, - 1}) \<and>
    (\<exists>r buf' n e'. client_net_recv_msg trickle 3 (Some (replicate 257 0)) (Some 0) [6, 1, 0] = Some (r, Some buf', Some n, e') \<and>
      length buf' = length (replicate 257 (0 :: byte)) \<and>
      (r = - 1 \<and> n = 0 \<or> r = 0 \<and> n = 2 + unat (buf' ! 1) \<and> n \<le> CHAT_MAX_MSG_SIZE \<and> drop n buf' = drop n (replicate 257 0)))"
  by (rule client_transport_safe [OF trickle_bounded]) (simp_all add: size_defs)

end
