(* ===== verification/Client_Groups_Mng.thy ===== *)
theory Client_Groups_Mng
  imports Owned_Lists Client_Net
begin

text \<open>
  The chat windows of the client, \<^verbatim>\<open>client/client_groups_mng.c\<close> with the message of \<^verbatim>\<open>client/child_msg.h\<close>.

  For each group that the user joins the client starts two programs, each in a terminal, and receives their process numbers
  from a message queue; it kills them when the user leaves. The manager keeps a list of entries. The system calls extend those
  of the transport: \<open>msgrcv\<close> gives the process number in the message, \<open>None\<close> when it fails.

  \<open>cg_rel m es\<close> says that the manager tracks the entries \<open>es\<close>. The lemmas give the outcome of each operation on \<open>es\<close> and on the world: which
  programs are started, which processes are killed.
\<close>

section \<open>Data\<close>

record 'e Os = "'e Net" +
  sys_getpid :: nat
  sys_ftok :: "cstring \<Rightarrow> nat \<Rightarrow> int"
  sys_msgget :: "int \<Rightarrow> 'e \<Rightarrow> int \<times> 'e"
  sys_msgrcv :: "int \<Rightarrow> int \<Rightarrow> 'e \<Rightarrow> int option \<times> 'e"
  sys_msgctl_rmid :: "int \<Rightarrow> 'e \<Rightarrow> 'e"
  sys_system :: "cstring \<Rightarrow> 'e \<Rightarrow> int \<times> 'e"
  sys_kill :: "int \<Rightarrow> 'e \<Rightarrow> 'e"

definition CHAT_CHILD_FTOK_PATH :: cstring where "CHAT_CHILD_FTOK_PATH = bytes_of ''/tmp''"
definition CHAT_CHILD_MTYPE_SENDER :: int where "CHAT_CHILD_MTYPE_SENDER = 1"
definition CHAT_CHILD_MTYPE_RECEIVER :: int where "CHAT_CHILD_MTYPE_RECEIVER = 2"

record GroupEntry =
  ge_name :: cstring
  sender_pid :: int
  receiver_pid :: int

record ClientGroupsMng =
  msqid :: int
  cg_list :: addr
  cg_nodes :: heap
  cg_entries :: "GroupEntry store"

record cg_alloc =
  ca_struct :: bool
  ca_nodes :: "nat \<Rightarrow> bool"
  ca_entries :: "nat \<Rightarrow> bool"

section \<open>Operations\<close>

definition destroy_entry :: "addr \<Rightarrow> GroupEntry store \<Rightarrow> GroupEntry store option" where
  "destroy_entry p s = free s p"

fun destroy_all :: "addr list \<Rightarrow> GroupEntry store \<Rightarrow> GroupEntry store option" where
  "destroy_all [] s = Some s"
| "destroy_all (p # ps) s = do { s \<leftarrow> destroy_entry p s; destroy_all ps s }"

definition entry_is :: "GroupEntry store \<Rightarrow> cstring \<Rightarrow> addr \<Rightarrow> bool option" where
  "entry_is s g a = (if a = NULL then Some False else do { x \<leftarrow> deref s a; Some (ge_name x = g) })"

definition find_entry :: "ClientGroupsMng \<Rightarrow> cstring \<Rightarrow> addr option" where
  "find_entry m g = do {
     itr \<leftarrow> ListItrBegin (cg_nodes m) (cg_list m);
     e \<leftarrow> ListItrEnd (cg_nodes m) (cg_list m);
     search_itr (ListItrGet (cg_nodes m)) (ListItrNext (cg_nodes m)) (entry_is (cg_entries m) g) itr e
   }"

definition recv_child_pid :: "('e, 'z) Os_scheme \<Rightarrow> int \<Rightarrow> int \<Rightarrow> 'e \<Rightarrow> int \<times> 'e" where
  "recv_child_pid os q mtype e =
     (let (r, e) = sys_msgrcv os q mtype e
      in case r of None \<Rightarrow> (- 1, e) | Some pid \<Rightarrow> (pid, e))"

definition kill_entry :: "('e, 'z) Os_scheme \<Rightarrow> GroupEntry store \<Rightarrow> addr \<Rightarrow> 'e \<Rightarrow> 'e option" where
  "kill_entry os s a e =
     (if a = NULL then Some e
      else do {
        x \<leftarrow> deref s a;
        let e = (if sender_pid x > 0 then sys_kill os (sender_pid x) e else e);
        let e = (if receiver_pid x > 0 then sys_kill os (receiver_pid x) e else e);
        Some e
      })"

definition client_groups_mng_create ::
  "('e, 'z) Os_scheme \<Rightarrow> cg_alloc \<Rightarrow> 'e \<Rightarrow> (ClientGroupsMng option \<times> 'e) option"
where
  "client_groups_mng_create os ca e =
     (if \<not> ca_struct ca then Some (None, e)
      else let key = sys_ftok os CHAT_CHILD_FTOK_PATH (sys_getpid os mod 256)
      in if key = - 1 then Some (None, e)
      else let (q, e) = sys_msgget os key e
      in if q < 0 then Some (None, e)
      else do {
        (l, h) \<leftarrow> ListCreate (empty_store (ca_nodes ca));
        if l = NULL then Some (None, sys_msgctl_rmid os q e)
        else Some (Some \<lparr>msqid = q, cg_list = l, cg_nodes = h, cg_entries = empty_store (ca_entries ca)\<rparr>, e)
      })"

partial_function (option) clear_entries ::
  "('e, 'z) Os_scheme \<Rightarrow> ClientGroupsMng \<Rightarrow> 'e \<Rightarrow> (ClientGroupsMng \<times> 'e) option"
where
  "clear_entries os m e = do {
     (a, h) \<leftarrow> ListPopHead (cg_nodes m) (cg_list m);
     if a = NULL then Some (m\<lparr>cg_nodes := h\<rparr>, e)
     else do {
       e \<leftarrow> kill_entry os (cg_entries m) a e;
       s \<leftarrow> free (cg_entries m) a;
       clear_entries os (m\<lparr>cg_nodes := h, cg_entries := s\<rparr>) e
     }}"

definition client_groups_mng_clear ::
  "('e, 'z) Os_scheme \<Rightarrow> ClientGroupsMng option \<Rightarrow> 'e \<Rightarrow> (ClientGroupsMng option \<times> 'e) option"
where
  "client_groups_mng_clear os pm e =
     (case pm of
        None \<Rightarrow> Some (pm, e)
      | Some m \<Rightarrow>
          if cg_list m = NULL then Some (pm, e)
          else do { (m, e) \<leftarrow> clear_entries os m e; Some (Some m, e) })"

text \<open>The second result is what is left allocated of the list and its entries.\<close>

definition client_groups_mng_destroy ::
  "('e, 'z) Os_scheme \<Rightarrow> ClientGroupsMng option option \<Rightarrow> 'e \<Rightarrow>
   (ClientGroupsMng option option \<times> (heap \<times> GroupEntry store) option \<times> 'e) option"
where
  "client_groups_mng_destroy os pm e =
     (case pm of
        Some (Some m) \<Rightarrow> do {
          (m, e) \<leftarrow> client_groups_mng_clear os (Some m) e;
          let m = the m;
          m \<leftarrow> (if cg_list m \<noteq> NULL
            then do {
              (es, l, h) \<leftarrow> ListDestroy (cg_nodes m) (Some (cg_list m)) True;
              s \<leftarrow> destroy_all es (cg_entries m);
              Some (m\<lparr>cg_list := the l, cg_nodes := h, cg_entries := s\<rparr>)
            }
            else Some m);
          let e = (if msqid m \<ge> 0 then sys_msgctl_rmid os (msqid m) e else e);
          Some (Some None, Some (cg_nodes m, cg_entries m), e)
        }
      | _ \<Rightarrow> Some (pm, None, e))"

text \<open>\<open>snprintf\<close> into an array of \<open>n\<close> bytes keeps at most \<open>n - 1\<close> of them.\<close>

definition snprintf :: "nat \<Rightarrow> cstring \<Rightarrow> cstring" where
  "snprintf n s = take (n - 1) s"

definition window_cmd :: "string \<Rightarrow> cstring \<Rightarrow> cstring \<Rightarrow> u16 \<Rightarrow> int \<Rightarrow> cstring \<Rightarrow> cstring" where
  "window_cmd role group_name mcast_ip mcast_port q arg =
     bytes_of ''gnome-terminal --title='' @ [39] @ group_name @ bytes_of '' ('' @ bytes_of role @ bytes_of '')'' @ [39] @
     bytes_of '' -- ./bin/chat_'' @ bytes_of role @ bytes_of '' '' @ mcast_ip @ bytes_of '' '' @ dec (unat mcast_port) @
     bytes_of '' '' @ dec_int q @ bytes_of '' '' @ [39] @ arg @ [39] @ bytes_of '' &''"

definition client_groups_mng_on_join ::
  "('e, 'z) Os_scheme \<Rightarrow> ClientGroupsMng option \<Rightarrow> cstring option \<Rightarrow> cstring option \<Rightarrow> u16 \<Rightarrow> cstring option \<Rightarrow> 'e \<Rightarrow>
   (int \<times> ClientGroupsMng option \<times> 'e) option"
where
  "client_groups_mng_on_join os pm g ip mcast_port user e =
     (if pm = None \<or> g = None \<or> ip = None then Some (- 1, pm, e)
      else
        let m = the pm; group_name = the g; mcast_ip = the ip;
            username = (case user of None \<Rightarrow> [] | Some u \<Rightarrow> u)
        in do {
          itr \<leftarrow> find_entry m group_name;
          end_itr \<leftarrow> ListItrEnd (cg_nodes m) (cg_list m);
          if itr \<noteq> end_itr then Some (- 1, pm, e)
          else
            let cmd = snprintf 256 (window_cmd ''sender'' group_name mcast_ip mcast_port (msqid m) username);
                (r, e) = sys_system os cmd e
            in if r \<noteq> 0 then Some (- 1, pm, e)
            else
              let cmd = snprintf 256 (window_cmd ''receiver'' group_name mcast_ip mcast_port (msqid m) group_name);
                  (r, e) = sys_system os cmd e
              in if r \<noteq> 0 then Some (- 1, pm, e)
              else
                let (a, s) = malloc (cg_entries m) \<lparr>ge_name = [], sender_pid = 0, receiver_pid = 0\<rparr>
                in if a = NULL then Some (- 1, Some (m\<lparr>cg_entries := s\<rparr>), e)
                else
                  let n = strncpy CHAT_MAX_GROUPNAME_LEN group_name;
                      (sp, e) = recv_child_pid os (msqid m) CHAT_CHILD_MTYPE_SENDER e;
                      (rp, e) = recv_child_pid os (msqid m) CHAT_CHILD_MTYPE_RECEIVER e
                  in do {
                    s \<leftarrow> put s a \<lparr>ge_name = n, sender_pid = sp, receiver_pid = rp\<rparr>;
                    (nd, h) \<leftarrow> ListPushTail (cg_nodes m) (cg_list m) a;
                    if nd = NULL
                    then do {
                      e \<leftarrow> kill_entry os s a e;
                      s \<leftarrow> free s a;
                      Some (- 1, Some (m\<lparr>cg_nodes := h, cg_entries := s\<rparr>), e)
                    }
                    else Some (0, Some (m\<lparr>cg_nodes := h, cg_entries := s\<rparr>), e)
                  }})"

definition client_groups_mng_on_leave ::
  "('e, 'z) Os_scheme \<Rightarrow> ClientGroupsMng option \<Rightarrow> cstring option \<Rightarrow> 'e \<Rightarrow> (ClientGroupsMng option \<times> 'e) option"
where
  "client_groups_mng_on_leave os pm g e =
     (if pm = None \<or> g = None then Some (pm, e)
      else let m = the pm in do {
        itr \<leftarrow> find_entry m (the g);
        end_itr \<leftarrow> ListItrEnd (cg_nodes m) (cg_list m);
        if itr = end_itr then Some (pm, e)
        else do {
          (a, h) \<leftarrow> ListItrRemove (cg_nodes m) itr;
          if a = NULL then Some (Some (m\<lparr>cg_nodes := h\<rparr>), e)
          else do {
            e \<leftarrow> kill_entry os (cg_entries m) a e;
            s \<leftarrow> free (cg_entries m) a;
            Some (Some (m\<lparr>cg_nodes := h, cg_entries := s\<rparr>), e)
          }}})"

section \<open>Tracked windows\<close>

definition entry_pids :: "GroupEntry \<Rightarrow> int list" where
  "entry_pids x = filter (\<lambda>p. 0 < p) [sender_pid x, receiver_pid x]"

definition kills :: "('e, 'z) Os_scheme \<Rightarrow> int list \<Rightarrow> 'e \<Rightarrow> 'e" where
  "kills os ps e = fold (sys_kill os) ps e"

definition cg_rel :: "ClientGroupsMng \<Rightarrow> GroupEntry list \<Rightarrow> bool" where
  "cg_rel m es \<longleftrightarrow> 0 \<le> msqid m \<and> olists (cg_nodes m) (cg_entries m) [cg_list m \<mapsto> es]"

lemma cg_relI:
  "0 \<le> msqid m \<Longrightarrow> olists h s [cg_list m \<mapsto> es] \<Longrightarrow> cg_rel (m\<lparr>cg_nodes := h, cg_entries := s\<rparr>) es"
  by (simp add: cg_rel_def)

definition cg_ok :: "ClientGroupsMng \<Rightarrow> bool" where
  "cg_ok m \<longleftrightarrow> (\<forall>n. alloc_ok (cg_nodes m) n) \<and> (\<forall>n. alloc_ok (cg_entries m) n)"

definition tracks :: "GroupEntry list \<Rightarrow> cstring \<Rightarrow> bool" where
  "tracks es g \<longleftrightarrow> g \<in> ge_name ` set es"

text \<open>The entry of a group, and the entries without it.\<close>

definition entry_of :: "cstring \<Rightarrow> GroupEntry list \<Rightarrow> GroupEntry option" where
  "entry_of g es = find (\<lambda>x. ge_name x = g) es"

definition untrack :: "cstring \<Rightarrow> GroupEntry list \<Rightarrow> GroupEntry list" where
  "untrack g es = takeWhile (\<lambda>x. ge_name x \<noteq> g) es @ tl (dropWhile (\<lambda>x. ge_name x \<noteq> g) es)"

lemma kills_simps [simp]: "kills os [] e = e" "kills os (p # ps) e = kills os ps (sys_kill os p e)"
  "kills os (ps @ qs) e = kills os qs (kills os ps e)"
  by (simp_all add: kills_def)

lemma kill_entry_live:
  "mem s a = Some x \<Longrightarrow> a \<noteq> NULL \<Longrightarrow> kill_entry os s a e = Some (kills os (entry_pids x) e)"
  by (simp add: kill_entry_def deref_def entry_pids_def)

lemma entry_is_live: "store_wf s \<Longrightarrow> \<forall>a v. mem s a = Some v \<longrightarrow> entry_is s g a = Some (ge_name v = g)"
  by (auto simp: entry_is_def deref_def store_wf_NULL)

lemma split_entry:
  assumes "\<forall>x \<in> set es1. ge_name x \<noteq> g" "ge_name x = g"
  shows "entry_of g (es1 @ x # es2) = Some x" "untrack g (es1 @ x # es2) = es1 @ es2"
proof -
  have "find (\<lambda>x. ge_name x = g) (es1 @ x # es2) = Some x"
    using assms by (induction es1) auto
  then show "entry_of g (es1 @ x # es2) = Some x" by (simp add: entry_of_def)
  show "untrack g (es1 @ x # es2) = es1 @ es2"
    using assms by (simp add: untrack_def takeWhile_append2 dropWhile_append2)
qed

lemma no_entry: "\<not> tracks es g \<Longrightarrow> entry_of g es = None \<and> untrack g es = es"
  by (induction es) (auto simp: tracks_def entry_of_def untrack_def)

lemma tracks_untrack: "distinct (map ge_name es) \<Longrightarrow> untrack g es = filter (\<lambda>x. ge_name x \<noteq> g) es"
proof (induction es)
  case (Cons x es)
  show ?case
  proof (cases "ge_name x = g")
    case True
    then have "filter (\<lambda>x. ge_name x \<noteq> g) es = es" using Cons.prems by (intro filter_True) (auto simp: image_iff)
    then show ?thesis using True by (simp add: untrack_def)
  qed (use Cons in \<open>simp add: untrack_def\<close>)
qed (simp add: untrack_def)

text \<open>The search: nothing, or a position whose removal gives the entry.\<close>

lemma cg_find:
  assumes R: "cg_rel m es"
  obtains (absent) "\<not> tracks es g" "find_entry m g = Some (cg_list m)" "ListItrEnd (cg_nodes m) (cg_list m) = Some (cg_list m)"
  | (found) n a x es1 es2 h s where "tracks es g" "es = es1 @ x # es2" "\<forall>y \<in> set es1. ge_name y \<noteq> g" "ge_name x = g"
      "find_entry m g = Some n" "n \<noteq> cg_list m" "ListItrEnd (cg_nodes m) (cg_list m) = Some (cg_list m)" "a \<noteq> NULL"
      "mem (cg_entries m) a = Some x" "ListItrRemove (cg_nodes m) n = Some (a, h)" "free (cg_entries m) a = Some s"
      "cg_rel (m\<lparr>cg_nodes := h, cg_entries := s\<rparr>) (es1 @ es2)" "cg_ok (m\<lparr>cg_nodes := h, cg_entries := s\<rparr>) = cg_ok m"
proof -
  have o: "olists (cg_nodes m) (cg_entries m) [cg_list m \<mapsto> es]" "0 \<le> msqid m" using R by (auto simp: cg_rel_def)
  have l: "[cg_list m \<mapsto> es] (cg_list m) = Some es" by simp
  show thesis
  proof (cases rule: olists_search [OF o(1) l entry_is_live [OF olists_wf [OF o(1)]], of g])
    case (1 itr)
    then show thesis using absent by (auto simp: find_entry_def tracks_def)
  next
    case (2 itr n a gs1 x gs2 h' s')
    have "cg_rel (m\<lparr>cg_nodes := h', cg_entries := s'\<rparr>) (gs1 @ gs2)"
      using 2(13) o(2) unfolding fun_upd_upd by (simp add: cg_rel_def)
    moreover have "cg_ok (m\<lparr>cg_nodes := h', cg_entries := s'\<rparr>) = cg_ok m" using 2(14,15) by (simp add: cg_ok_def)
    moreover have "tracks es g" "find_entry m g = Some n" using 2 by (auto simp: tracks_def find_entry_def)
    ultimately show thesis using found 2 by blast
  qed
qed

lemma cg_create:
  "if ca_struct ca \<and> sys_ftok os CHAT_CHILD_FTOK_PATH (sys_getpid os mod 256) \<noteq> - 1
   then let (q, e1) = sys_msgget os (sys_ftok os CHAT_CHILD_FTOK_PATH (sys_getpid os mod 256)) e
     in if q < 0 then client_groups_mng_create os ca e = Some (None, e1)
     else (\<exists>m. client_groups_mng_create os ca e = Some (Some m, e1) \<and> cg_rel m [] \<and> msqid m = q \<and>
         cg_ok m = ((\<forall>n. ca_nodes ca n) \<and> (\<forall>n. ca_entries ca n))) \<or>
       client_groups_mng_create os ca e = Some (None, sys_msgctl_rmid os q e1) \<and> (\<exists>n. \<not> ca_nodes ca n)
   else client_groups_mng_create os ca e = Some (None, e)"
proof -
  have ok: "alloc_ok (empty_store f) = f" for f :: "nat \<Rightarrow> bool" by (simp add: empty_store_def)
  obtain q e1 where q: "sys_msgget os (sys_ftok os CHAT_CHILD_FTOK_PATH (sys_getpid os mod 256)) e = (q, e1)" by fastforce
  have E: "olists (empty_store (ca_nodes ca)) (empty_store (ca_entries ca) :: GroupEntry store) Map.empty" by (rule olists_empty)
  show ?thesis
  proof (cases rule: olists_create [OF E])
    case (1 h')
    then show ?thesis using q by (auto simp: client_groups_mng_create_def Let_def empty_store_def)
  next
    case (2 l h')
    then show ?thesis using q 2(1,2,5)
      by (auto simp: client_groups_mng_create_def Let_def cg_rel_def cg_ok_def ok)
  qed
qed

lemma cg_leave:
  assumes R: "cg_rel m es"
  shows "\<exists>m'. client_groups_mng_on_leave os (Some m) (Some g) e =
      Some (Some m', kills os (case entry_of g es of None \<Rightarrow> [] | Some x \<Rightarrow> entry_pids x) e) \<and>
    cg_rel m' (untrack g es) \<and> cg_ok m' = cg_ok m"
proof (cases rule: cg_find [OF R, of g])
  case 1
  then show ?thesis using R no_entry [OF 1(1)] by (auto simp: client_groups_mng_on_leave_def)
next
  case (2 n a x es1 es2 h s)
  then have "client_groups_mng_on_leave os (Some m) (Some g) e =
      Some (Some (m\<lparr>cg_nodes := h, cg_entries := s\<rparr>), kills os (entry_pids x) e)"
    by (simp add: client_groups_mng_on_leave_def kill_entry_live)
  then show ?thesis using 2(12,13) split_entry [OF 2(3,4), of es2] unfolding 2(2) by auto
qed

lemma clear_entries_all:
  "cg_rel m es \<Longrightarrow> \<exists>m'. clear_entries os m e = Some (m', kills os (concat (map entry_pids es)) e) \<and> cg_rel m' [] \<and>
    cg_list m' = cg_list m \<and> msqid m' = msqid m \<and> cg_ok m' = cg_ok m"
proof (induction es arbitrary: m e)
  case Nil
  then have o: "olists (cg_nodes m) (cg_entries m) [cg_list m \<mapsto> []]" "0 \<le> msqid m" by (auto simp: cg_rel_def)
  show ?case
    by (cases rule: olists_pop [OF o(1), of "cg_list m" "[]"])
      (use o(2) in \<open>auto simp: clear_entries.simps [of os m e] cg_rel_def cg_ok_def\<close>)
next
  case (Cons x es)
  then have o: "olists (cg_nodes m) (cg_entries m) [cg_list m \<mapsto> x # es]" "0 \<le> msqid m" by (auto simp: cg_rel_def)
  have l: "[cg_list m \<mapsto> x # es] (cg_list m) = Some (x # es)" by simp
  show ?case
  proof (cases rule: olists_pop [OF o(1) l])
    case (2 a y ys h' s')
    let ?m = "m\<lparr>cg_nodes := h', cg_entries := s'\<rparr>"
    have "cg_rel ?m es" using 2(1,6) o(2) unfolding fun_upd_upd by (simp add: cg_rel_def)
    then obtain m' where "clear_entries os ?m (kills os (entry_pids x) e) =
        Some (m', kills os (concat (map entry_pids es)) (kills os (entry_pids x) e))" "cg_rel m' []" "cg_list m' = cg_list ?m"
        "msqid m' = msqid ?m" "cg_ok m' = cg_ok ?m"
      using Cons.IH by blast
    moreover have "clear_entries os m e = clear_entries os ?m (kills os (entry_pids x) e)"
      using 2 by (subst clear_entries.simps) (simp add: kill_entry_live)
    moreover have "cg_ok ?m = cg_ok m" using 2(7,8) by (simp add: cg_ok_def)
    ultimately show ?thesis by auto
  qed simp
qed

lemma cg_clear:
  assumes R: "cg_rel m es"
  shows "\<exists>m'. client_groups_mng_clear os (Some m) e = Some (Some m', kills os (concat (map entry_pids es)) e) \<and> cg_rel m' [] \<and>
    cg_list m' = cg_list m \<and> msqid m' = msqid m \<and> cg_ok m' = cg_ok m"
proof -
  have "cg_list m \<noteq> NULL" using R olists_not_null [of _ _ "[cg_list m \<mapsto> es]" "cg_list m"] by (auto simp: cg_rel_def)
  then show ?thesis using clear_entries_all [OF R, of os e] by (auto simp: client_groups_mng_clear_def)
qed

lemma cg_destroy:
  assumes R: "cg_rel m es"
  shows "\<exists>h s. client_groups_mng_destroy os (Some (Some m)) e =
      Some (Some None, Some (h, s), sys_msgctl_rmid os (msqid m) (kills os (concat (map entry_pids es)) e)) \<and>
    mem h = Map.empty \<and> mem s = Map.empty"
proof -
  obtain m' where m': "client_groups_mng_clear os (Some m) e = Some (Some m', kills os (concat (map entry_pids es)) e)" "cg_rel m' []"
      "msqid m' = msqid m"
    using cg_clear [OF R, of os e] by blast
  have o: "olists (cg_nodes m') (cg_entries m') [cg_list m' \<mapsto> []]" "0 \<le> msqid m'" using m'(2) by (auto simp: cg_rel_def)
  have l: "[cg_list m' \<mapsto> []] (cg_list m') = Some ([] :: GroupEntry list)" by simp
  obtain h where h: "ListDestroy (cg_nodes m') (Some (cg_list m')) True = Some ([], Some NULL, h)"
      "olists h (cg_entries m') ([cg_list m' \<mapsto> []](cg_list m' := None))"
    using olists_destroy_empty [OF o(1) l, of True] by (elim exE conjE)
  have "mem h = Map.empty \<and> mem (cg_entries m') = Map.empty"
  proof (rule olists_none)
    have "[cg_list m' \<mapsto> ([] :: GroupEntry list)](cg_list m' := None) = Map.empty" by (rule ext) simp
    then show "olists h (cg_entries m') Map.empty" using h(2) by (simp only:)
  qed
  then show ?thesis
    using m' h(1) o(2) olists_not_null [OF o(1) l] by (auto simp: client_groups_mng_destroy_def)
qed

text \<open>Starting the two programs of a group, and reading their process numbers.\<close>

definition open_windows :: "('e, 'z) Os_scheme \<Rightarrow> int \<Rightarrow> cstring \<Rightarrow> cstring \<Rightarrow> u16 \<Rightarrow> cstring \<Rightarrow> 'e \<Rightarrow> bool \<times> 'e" where
  "open_windows os q g ip port user e =
     (let (r, e) = sys_system os (snprintf 256 (window_cmd ''sender'' g ip port q user)) e
      in if r \<noteq> 0 then (False, e)
      else let (r, e) = sys_system os (snprintf 256 (window_cmd ''receiver'' g ip port q g)) e
      in (r = 0, e))"

definition child_pids :: "('e, 'z) Os_scheme \<Rightarrow> int \<Rightarrow> 'e \<Rightarrow> int \<times> int \<times> 'e" where
  "child_pids os q e =
     (let (sp, e) = recv_child_pid os q CHAT_CHILD_MTYPE_SENDER e;
          (rp, e) = recv_child_pid os q CHAT_CHILD_MTYPE_RECEIVER e
      in (sp, rp, e))"

text \<open>The last part of a join: the entry at \<open>a\<close> is put into the list, or its processes are killed.\<close>

lemma cg_track:
  assumes R: "cg_rel m es" and p: "malloc (cg_entries m) x = (a, s)" "a \<noteq> NULL"
  shows "\<exists>r m' e'. do {
      (nd, h) \<leftarrow> ListPushTail (cg_nodes m) (cg_list m) a;
      if nd = NULL
      then do {
        e \<leftarrow> kill_entry os s a e;
        s \<leftarrow> free s a;
        Some (- 1, Some (m\<lparr>cg_nodes := h, cg_entries := s\<rparr>), e)
      }
      else Some (0, Some (m\<lparr>cg_nodes := h, cg_entries := s\<rparr>), e)
    } = Some (r, Some m', e') \<and> cg_ok m' = cg_ok m \<and> msqid m' = msqid m \<and>
    (r = 0 \<and> cg_rel m' (es @ [x]) \<and> e' = e \<or> \<not> cg_ok m \<and> r = - 1 \<and> cg_rel m' es \<and> e' = kills os (entry_pids x) e)"
proof -
  have o: "olists (cg_nodes m) (cg_entries m) [cg_list m \<mapsto> es]" "0 \<le> msqid m" using R by (auto simp: cg_rel_def)
  have l: "[cg_list m \<mapsto> es] (cg_list m) = Some es" by simp
  have x: "mem s a = Some x" by (rule malloc_cases [OF olists_wf [OF o(1)] p(1)]) (use p(2) in auto)
  show ?thesis
  proof (cases rule: olists_append [OF o(1) l p])
    case (1 h s')
    moreover have "cg_rel (m\<lparr>cg_nodes := h, cg_entries := s'\<rparr>) es" by (rule cg_relI [OF o(2) 1(3)])
    moreover have "cg_ok (m\<lparr>cg_nodes := h, cg_entries := s'\<rparr>) = cg_ok m" "\<not> cg_ok m" using 1(4-6) by (auto simp: cg_ok_def)
    ultimately show ?thesis using x p(2) by (simp add: kill_entry_live)
  next
    case (2 n h)
    moreover have "cg_rel (m\<lparr>cg_nodes := h, cg_entries := s\<rparr>) (es @ [x])" using 2(3) o(2) unfolding fun_upd_upd by (simp add: cg_rel_def)
    moreover have "cg_ok (m\<lparr>cg_nodes := h, cg_entries := s\<rparr>) = cg_ok m" using 2 by (simp add: cg_ok_def)
    ultimately show ?thesis by simp
  qed
qed

lemma cg_join:
  assumes R: "cg_rel m es" and w: "open_windows os (msqid m) g ip port user e = (opened, e1)" and c: "child_pids os (msqid m) e1 = (sp, rp, e2)"
  shows "\<exists>r m' e'. client_groups_mng_on_join os (Some m) (Some g) (Some ip) port (Some user) e = Some (r, Some m', e') \<and>
    cg_ok m' = cg_ok m \<and> msqid m' = msqid m \<and>
    (let x = \<lparr>ge_name = take CHAT_MAX_GROUPNAME_LEN g, sender_pid = sp, receiver_pid = rp\<rparr>
     in if tracks es g then r = - 1 \<and> cg_rel m' es \<and> e' = e
        else if \<not> opened then r = - 1 \<and> cg_rel m' es \<and> e' = e1
        else r = 0 \<and> cg_rel m' (es @ [x]) \<and> e' = e2 \<or>
          \<not> cg_ok m \<and> r = - 1 \<and> cg_rel m' es \<and> (e' = e1 \<or> e' = kills os (entry_pids x) e2))"
proof (cases rule: cg_find [OF R, of g])
  case (2 n a x es1 es2 h s)
  then show ?thesis using R by (auto simp: client_groups_mng_on_join_def Let_def)
next
  case 1
  obtain r1 f1 where s1: "sys_system os (snprintf 256 (window_cmd ''sender'' g ip port (msqid m) user)) e = (r1, f1)" by fastforce
  obtain r2 f2 where s2: "sys_system os (snprintf 256 (window_cmd ''receiver'' g ip port (msqid m) g)) f1 = (r2, f2)" by fastforce
  show ?thesis
  proof (cases opened)
    case False
    then show ?thesis using 1 R w s1 s2
      by (auto simp: client_groups_mng_on_join_def open_windows_def Let_def split: if_splits)
  next
    case True
    then have op: "r1 = 0" "r2 = 0" "f2 = e1" using w s1 s2 by (auto simp: open_windows_def split: if_splits)
    let ?x = "\<lparr>ge_name = take CHAT_MAX_GROUPNAME_LEN g, sender_pid = sp, receiver_pid = rp\<rparr>"
    let ?z = "\<lparr>ge_name = [], sender_pid = 0, receiver_pid = 0\<rparr>"
    obtain a s where ms: "malloc (cg_entries m) ?z = (a, s)" by fastforce
    have o: "olists (cg_nodes m) (cg_entries m) [cg_list m \<mapsto> es]" "0 \<le> msqid m" using R by (auto simp: cg_rel_def)
    note wf = olists_wf [OF o(1)]
    obtain f3 where pd: "recv_child_pid os (msqid m) CHAT_CHILD_MTYPE_SENDER e1 = (sp, f3)"
        "recv_child_pid os (msqid m) CHAT_CHILD_MTYPE_RECEIVER f3 = (rp, e2)"
      using c by (auto simp: child_pids_def split: prod.splits)
    show ?thesis
    proof (cases "a = NULL")
      case True
      have bad: "\<not> cg_ok m" using malloc_ok [OF wf _ ms] True by (auto simp: cg_ok_def)
      have "mem s = mem (cg_entries m)" by (rule malloc_cases [OF wf ms]) (use True in auto)
      then have "olists (cg_nodes m) s [cg_list m \<mapsto> es]" by (rule olists_same_mem [OF o(1) store_wf_malloc [OF wf ms]])
      then have "cg_rel (m\<lparr>cg_entries := s\<rparr>) es" "cg_ok (m\<lparr>cg_entries := s\<rparr>) = cg_ok m"
        using o(2) malloc_alloc_ok [OF ms] by (simp_all add: cg_rel_def cg_ok_def)
      moreover have "client_groups_mng_on_join os (Some m) (Some g) (Some ip) port (Some user) e = Some (- 1, Some (m\<lparr>cg_entries := s\<rparr>), e1)"
        using 1 s1 s2 op ms True by (simp add: client_groups_mng_on_join_def)
      ultimately show ?thesis using bad 1(1) \<open>opened\<close> by simp
    next
      case False
      obtain s2' where p: "put s a ?x = Some s2'" "malloc (cg_entries m) ?x = (a, s2')" using malloc_put [OF wf ms False] by blast
      have jn: "client_groups_mng_on_join os (Some m) (Some g) (Some ip) port (Some user) e = do {
          (nd, h) \<leftarrow> ListPushTail (cg_nodes m) (cg_list m) a;
          if nd = NULL
          then do {
            e \<leftarrow> kill_entry os s2' a e2;
            s \<leftarrow> free s2' a;
            Some (- 1, Some (m\<lparr>cg_nodes := h, cg_entries := s\<rparr>), e)
          }
          else Some (0, Some (m\<lparr>cg_nodes := h, cg_entries := s2'\<rparr>), e2)
        }"
        using 1 s1 s2 op ms False p(1) pd by (simp add: client_groups_mng_on_join_def strncpy_def)
      obtain r m' e' where t: "client_groups_mng_on_join os (Some m) (Some g) (Some ip) port (Some user) e = Some (r, Some m', e')"
          "cg_ok m' = cg_ok m" "msqid m' = msqid m"
          "r = 0 \<and> cg_rel m' (es @ [?x]) \<and> e' = e2 \<or> \<not> cg_ok m \<and> r = - 1 \<and> cg_rel m' es \<and> e' = kills os (entry_pids ?x) e2"
        using cg_track [OF R p(2) False, of os e2] unfolding jn by (elim exE conjE)
      then show ?thesis using \<open>\<not> tracks es g\<close> \<open>opened\<close> by (auto simp: Let_def)
    qed
  qed
qed

section \<open>The contract for the client manager\<close>

text \<open>
  What the client manager relies on: the entries change by the operations, which always return; joining may fail, and then the entries
  stay as they are. \<open>kill\<close> is the signal to each of some processes.
\<close>

locale window_tracker =
  fixes rel :: "'m \<Rightarrow> GroupEntry list \<Rightarrow> bool"
    and join :: "'m option \<Rightarrow> cstring option \<Rightarrow> cstring option \<Rightarrow> u16 \<Rightarrow> cstring option \<Rightarrow> 'e \<Rightarrow> (int \<times> 'm option \<times> 'e) option"
    and leave :: "'m option \<Rightarrow> cstring option \<Rightarrow> 'e \<Rightarrow> ('m option \<times> 'e) option"
    and clear :: "'m option \<Rightarrow> 'e \<Rightarrow> ('m option \<times> 'e) option"
    and kill :: "int list \<Rightarrow> 'e \<Rightarrow> 'e"
  assumes join_law: "rel m es \<Longrightarrow> \<exists>r m' e'. join (Some m) (Some g) (Some ip) port (Some u) e = Some (r, Some m', e') \<and>
      (r = 0 \<and> \<not> tracks es g \<and> (\<exists>sp rp. rel m' (es @ [\<lparr>ge_name = take CHAT_MAX_GROUPNAME_LEN g, sender_pid = sp, receiver_pid = rp\<rparr>])) \<or>
       r = - 1 \<and> rel m' es)"
    and leave_law: "rel m es \<Longrightarrow> \<exists>m'. leave (Some m) (Some g) e =
      Some (Some m', kill (case entry_of g es of None \<Rightarrow> [] | Some x \<Rightarrow> entry_pids x) e) \<and> rel m' (untrack g es)"
    and clear_law: "rel m es \<Longrightarrow> \<exists>m'. clear (Some m) e = Some (Some m', kill (concat (map entry_pids es)) e) \<and> rel m' []"
begin

text \<open>A manager that tracks every group once, under its full name.\<close>

definition windows :: "'m \<Rightarrow> cstring list \<Rightarrow> bool" where
  "windows m gs \<longleftrightarrow> distinct gs \<and> (\<exists>es. rel m es \<and> map ge_name es = gs)"

lemma windows_join:
  assumes "windows m gs" "length g \<le> CHAT_MAX_GROUPNAME_LEN"
  shows "\<exists>r m' e'. join (Some m) (Some g) (Some ip) port (Some u) e = Some (r, Some m', e') \<and>
    (r = 0 \<and> g \<notin> set gs \<and> windows m' (gs @ [g]) \<or> r = - 1 \<and> windows m' gs)"
proof -
  obtain es where es: "distinct gs" "rel m es" "map ge_name es = gs" using assms(1) by (auto simp: windows_def)
  obtain r m' e' where j: "join (Some m) (Some g) (Some ip) port (Some u) e = Some (r, Some m', e')"
      "r = 0 \<and> \<not> tracks es g \<and> (\<exists>sp rp. rel m' (es @ [\<lparr>ge_name = take CHAT_MAX_GROUPNAME_LEN g, sender_pid = sp, receiver_pid = rp\<rparr>])) \<or>
       r = - 1 \<and> rel m' es"
    using join_law [OF es(2), of g ip port u e] by (elim exE conjE)
  from j(2) show ?thesis
  proof (elim disjE conjE exE)
    fix sp rp
    assume a: "r = 0" "\<not> tracks es g" "rel m' (es @ [\<lparr>ge_name = take CHAT_MAX_GROUPNAME_LEN g, sender_pid = sp, receiver_pid = rp\<rparr>])"
    have n: "g \<notin> set gs" using a(2) es(3) by (auto simp: tracks_def)
    have "windows m' (gs @ [g])"
      unfolding windows_def using a(3) es n assms(2)
      by (intro conjI exI [of _ "es @ [\<lparr>ge_name = take CHAT_MAX_GROUPNAME_LEN g, sender_pid = sp, receiver_pid = rp\<rparr>]"]) auto
    then show ?thesis using j(1) a(1) n by blast
  next
    assume "r = - 1" "rel m' es"
    then show ?thesis using j(1) es by (auto simp: windows_def)
  qed
qed

lemma windows_leave:
  assumes "windows m gs"
  shows "\<exists>m' e'. leave (Some m) (Some g) e = Some (Some m', e') \<and> windows m' (filter (\<lambda>h. h \<noteq> g) gs)"
proof -
  obtain es where es: "distinct gs" "rel m es" "map ge_name es = gs" using assms(1) by (auto simp: windows_def)
  obtain m' where m': "leave (Some m) (Some g) e = Some (Some m', kill (case entry_of g es of None \<Rightarrow> [] | Some x \<Rightarrow> entry_pids x) e)"
      "rel m' (untrack g es)"
    using leave_law [OF es(2), of g e] by blast
  have "untrack g es = filter (\<lambda>x. ge_name x \<noteq> g) es" using tracks_untrack [of es g] es by simp
  then have "map ge_name (untrack g es) = filter (\<lambda>h. h \<noteq> g) gs" using es(3) by (simp add: filter_map comp_def flip: es(3))
  then show ?thesis using m' es(1) by (auto simp: windows_def)
qed

lemma windows_clear: "windows m gs \<Longrightarrow> \<exists>m' e'. clear (Some m) e = Some (Some m', e') \<and> windows m' []"
  using clear_law by (fastforce simp: windows_def)

end

interpretation wt: window_tracker cg_rel "client_groups_mng_on_join os" "client_groups_mng_on_leave os" "client_groups_mng_clear os" "kills os"
  for os :: "('e, 'z) Os_scheme"
proof
  fix m es g ip port u and e :: 'e
  assume R: "cg_rel m es"
  obtain opened e1 where w: "open_windows os (msqid m) g ip port u e = (opened, e1)" by fastforce
  obtain sp rp e2 where c: "child_pids os (msqid m) e1 = (sp, rp, e2)" by (metis prod_cases3)
  show "\<exists>r m' e'. client_groups_mng_on_join os (Some m) (Some g) (Some ip) port (Some u) e = Some (r, Some m', e') \<and>
      (r = 0 \<and> \<not> tracks es g \<and> (\<exists>sp rp. cg_rel m' (es @ [\<lparr>ge_name = take CHAT_MAX_GROUPNAME_LEN g, sender_pid = sp, receiver_pid = rp\<rparr>])) \<or>
       r = - 1 \<and> cg_rel m' es)"
    using cg_join [OF R w c] by (auto simp: Let_def split: if_splits)
  show "\<exists>m'. client_groups_mng_on_leave os (Some m) (Some g) e =
      Some (Some m', kills os (case entry_of g es of None \<Rightarrow> [] | Some x \<Rightarrow> entry_pids x) e) \<and> cg_rel m' (untrack g es)"
    using cg_leave [OF R, of os g e] by blast
  show "\<exists>m'. client_groups_mng_clear os (Some m) e = Some (Some m', kills os (concat (map entry_pids es)) e) \<and> cg_rel m' []"
    using cg_clear [OF R, of os e] by blast
qed

section \<open>Correctness of the window manager\<close>

text \<open>A manager with two groups, and a desktop whose state is the list of processes that were killed.\<close>

definition sample_entries :: "GroupEntry list" where
  "sample_entries = [\<lparr>ge_name = [97], sender_pid = 40, receiver_pid = 41\<rparr>, \<lparr>ge_name = [98], sender_pid = 42, receiver_pid = - 1\<rparr>]"

definition sample_windows :: ClientGroupsMng where
  "sample_windows = \<lparr>msqid = 9, cg_list = 1, cg_nodes = sample_heap,
     cg_entries = \<lparr>mem = [70 \<mapsto> sample_entries ! 0, 80 \<mapsto> sample_entries ! 1], brk = 81, alloc_ok = (\<lambda>_. True)\<rparr>\<rparr>"

definition desktop :: "int list Os" where
  "desktop = \<lparr>sys_socket = (\<lambda>e. (3, e)), sys_inet_pton = (\<lambda>_. 1), sys_connect = (\<lambda>_ _ _ e. (0, e)), sys_send = (\<lambda>_ bs e. (int (length bs), e)),
     sys_recv = (\<lambda>_ _ e. (None, e)), sys_close = (\<lambda>_ e. e), sys_getpid = 700, sys_ftok = (\<lambda>_ n. int n), sys_msgget = (\<lambda>_ e. (9, e)),
     sys_msgrcv = (\<lambda>_ t e. (Some (50 + t), e)), sys_msgctl_rmid = (\<lambda>_ e. e), sys_system = (\<lambda>_ e. (0, e)), sys_kill = (\<lambda>p e. e @ [p])\<rparr>"

lemma sample_windows_rel: "cg_rel sample_windows sample_entries"
proof -
  let ?s = "\<lparr>mem = [70 \<mapsto> sample_entries ! 0, 80 \<mapsto> sample_entries ! 1], brk = 81, alloc_ok = (\<lambda>_. True)\<rparr>"
  let ?L = "[1 \<mapsto> [(2, 70), (3, 80)]] :: lists"
  have "olists_in ?s ?L [1 \<mapsto> sample_entries]"
    by (auto simp: olists_in_def store_wf_def contents_def cells_def sample_entries_def fun_eq_iff split: if_splits)
  then show ?thesis using sample_dlists by (auto simp: cg_rel_def sample_windows_def olists_def)
qed

text \<open>
  C25: windows are closed exactly when the user leaves. Leaving a group kills the two processes of its entry, and only these, and removes the
  entry; a group that is not tracked changes nothing. Clearing kills the processes of all entries, in order. Destroying does the
  same, removes the message queue, and frees every node and entry.
\<close>

theorem windows_closed:
  assumes "cg_rel m es"
  shows "(\<exists>m'. client_groups_mng_on_leave os (Some m) (Some g) e =
        Some (Some m', kills os (case entry_of g es of None \<Rightarrow> [] | Some x \<Rightarrow> entry_pids x) e) \<and> cg_rel m' (untrack g es)) \<and>
    (\<exists>m'. client_groups_mng_clear os (Some m) e = Some (Some m', kills os (concat (map entry_pids es)) e) \<and> cg_rel m' []) \<and>
    (\<exists>h s. client_groups_mng_destroy os (Some (Some m)) e =
        Some (Some None, Some (h, s), sys_msgctl_rmid os (msqid m) (kills os (concat (map entry_pids es)) e)) \<and>
      mem h = Map.empty \<and> mem s = Map.empty)"
  using wt.leave_law [OF assms, of os g e] wt.clear_law [OF assms, of os e] cg_destroy [OF assms, of os e] by blast

theorem windows_closed_witness:
  "(\<exists>m'. client_groups_mng_on_leave desktop (Some sample_windows) (Some [98]) [] = Some (Some m', [42]) \<and> cg_rel m' [sample_entries ! 0]) \<and>
    (\<exists>m'. client_groups_mng_clear desktop (Some sample_windows) [] = Some (Some m', [40, 41, 42]) \<and> cg_rel m' [])"
  using windows_closed [OF sample_windows_rel, of desktop "[98]" "[]"]
  by (simp add: sample_entries_def entry_of_def untrack_def entry_pids_def desktop_def kills_def)

text \<open>The command that starts a window is never cut off: names and an address within the limits of the protocol fit into the array of 256 bytes.\<close>

lemma window_cmd_whole:
  assumes "length g \<le> CHAT_MAX_GROUPNAME_LEN" "length ip < CHAT_MAX_IP_STR_LEN" "length arg \<le> CHAT_MAX_GROUPNAME_LEN" "0 \<le> q" "q < 2 ^ 31"
    and "role \<in> {''sender'', ''receiver''}"
  shows "snprintf 256 (window_cmd role g ip port q arg) = window_cmd role g ip port q arg"
proof -
  have "unat port < 10 ^ 5" using unsigned_less [of port, where 'a = nat] by simp
  then have p: "length (dec (unat port)) \<le> 5" by (rule length_dec_less) simp
  have "nat q < 10 ^ 10" using assms(4,5) by simp
  then have "length (dec (nat q)) \<le> 10" by (rule length_dec_less) simp
  then have q: "length (dec_int q) \<le> 10" using assms(4) by (simp add: dec_int_def)
  have "length (window_cmd role g ip port q arg) \<le> 255"
    using assms(1-3,6) p q by (auto simp: window_cmd_def bytes_of_def size_defs)
  then show ?thesis by (simp add: snprintf_def)
qed

end
