(* ===== verification/Client_Mng.thy ===== *)
theory Client_Mng
  imports Client_Groups_Mng
begin

text \<open>
  The client manager, \<^verbatim>\<open>client/client_mng.h\<close> and \<^verbatim>\<open>client/client_mng.c\<close>: the connection to the server, the state of the login and the chat
  windows. Each request sends one message, waits for the reply and acts on its status.

  \<open>Session\<close> is the specification: the user who is logged in and the groups with open windows, with a step relation on
  operations and statuses. The lemmas hold for every behaviour of the network and the desktop: each operation returns and is such a step.
\<close>

section \<open>Data\<close>

record ClientMng =
  sockfd :: int
  server_ip :: cstring
  srv_port :: u16
  logged_in :: int
  username :: cstring
  win_groups :: "ClientGroupsMng option"

text \<open>
  The local variables of the requests that the code does not initialise: the message buffer, the length and the status. No byte of the buffer is sent before it
  is written.
\<close>

definition msgBuf :: "byte list option" where
  "msgBuf = Some (replicate CHAT_MAX_MSG_SIZE 0)"

section \<open>Operations\<close>

definition client_mng_create ::
  "('e, 'z) Os_scheme \<Rightarrow> bool \<Rightarrow> cg_alloc \<Rightarrow> cstring option \<Rightarrow> u16 \<Rightarrow> 'e \<Rightarrow> (ClientMng option \<times> 'e) option"
where
  "client_mng_create os ok ca ip port e =
     (if ip = None then Some (None, e)
      else if \<not> ok then Some (None, e)
      else let (fd, e) = client_net_connect os ip port e
      in if fd < 0 then Some (None, e)
      else do {
        (g, e) \<leftarrow> client_groups_mng_create os ca e;
        if g = None then Some (None, client_net_close os fd e)
        else Some (Some \<lparr>sockfd = fd, server_ip = strncpy (CHAT_MAX_IP_STR_LEN - 1) (the ip), srv_port = port, logged_in = 0,
               username = [], win_groups = g\<rparr>, e)
      })"

definition client_mng_destroy ::
  "('e, 'z) Os_scheme \<Rightarrow> ClientMng option option \<Rightarrow> 'e \<Rightarrow>
   (ClientMng option option \<times> (heap \<times> GroupEntry store) option \<times> 'e) option"
where
  "client_mng_destroy os pm e =
     (case pm of
        Some (Some m) \<Rightarrow> do {
          (_, l, e) \<leftarrow> client_groups_mng_destroy os (Some (win_groups m)) e;
          Some (Some None, l, client_net_close os (sockfd m) e)
        }
      | _ \<Rightarrow> Some (pm, None, e))"

text \<open>Sending a request and reading the reply into the same buffer; every failure ends with \<open>ST_ERR_PROTOCOL\<close>.\<close>

definition round_trip ::
  "('e, 'z) Os_scheme \<Rightarrow> ClientMng \<Rightarrow> int \<times> byte list option \<Rightarrow> 'e \<Rightarrow> ((byte list \<times> nat) option \<times> 'e) option"
where
  "round_trip os m rq e =
     (if fst rq < 0 then Some (None, e)
      else do {
        (r, e) \<leftarrow> client_net_send_all os (sockfd m) (snd rq) (nat (fst rq)) e;
        if r \<noteq> 0 then Some (None, e)
        else do {
          (r, b, l, e) \<leftarrow> client_net_recv_msg os (sockfd m) (snd rq) (Some 0) e;
          if r \<noteq> 0 then Some (None, e) else Some (Some (the b, the l), e)
        }})"

definition status_trip ::
  "('e, 'z) Os_scheme \<Rightarrow> ClientMng \<Rightarrow> int \<times> byte list option \<Rightarrow> 'e \<Rightarrow> (ChatStatus \<times> 'e) option"
where
  "status_trip os m rq e = do {
     (rep, e) \<leftarrow> round_trip os m rq e;
     case rep of
       None \<Rightarrow> Some (ST_ERR_PROTOCOL, e)
     | Some (b, rlen) \<Rightarrow> do {
         (r, st) \<leftarrow> chat_decode_status_rep (Some b) rlen (Some ST_OK);
         if r \<noteq> 0 then Some (ST_ERR_PROTOCOL, e) else Some (the st, e)
       }}"

definition do_user_pass ::
  "('e, 'z) Os_scheme \<Rightarrow> ClientMng \<Rightarrow> ChatOpcode \<Rightarrow> cstring option \<Rightarrow> cstring option \<Rightarrow> 'e \<Rightarrow> (ChatStatus \<times> 'e) option"
where
  "do_user_pass os m op user pass e = do {
     rq \<leftarrow> chat_encode_user_pass_req msgBuf op user pass;
     status_trip os m rq e
   }"

definition client_mng_register ::
  "('e, 'z) Os_scheme \<Rightarrow> ClientMng option \<Rightarrow> cstring option \<Rightarrow> cstring option \<Rightarrow> 'e \<Rightarrow> (ChatStatus \<times> ClientMng option \<times> 'e) option"
where
  "client_mng_register os pm user pass e =
     (if pm = None \<or> user = None \<or> pass = None then Some (ST_ERR_PROTOCOL, pm, e)
      else do {
        (status, e) \<leftarrow> do_user_pass os (the pm) OP_REG_REQ user pass e;
        Some (status, pm, e)
      })"

definition client_mng_login ::
  "('e, 'z) Os_scheme \<Rightarrow> ClientMng option \<Rightarrow> cstring option \<Rightarrow> cstring option \<Rightarrow> 'e \<Rightarrow> (ChatStatus \<times> ClientMng option \<times> 'e) option"
where
  "client_mng_login os pm user pass e =
     (if pm = None \<or> user = None \<or> pass = None then Some (ST_ERR_PROTOCOL, pm, e)
      else do {
        (status, e) \<leftarrow> do_user_pass os (the pm) OP_LOGIN_REQ user pass e;
        if status = ST_OK
        then Some (status, Some ((the pm)\<lparr>logged_in := 1, username := strncpy CHAT_MAX_USERNAME_LEN (the user)\<rparr>), e)
        else Some (status, pm, e)
      })"

definition client_mng_logout :: "('e, 'z) Os_scheme \<Rightarrow> ClientMng option \<Rightarrow> 'e \<Rightarrow> (ChatStatus \<times> ClientMng option \<times> 'e) option" where
  "client_mng_logout os pm e =
     (if pm = None then Some (ST_ERR_PROTOCOL, pm, e)
      else let m = the pm in do {
        rq \<leftarrow> chat_encode_logout_req msgBuf;
        (status, e) \<leftarrow> status_trip os m rq e;
        if status = ST_OK
        then do {
          (g, e) \<leftarrow> client_groups_mng_clear os (win_groups m) e;
          Some (status, Some (m\<lparr>win_groups := g, logged_in := 0, username := []\<rparr>), e)
        }
        else Some (status, pm, e)
      })"

definition do_group_join ::
  "('e, 'z) Os_scheme \<Rightarrow> ClientMng \<Rightarrow> ChatOpcode \<Rightarrow> cstring option \<Rightarrow> byte list option \<Rightarrow> u16 option \<Rightarrow> 'e \<Rightarrow>
   (ChatStatus \<times> byte list option \<times> u16 option \<times> 'e) option"
where
  "do_group_join os m op grp out_ip out_port e = do {
     rq \<leftarrow> chat_encode_groupname_req msgBuf op grp;
     (rep, e) \<leftarrow> round_trip os m rq e;
     case rep of
       None \<Rightarrow> Some (ST_ERR_PROTOCOL, out_ip, out_port, e)
     | Some (b, rlen) \<Rightarrow> do {
         (r, st, out_ip, out_port) \<leftarrow> chat_decode_group_rep_ok (Some b) rlen (Some ST_OK) out_ip out_port;
         if r \<noteq> 0 then Some (ST_ERR_PROTOCOL, out_ip, out_port, e) else Some (the st, out_ip, out_port, e)
       }}"

text \<open>The common body of \<open>client_mng_create_group\<close> and \<open>client_mng_join_group\<close>, which differ in the opcode.\<close>

definition group_request ::
  "('e, 'z) Os_scheme \<Rightarrow> ChatOpcode \<Rightarrow> ClientMng option \<Rightarrow> cstring option \<Rightarrow> byte list option \<Rightarrow> u16 option \<Rightarrow> 'e \<Rightarrow>
   (ChatStatus \<times> byte list option \<times> u16 option \<times> ClientMng option \<times> 'e) option"
where
  "group_request os op pm grp out_ip out_port e =
     (if pm = None \<or> grp = None \<or> out_ip = None \<or> out_port = None then Some (ST_ERR_PROTOCOL, out_ip, out_port, pm, e)
      else let m = the pm in do {
        (status, out_ip, out_port, e) \<leftarrow> do_group_join os m op grp out_ip out_port e;
        if status = ST_OK
        then do {
          ip \<leftarrow> cstr (the out_ip);
          (_, g, e) \<leftarrow> client_groups_mng_on_join os (win_groups m) grp (Some ip) (the out_port) (Some (username m)) e;
          Some (status, out_ip, out_port, Some (m\<lparr>win_groups := g\<rparr>), e)
        }
        else Some (status, out_ip, out_port, pm, e)
      })"

definition client_mng_create_group ::
  "('e, 'z) Os_scheme \<Rightarrow> ClientMng option \<Rightarrow> cstring option \<Rightarrow> byte list option \<Rightarrow> u16 option \<Rightarrow> 'e \<Rightarrow>
   (ChatStatus \<times> byte list option \<times> u16 option \<times> ClientMng option \<times> 'e) option"
where
  "client_mng_create_group os = group_request os OP_CREATE_GROUP_REQ"

definition client_mng_join_group ::
  "('e, 'z) Os_scheme \<Rightarrow> ClientMng option \<Rightarrow> cstring option \<Rightarrow> byte list option \<Rightarrow> u16 option \<Rightarrow> 'e \<Rightarrow>
   (ChatStatus \<times> byte list option \<times> u16 option \<times> ClientMng option \<times> 'e) option"
where
  "client_mng_join_group os = group_request os OP_JOIN_GROUP_REQ"

definition client_mng_leave_group ::
  "('e, 'z) Os_scheme \<Rightarrow> ClientMng option \<Rightarrow> cstring option \<Rightarrow> 'e \<Rightarrow> (ChatStatus \<times> ClientMng option \<times> 'e) option"
where
  "client_mng_leave_group os pm grp e =
     (if pm = None \<or> grp = None then Some (ST_ERR_PROTOCOL, pm, e)
      else let m = the pm in do {
        rq \<leftarrow> chat_encode_groupname_req msgBuf OP_LEAVE_GROUP_REQ grp;
        (status, e) \<leftarrow> status_trip os m rq e;
        if status = ST_OK
        then do {
          (g, e) \<leftarrow> client_groups_mng_on_leave os (win_groups m) grp e;
          Some (status, Some (m\<lparr>win_groups := g\<rparr>), e)
        }
        else Some (status, pm, e)
      })"

definition client_mng_is_logged_in :: "ClientMng option \<Rightarrow> int" where
  "client_mng_is_logged_in pm = (case pm of None \<Rightarrow> 0 | Some m \<Rightarrow> logged_in m)"

definition client_mng_username :: "ClientMng option \<Rightarrow> cstring" where
  "client_mng_username pm = (case pm of None \<Rightarrow> [] | Some m \<Rightarrow> username m)"

section \<open>Sessions\<close>

datatype ClientOp =
    DoRegister cstring cstring
  | DoLogin cstring cstring
  | DoLogout
  | DoCreate cstring
  | DoJoin cstring
  | DoLeave cstring

text \<open>The arguments of an operation are C strings.\<close>

fun op_strings :: "ClientOp \<Rightarrow> cstring list" where
  "op_strings (DoRegister u p) = [u, p]"
| "op_strings (DoLogin u p) = [u, p]"
| "op_strings DoLogout = []"
| "op_strings (DoCreate g) = [g]"
| "op_strings (DoJoin g) = [g]"
| "op_strings (DoLeave g) = [g]"

definition wf_op :: "ClientOp \<Rightarrow> bool" where
  "wf_op op \<longleftrightarrow> (\<forall>s \<in> set (op_strings op). wf_cstring s)"

text \<open>An operation of the manager; \<open>ip\<close> and \<open>port\<close> are the contents of the output variables of the caller before the call.\<close>

definition client_op ::
  "('e, 'z) Os_scheme \<Rightarrow> byte list \<Rightarrow> u16 \<Rightarrow> ClientOp \<Rightarrow> ClientMng option \<Rightarrow> 'e \<Rightarrow> (ChatStatus \<times> ClientMng option \<times> 'e) option"
where
  "client_op os ip port op pm e =
     (case op of
        DoRegister u p \<Rightarrow> client_mng_register os pm (Some u) (Some p) e
      | DoLogin u p \<Rightarrow> client_mng_login os pm (Some u) (Some p) e
      | DoLogout \<Rightarrow> client_mng_logout os pm e
      | DoCreate g \<Rightarrow> do { (st, _, _, pm, e) \<leftarrow> client_mng_create_group os pm (Some g) (Some ip) (Some port) e; Some (st, pm, e) }
      | DoJoin g \<Rightarrow> do { (st, _, _, pm, e) \<leftarrow> client_mng_join_group os pm (Some g) (Some ip) (Some port) e; Some (st, pm, e) }
      | DoLeave g \<Rightarrow> client_mng_leave_group os pm (Some g) e)"

record Session =
  s_user :: "cstring option"
  s_windows :: "cstring list"

inductive session_step :: "ClientOp \<Rightarrow> ChatStatus \<Rightarrow> Session \<Rightarrow> Session \<Rightarrow> bool" where
  refused: "st \<noteq> ST_OK \<Longrightarrow> session_step op st S S"
| registered: "session_step (DoRegister u p) ST_OK S S"
| logs_in: "session_step (DoLogin u p) ST_OK S (S\<lparr>s_user := Some u\<rparr>)"
| logs_out: "session_step DoLogout ST_OK S \<lparr>s_user = None, s_windows = []\<rparr>"
| opens: "op \<in> {DoCreate g, DoJoin g} \<Longrightarrow> g \<notin> set (s_windows S) \<Longrightarrow>
    session_step op ST_OK S (S\<lparr>s_windows := s_windows S @ [g]\<rparr>)"
| no_window: "op \<in> {DoCreate g, DoJoin g} \<Longrightarrow> session_step op ST_OK S S"
| leaves: "session_step (DoLeave g) ST_OK S (S\<lparr>s_windows := filter (\<lambda>h. h \<noteq> g) (s_windows S)\<rparr>)"

definition cm_rel :: "ClientMng \<Rightarrow> Session \<Rightarrow> bool" where
  "cm_rel m S \<longleftrightarrow> 0 \<le> sockfd m \<and>
     (if logged_in m = 0 then s_user S = None \<and> username m = []
      else logged_in m = 1 \<and> s_user S = Some (username m) \<and> length (username m) \<le> CHAT_MAX_USERNAME_LEN) \<and>
     (\<exists>g. win_groups m = Some g \<and> wt.windows g (s_windows S))"

subsection \<open>Requests and replies\<close>

text \<open>The message of an operation, \<open>None\<close> when a string is too long, and what the encoders leave for it.\<close>

fun op_frame :: "ClientOp \<Rightarrow> byte list option" where
  "op_frame (DoRegister u p) = (if length u \<le> CHAT_MAX_USERNAME_LEN \<and> length p \<le> CHAT_MAX_PASSWORD_LEN
     then Some (frame OP_REG_REQ (field u @ field p)) else None)"
| "op_frame (DoLogin u p) = (if length u \<le> CHAT_MAX_USERNAME_LEN \<and> length p \<le> CHAT_MAX_PASSWORD_LEN
     then Some (frame OP_LOGIN_REQ (field u @ field p)) else None)"
| "op_frame DoLogout = Some (frame OP_LOGOUT_REQ [])"
| "op_frame (DoCreate g) = (if length g \<le> CHAT_MAX_GROUPNAME_LEN then Some (frame OP_CREATE_GROUP_REQ (field g)) else None)"
| "op_frame (DoJoin g) = (if length g \<le> CHAT_MAX_GROUPNAME_LEN then Some (frame OP_JOIN_GROUP_REQ (field g)) else None)"
| "op_frame (DoLeave g) = (if length g \<le> CHAT_MAX_GROUPNAME_LEN then Some (frame OP_LEAVE_GROUP_REQ (field g)) else None)"

definition encoded :: "byte list option \<Rightarrow> int \<times> byte list option" where
  "encoded fr = (case fr of None \<Rightarrow> (- 1, msgBuf) | Some f \<Rightarrow> (int (length f), Some (built f (the msgBuf))))"

lemma msgBuf_length: "msgBuf = Some (the msgBuf)" "length (the msgBuf) = CHAT_MAX_MSG_SIZE"
  by (simp_all add: msgBuf_def)

lemma encoded_requests:
  "chat_encode_user_pass_req msgBuf OP_REG_REQ (Some u) (Some p) = Some (encoded (op_frame (DoRegister u p)))"
  "chat_encode_user_pass_req msgBuf OP_LOGIN_REQ (Some u) (Some p) = Some (encoded (op_frame (DoLogin u p)))"
  "chat_encode_logout_req msgBuf = Some (encoded (op_frame DoLogout))"
  "chat_encode_groupname_req msgBuf OP_CREATE_GROUP_REQ (Some g) = Some (encoded (op_frame (DoCreate g)))"
  "chat_encode_groupname_req msgBuf OP_JOIN_GROUP_REQ (Some g) = Some (encoded (op_frame (DoJoin g)))"
  "chat_encode_groupname_req msgBuf OP_LEAVE_GROUP_REQ (Some g) = Some (encoded (op_frame (DoLeave g)))"
proof -
  have L: "CHAT_MAX_MSG_SIZE \<le> length (the msgBuf)" by (simp add: msgBuf_def)
  have u: "chat_encode_user_pass_req msgBuf op (Some u) (Some p) =
      Some (encoded (if length u \<le> CHAT_MAX_USERNAME_LEN \<and> length p \<le> CHAT_MAX_PASSWORD_LEN
        then Some (frame op (field u @ field p)) else None))" for op
  proof (cases "length u \<le> CHAT_MAX_USERNAME_LEN \<and> length p \<le> CHAT_MAX_PASSWORD_LEN")
    case True
    then show ?thesis using encode_user_pass_layout [OF L, of u p op] msgBuf_length(1) by (simp add: encoded_def)
  qed (auto simp: encoded_def chat_encode_user_pass_req_def Let_def)
  have g: "chat_encode_groupname_req msgBuf op (Some g) =
      Some (encoded (if length g \<le> CHAT_MAX_GROUPNAME_LEN then Some (frame op (field g)) else None))" for op
  proof (cases "length g \<le> CHAT_MAX_GROUPNAME_LEN")
    case True
    then show ?thesis using encode_groupname_layout [OF L, of g op] msgBuf_length(1) by (simp add: encoded_def)
  qed (auto simp: encoded_def chat_encode_groupname_req_def Let_def)
  show "chat_encode_logout_req msgBuf = Some (encoded (op_frame DoLogout))"
    using encode_logout_layout [OF L] msgBuf_length(1) by (simp add: encoded_def)
  show "chat_encode_user_pass_req msgBuf OP_REG_REQ (Some u) (Some p) = Some (encoded (op_frame (DoRegister u p)))"
    "chat_encode_user_pass_req msgBuf OP_LOGIN_REQ (Some u) (Some p) = Some (encoded (op_frame (DoLogin u p)))"
    unfolding op_frame.simps by (rule u)+
  show "chat_encode_groupname_req msgBuf OP_CREATE_GROUP_REQ (Some g) = Some (encoded (op_frame (DoCreate g)))"
    "chat_encode_groupname_req msgBuf OP_JOIN_GROUP_REQ (Some g) = Some (encoded (op_frame (DoJoin g)))"
    "chat_encode_groupname_req msgBuf OP_LEAVE_GROUP_REQ (Some g) = Some (encoded (op_frame (DoLeave g)))"
    unfolding op_frame.simps by (rule g)+
qed

lemma op_frame_length: "op_frame op = Some fr \<Longrightarrow> length fr \<le> CHAT_MAX_MSG_SIZE"
  by (cases op) (auto simp: size_defs split: if_splits)

text \<open>The status of a reply, as the decoders read it. The second part is the address, for the two operations that get one.\<close>

definition parse_status_rep :: "byte list \<Rightarrow> ChatStatus option" where
  "parse_status_rep fr = (if length fr < 3 \<or> fr ! 1 \<noteq> 1 then None else Some (status_of (fr ! 2)))"

fun group_op :: "ClientOp \<Rightarrow> bool" where
  "group_op (DoCreate g) = True"
| "group_op (DoJoin g) = True"
| "group_op _ = False"

definition reply_status :: "ClientOp \<Rightarrow> (byte list \<times> nat) option \<Rightarrow> ChatStatus" where
  "reply_status op rep =
     (case rep of
        None \<Rightarrow> ST_ERR_PROTOCOL
      | Some (b, n) \<Rightarrow>
          (case if group_op op then map_option fst (parse_group_rep (take n b)) else parse_status_rep (take n b) of
             None \<Rightarrow> ST_ERR_PROTOCOL
           | Some st \<Rightarrow> st))"

definition reply_fits :: "(byte list \<times> nat) option \<Rightarrow> bool" where
  "reply_fits rep \<longleftrightarrow> (case rep of None \<Rightarrow> True | Some (b, n) \<Rightarrow> n \<le> length b)"

lemma decode_status_ref:
  "n \<le> length b \<Longrightarrow> chat_decode_status_rep (Some b) n (Some st0) =
    (case parse_status_rep (take n b) of None \<Rightarrow> Some (- 1, Some st0) | Some st \<Rightarrow> Some (0, Some st))"
  by (auto simp: chat_decode_status_rep_def parse_status_rep_def rd_def)

lemma status_trip_reply:
  assumes "round_trip os m rq e = Some (rep, e')" "reply_fits rep" "\<not> group_op op"
  shows "status_trip os m rq e = Some (reply_status op rep, e')"
  using assms
  by (auto simp: status_trip_def reply_status_def reply_fits_def decode_status_ref split: option.splits)

lemma group_join_reply:
  assumes "chat_encode_groupname_req msgBuf rop (Some g) = Some rq" "round_trip os m rq e = Some (rep, e')" "reply_fits rep" "group_op op"
    and "CHAT_MAX_IP_STR_LEN \<le> length ip"
  shows "\<exists>ip' port'. do_group_join os m rop (Some g) (Some ip) (Some port) e = Some (reply_status op rep, Some ip', Some port', e') \<and>
    (reply_status op rep = ST_OK \<longrightarrow> (\<exists>a. cstr ip' = Some a))"
proof (cases rep)
  case None
  then show ?thesis using assms(1,2) by (simp add: do_group_join_def reply_status_def)
next
  case (Some p)
  then obtain b n where rep: "rep = Some (b, n)" "n \<le> length b" using assms(3) by (cases p) (auto simp: reply_fits_def)
  note D = decode_group_rep_ref [OF rep(2) assms(5), of ST_OK port]
  show ?thesis
  proof (cases "parse_group_rep (take n b)")
    case None
    then show ?thesis using D assms(1,2,4) rep(1) by (auto simp: do_group_join_def reply_status_def)
  next
    case (Some t)
    obtain st a pt where t: "t = (st, a, pt)" by (cases t)
    have "cstr (a @ 0 # drop (Suc (length a)) ip) = Some (takeWhile (\<lambda>c. c \<noteq> 0) a)" by (rule cstr_prefix)
    then show ?thesis using D Some t assms(1,2,4) rep(1) by (auto simp: do_group_join_def reply_status_def)
  qed
qed

text \<open>The exchange of messages, in every world.\<close>

lemma round_trip_total:
  assumes "recv_bounded os" "\<And>f. fr = Some f \<Longrightarrow> length f \<le> CHAT_MAX_MSG_SIZE"
  shows "\<exists>rep e'. round_trip os m (encoded fr) e = Some (rep, e') \<and> reply_fits rep \<and> (fr = None \<longrightarrow> rep = None)"
proof (cases fr)
  case None
  then show ?thesis by (simp add: round_trip_def encoded_def reply_fits_def)
next
  case (Some f)
  let ?b = "built f (the msgBuf)"
  have L: "length ?b = CHAT_MAX_MSG_SIZE" using assms(2) [OF Some] msgBuf_length(2) by (simp add: length_built)
  then have "CHAT_MAX_MSG_SIZE \<le> length ?b" "length f \<le> length ?b" using assms(2) [OF Some] by simp_all
  note X = client_transport [OF assms(1) this, of "sockfd m"]
  obtain r e1 where s: "client_net_send_all os (sockfd m) (Some ?b) (length f) e = Some (r, e1)"
    using X(1) [of e] by blast
  obtain r' b' n e2 where "client_net_recv_msg os (sockfd m) (Some ?b) (Some 0) e1 = Some (r', Some b', Some n, e2)" "length b' = length ?b"
      "r' = - 1 \<and> n = 0 \<or> r' = 0 \<and> n = 2 + unat (b' ! 1) \<and> n \<le> CHAT_MAX_MSG_SIZE \<and> drop n b' = drop n ?b"
    using X(2) [of 0 e1] by blast
  then show ?thesis using s Some L by (auto simp: round_trip_def encoded_def reply_fits_def)
qed

lemma round_trip_inv:
  assumes I: "wire_inv os P" and e: "P e" and rt: "round_trip os m rq e = Some (rep, e')"
  shows "P e'"
proof (cases "fst rq < 0")
  case False
  then obtain r e1 where s: "client_net_send_all os (sockfd m) (snd rq) (nat (fst rq)) e = Some (r, e1)"
    using rt by (auto simp: round_trip_def split: bind_splits)
  have e1: "P e1" by (rule transport_inv(1) [OF I e s])
  show ?thesis
    using rt False s e1 by (auto simp: round_trip_def split: if_splits bind_splits dest!: transport_inv(2) [OF I e1])
qed (use rt e in \<open>simp add: round_trip_def\<close>)

subsection \<open>Every operation is a step of the session\<close>

text \<open>A property of the world that the commands, messages and signals of the desktop do not change.\<close>

definition desk_inv :: "('e, 'z) Os_scheme \<Rightarrow> ('e \<Rightarrow> bool) \<Rightarrow> bool" where
  "desk_inv os P \<longleftrightarrow> (\<forall>e. P e \<longrightarrow> (\<forall>c. P (snd (sys_system os c e))) \<and> (\<forall>q t. P (snd (sys_msgrcv os q t e))) \<and> (\<forall>p. P (sys_kill os p e)))"

lemma desk_invD:
  assumes "desk_inv os P" "P e"
  shows "P (snd (sys_system os c e))" "P (snd (sys_msgrcv os q t e))" "P (sys_kill os p e)"
  using assms by (auto simp: desk_inv_def)

lemma desk_kills: "desk_inv os P \<Longrightarrow> P e \<Longrightarrow> P (kills os ps e)"
  by (induction ps arbitrary: e) (auto simp: desk_invD)

lemma desk_open: "desk_inv os P \<Longrightarrow> P e \<Longrightarrow> P (snd (open_windows os q g ip port u e))"
  using desk_invD(1) [of os P] by (auto simp: open_windows_def split: prod.splits) (metis snd_conv)+

lemma desk_pids: "desk_inv os P \<Longrightarrow> P e \<Longrightarrow> P (snd (snd (child_pids os q e)))"
  using desk_invD(2) [of os P]
  by (auto simp: child_pids_def recv_child_pid_def split: prod.splits option.splits) (metis snd_conv)+

lemma desk_join:
  assumes "wt.windows m gs" "desk_inv os P" "P e"
    and "client_groups_mng_on_join os (Some m) (Some g) (Some ip) port (Some u) e = Some (r, m', e')"
  shows "P e'"
proof -
  obtain es where es: "cg_rel m es" using assms(1) by (auto simp: wt.windows_def)
  obtain opened e1 where w: "open_windows os (msqid m) g ip port u e = (opened, e1)" by fastforce
  obtain sp rp e2 where c: "child_pids os (msqid m) e1 = (sp, rp, e2)" by (metis prod_cases3)
  have "P e1" using desk_open [OF assms(2,3), of "msqid m" g ip port u] w by simp
  moreover from this have "P e2" using desk_pids [OF assms(2), of e1 "msqid m"] c by simp
  ultimately show ?thesis
    using cg_join [OF es w c] assms(3,4) desk_kills [OF assms(2), of e2] by (auto simp: Let_def split: if_splits)
qed

lemma desk_leave:
  assumes "wt.windows m gs" "desk_inv os P" "P e" "client_groups_mng_on_leave os (Some m) (Some g) e = Some (m', e')"
  shows "P e'"
proof -
  obtain es where "cg_rel m es" using assms(1) by (auto simp: wt.windows_def)
  then show ?thesis using wt.leave_law [of m es os g e] assms(4) desk_kills [OF assms(2,3)] by auto
qed

lemma desk_clear:
  assumes "wt.windows m gs" "desk_inv os P" "P e" "client_groups_mng_clear os (Some m) e = Some (m', e')"
  shows "P e'"
proof -
  obtain es where "cg_rel m es" using assms(1) by (auto simp: wt.windows_def)
  then show ?thesis using wt.clear_law [of m es os e] assms(4) desk_kills [OF assms(2,3)] by auto
qed

text \<open>Two shapes of operations: a status reply, or a reply with an address.\<close>

lemma group_request_step:
  assumes R: "cm_rel m S" and g: "length g \<le> CHAT_MAX_GROUPNAME_LEN \<or> rep = None" and op: "op \<in> {DoCreate g, DoJoin g}"
    and enc: "chat_encode_groupname_req msgBuf rop (Some g) = Some rq" and trip: "round_trip os m rq e = Some (rep, e1)" "reply_fits rep"
    and ip: "CHAT_MAX_IP_STR_LEN \<le> length ip"
  shows "\<exists>ip' port' m' e' S'. group_request os rop (Some m) (Some g) (Some ip) (Some port) e =
      Some (reply_status op rep, Some ip', Some port', Some m', e') \<and> sockfd m' = sockfd m \<and>
    session_step op (reply_status op rep) S S' \<and> cm_rel m' S' \<and> (\<forall>P. desk_inv os P \<longrightarrow> P e1 \<longrightarrow> P e')"
proof -
  have gop: "group_op op" using op by auto
  obtain ip' port' where j: "do_group_join os m rop (Some g) (Some ip) (Some port) e = Some (reply_status op rep, Some ip', Some port', e1)"
      "reply_status op rep = ST_OK \<longrightarrow> (\<exists>a. cstr ip' = Some a)"
    using group_join_reply [OF enc trip gop ip] by blast
  show ?thesis
  proof (cases "reply_status op rep = ST_OK")
    case False
    then show ?thesis
      using j(1) R refused [OF False, of op S] by (intro exI [of _ ip'] exI [of _ port'] exI [of _ m] exI [of _ e1] exI [of _ S]) (simp add: group_request_def)
  next
    case True
    then have "length g \<le> CHAT_MAX_GROUPNAME_LEN" using g by (auto simp: reply_status_def)
    obtain a where a: "cstr ip' = Some a" using j(2) True by blast
    obtain w where w: "win_groups m = Some w" "wt.windows w (s_windows S)" using R by (auto simp: cm_rel_def)
    obtain r w' e' where jn: "client_groups_mng_on_join os (Some w) (Some g) (Some a) port' (Some (username m)) e1 = Some (r, Some w', e')"
        "r = 0 \<and> g \<notin> set (s_windows S) \<and> wt.windows w' (s_windows S @ [g]) \<or> r = - 1 \<and> wt.windows w' (s_windows S)"
      using wt.windows_join [OF w(2) \<open>length g \<le> CHAT_MAX_GROUPNAME_LEN\<close>, of os a port' "username m" e1] by blast
    let ?m = "m\<lparr>win_groups := Some w'\<rparr>"
    obtain S' where S': "session_step op ST_OK S S'" "cm_rel ?m S'"
    proof -
      from jn(2) consider "g \<notin> set (s_windows S)" "wt.windows w' (s_windows S @ [g])" | "wt.windows w' (s_windows S)" by blast
      then show thesis
      proof cases
        case 1
        then have "cm_rel ?m (S\<lparr>s_windows := s_windows S @ [g]\<rparr>)" using R by (simp add: cm_rel_def)
        then show thesis by (rule that [OF opens [OF op 1(1)]])
      next
        case 2
        then have "cm_rel ?m S" using R by (simp add: cm_rel_def)
        then show thesis by (rule that [OF no_window [OF op]])
      qed
    qed
    have "group_request os rop (Some m) (Some g) (Some ip) (Some port) e = Some (ST_OK, Some ip', Some port', Some ?m, e')"
      using j(1) True a w(1) jn(1) by (simp add: group_request_def)
    moreover have "\<forall>P. desk_inv os P \<longrightarrow> P e1 \<longrightarrow> P e'" using desk_join [OF w(2) _ _ jn(1)] by blast
    ultimately show ?thesis using True S' by (intro exI [of _ ip'] exI [of _ port'] exI [of _ ?m] exI [of _ e'] exI [of _ S']) simp
  qed
qed

lemma client_op_outcome:
  assumes R: "cm_rel m S" and trip: "round_trip os m (encoded (op_frame op)) e = Some (rep, e1)" "reply_fits rep"
    and none: "op_frame op = None \<longrightarrow> rep = None" and ip: "CHAT_MAX_IP_STR_LEN \<le> length ip"
  shows "\<exists>m' e' S'. client_op os ip port op (Some m) e = Some (reply_status op rep, Some m', e') \<and> sockfd m' = sockfd m \<and>
    session_step op (reply_status op rep) S S' \<and> cm_rel m' S' \<and> (\<forall>P. desk_inv os P \<longrightarrow> P e1 \<longrightarrow> P e')"
proof -
  obtain w where w: "win_groups m = Some w" "wt.windows w (s_windows S)" using R by (auto simp: cm_rel_def)
  let ?st = "reply_status op rep"
  have st: "status_trip os m (encoded (op_frame op)) e = Some (?st, e1)" if "\<not> group_op op"
    using status_trip_reply [OF trip that] .
  have bad: "\<exists>m' e' S'. Some (?st, Some m, e1) = Some (?st, Some m', e') \<and> sockfd m' = sockfd m \<and> session_step op ?st S S' \<and>
      cm_rel m' S' \<and> (\<forall>P. desk_inv os P \<longrightarrow> P e1 \<longrightarrow> P e')" if "?st \<noteq> ST_OK"
    using R refused [OF that, of op S] by blast
  have fits: "op_frame op \<noteq> None" if "?st = ST_OK" using that none by (cases "op_frame op") (auto simp: reply_status_def)
  show ?thesis
  proof (cases op)
    case (DoRegister u p)
    have "client_op os ip port op (Some m) e = Some (?st, Some m, e1)"
      using st encoded_requests(1) [of u p] DoRegister by (simp add: client_op_def client_mng_register_def do_user_pass_def)
    then show ?thesis using bad R registered [of u p S] DoRegister by (cases "?st = ST_OK") auto
  next
    case (DoLogin u p)
    have c: "client_op os ip port op (Some m) e =
        (if ?st = ST_OK then Some (?st, Some (m\<lparr>logged_in := 1, username := strncpy CHAT_MAX_USERNAME_LEN u\<rparr>), e1) else Some (?st, Some m, e1))"
      using st encoded_requests(2) [of u p] DoLogin by (simp add: client_op_def client_mng_login_def do_user_pass_def)
    show ?thesis
    proof (cases "?st = ST_OK")
      case True
      then have "length u \<le> CHAT_MAX_USERNAME_LEN" using fits DoLogin by (auto split: if_splits)
      then have "cm_rel (m\<lparr>logged_in := 1, username := strncpy CHAT_MAX_USERNAME_LEN u\<rparr>) (S\<lparr>s_user := Some u\<rparr>)"
        using R by (simp add: cm_rel_def)
      then show ?thesis using True c logs_in [of u p S] DoLogin by auto
    qed (use c bad in simp)
  next
    case DoLogout
    obtain w' e' where cl: "client_groups_mng_clear os (Some w) e1 = Some (Some w', e')" "wt.windows w' []"
      using wt.windows_clear [OF w(2), of os e1] by blast
    have c: "client_op os ip port op (Some m) e =
        (if ?st = ST_OK then Some (?st, Some (m\<lparr>win_groups := Some w', logged_in := 0, username := []\<rparr>), e') else Some (?st, Some m, e1))"
      using st encoded_requests(3) DoLogout w(1) cl by (simp add: client_op_def client_mng_logout_def)
    show ?thesis
    proof (cases "?st = ST_OK")
      case True
      have "cm_rel (m\<lparr>win_groups := Some w', logged_in := 0, username := []\<rparr>) \<lparr>s_user = None, s_windows = []\<rparr>"
        using R cl(2) by (simp add: cm_rel_def)
      moreover have "\<forall>P. desk_inv os P \<longrightarrow> P e1 \<longrightarrow> P e'" using desk_clear [OF w(2) _ _ cl(1)] by blast
      ultimately show ?thesis using True c logs_out [of S] DoLogout by auto
    qed (use c bad in simp)
  next
    case (DoCreate g)
    have "length g \<le> CHAT_MAX_GROUPNAME_LEN \<or> rep = None" using none DoCreate by (cases "length g \<le> CHAT_MAX_GROUPNAME_LEN") auto
    note X = group_request_step [OF R this _ encoded_requests(4) [of g] trip [unfolded DoCreate] ip, of op port]
    then show ?thesis using DoCreate by (fastforce simp: client_op_def client_mng_create_group_def)
  next
    case (DoJoin g)
    have "length g \<le> CHAT_MAX_GROUPNAME_LEN \<or> rep = None" using none DoJoin by (cases "length g \<le> CHAT_MAX_GROUPNAME_LEN") auto
    note X = group_request_step [OF R this _ encoded_requests(5) [of g] trip [unfolded DoJoin] ip, of op port]
    then show ?thesis using DoJoin by (fastforce simp: client_op_def client_mng_join_group_def)
  next
    case (DoLeave g)
    obtain w' e' where lv: "client_groups_mng_on_leave os (Some w) (Some g) e1 = Some (Some w', e')"
        "wt.windows w' (filter (\<lambda>h. h \<noteq> g) (s_windows S))"
      using wt.windows_leave [OF w(2), of os g e1] by blast
    have c: "client_op os ip port op (Some m) e =
        (if ?st = ST_OK then Some (?st, Some (m\<lparr>win_groups := Some w'\<rparr>), e') else Some (?st, Some m, e1))"
      using st encoded_requests(6) [of g] DoLeave w(1) lv by (simp add: client_op_def client_mng_leave_group_def)
    show ?thesis
    proof (cases "?st = ST_OK")
      case True
      have "cm_rel (m\<lparr>win_groups := Some w'\<rparr>) (S\<lparr>s_windows := filter (\<lambda>h. h \<noteq> g) (s_windows S)\<rparr>)"
        using R lv(2) by (simp add: cm_rel_def)
      moreover have "\<forall>P. desk_inv os P \<longrightarrow> P e1 \<longrightarrow> P e'" using desk_leave [OF w(2) _ _ lv(1)] by blast
      ultimately show ?thesis using True c leaves [of g S] DoLeave by auto
    qed (use c bad in simp)
  qed
qed

lemma client_op_desk:
  assumes R: "cm_rel m S" and trip: "round_trip os m (encoded (op_frame op)) e = Some (rep, e1)" "reply_fits rep"
    and none: "op_frame op = None \<longrightarrow> rep = None" and ip: "CHAT_MAX_IP_STR_LEN \<le> length ip" and P: "desk_inv os P" "P e1"
  obtains m' e' S' where "client_op os ip port op (Some m) e = Some (reply_status op rep, Some m', e')" "sockfd m' = sockfd m"
    "session_step op (reply_status op rep) S S'" "cm_rel m' S'" "P e'"
proof -
  note X = client_op_outcome [OF R trip none ip, of port]
  show thesis using X
  proof (elim exE conjE)
    fix m' e' S'
    assume a: "client_op os ip port op (Some m) e = Some (reply_status op rep, Some m', e')" "sockfd m' = sockfd m"
      "session_step op (reply_status op rep) S S'" "cm_rel m' S'" and all: "\<forall>P. desk_inv os P \<longrightarrow> P e1 \<longrightarrow> P e'"
    have "P e'" using all [rule_format, OF P] .
    then show thesis by (rule that [OF a])
  qed
qed

lemma client_op_total:
  assumes "recv_bounded os" "cm_rel m S" "CHAT_MAX_IP_STR_LEN \<le> length ip"
  shows "\<exists>st m' e' S'. client_op os ip port op (Some m) e = Some (st, Some m', e') \<and> sockfd m' = sockfd m \<and>
    session_step op st S S' \<and> cm_rel m' S' \<and> (op_frame op = None \<longrightarrow> st = ST_ERR_PROTOCOL) \<and>
    (\<forall>P. desk_inv os P \<longrightarrow> wire_inv os P \<longrightarrow> P e \<longrightarrow> P e')"
proof -
  obtain rep e1 where trip: "round_trip os m (encoded (op_frame op)) e = Some (rep, e1)" "reply_fits rep" "op_frame op = None \<longrightarrow> rep = None"
    using round_trip_total [OF assms(1), of "op_frame op" m e] op_frame_length [of op] by metis
  have P: "wire_inv os P \<longrightarrow> P e \<longrightarrow> P e1" for P using round_trip_inv [OF _ _ trip(1)] by blast
  note X = client_op_outcome [OF assms(2) trip assms(3), of port]
  then show ?thesis
  proof (elim exE conjE)
    fix m' e' S'
    assume a: "client_op os ip port op (Some m) e = Some (reply_status op rep, Some m', e')" "sockfd m' = sockfd m"
      "session_step op (reply_status op rep) S S'" "cm_rel m' S'" and all: "\<forall>P. desk_inv os P \<longrightarrow> P e1 \<longrightarrow> P e'"
    have "\<forall>P. desk_inv os P \<longrightarrow> wire_inv os P \<longrightarrow> P e \<longrightarrow> P e'" using all P by blast
    moreover have "op_frame op = None \<longrightarrow> reply_status op rep = ST_ERR_PROTOCOL" using trip(3) by (simp add: reply_status_def)
    ultimately show ?thesis
      using a by (intro exI [of _ "reply_status op rep"] exI [of _ m'] exI [of _ e'] exI [of _ S']) simp
  qed
qed

section \<open>Correctness of the client manager\<close>


text \<open>The descriptors that are open in a world, as far as the calls of the client change them.\<close>

definition tracks_fds :: "('e, 'z) Os_scheme \<Rightarrow> ('e \<Rightarrow> int set) \<Rightarrow> bool" where
  "tracks_fds os fds \<longleftrightarrow>
     (\<forall>e fd e'. sys_socket os e = (fd, e') \<longrightarrow> (if fd < 0 then fds e' = fds e else fd \<notin> fds e \<and> fds e' = insert fd (fds e))) \<and>
     (\<forall>fd e. fds (sys_close os fd e) = fds e - {fd}) \<and>
     (\<forall>fd ip port e. fds (snd (sys_connect os fd ip port e)) = fds e) \<and>
     (\<forall>k e. fds (snd (sys_msgget os k e)) = fds e) \<and> (\<forall>q e. fds (sys_msgctl_rmid os q e) = fds e)"

lemma tracks_fdsD:
  assumes "tracks_fds os fds"
  shows "sys_socket os e = (fd, e') \<Longrightarrow> if fd < 0 then fds e' = fds e else fd \<notin> fds e \<and> fds e' = insert fd (fds e)"
    "fds (sys_close os fd e) = fds e - {fd}" "sys_connect os fd ip port e = (r, e') \<Longrightarrow> fds e' = fds e"
    "sys_msgget os k e = (r, e') \<Longrightarrow> fds e' = fds e" "fds (sys_msgctl_rmid os q e) = fds e"
  using assms unfolding tracks_fds_def by (simp_all) (metis snd_conv)+

lemma connect_fds:
  assumes F: "tracks_fds os fds" and c: "client_net_connect os (Some ip) port e = (fd, e')"
  shows "if fd < 0 then fds e' = fds e else fd \<notin> fds e \<and> fds e' = insert fd (fds e)"
proof -
  obtain f e1 where s: "sys_socket os e = (f, e1)" by fastforce
  obtain r e2 where k: "sys_connect os f ip port e1 = (r, e2)" by fastforce
  note D = tracks_fdsD(1) [OF F s] tracks_fdsD(2) [OF F, of f] tracks_fdsD(3) [OF F k]
  then show ?thesis
    using c s k by (auto simp: client_net_connect_def split: if_splits)
qed

lemma groups_create_fds:
  assumes F: "tracks_fds os fds"
  shows "\<exists>g e'. client_groups_mng_create os ca e = Some (g, e') \<and> fds e' = fds e \<and> (\<forall>m. g = Some m \<longrightarrow> wt.windows m [])"
proof -
  obtain q e1 where q: "sys_msgget os (sys_ftok os CHAT_CHILD_FTOK_PATH (sys_getpid os mod 256)) e = (q, e1)" by fastforce
  have "fds e1 = fds e" "fds (sys_msgctl_rmid os q e1) = fds e1" using tracks_fdsD(4,5) [OF F] q by blast+
  then show ?thesis using cg_create [of ca os e] q by (auto simp: wt.windows_def split: if_splits)
qed

text \<open>
  Connecting either gives a manager with an open connection, nobody logged in and no windows, or fails and leaves no descriptor open: the socket is
  closed again when the connection or the message queue cannot be set up. Nothing else of the open descriptors changes.
\<close>

theorem client_create:
  assumes "tracks_fds os fds"
  shows "\<exists>pm e'. client_mng_create os ok ca (Some ip) port e = Some (pm, e') \<and>
    (case pm of
       None \<Rightarrow> fds e' = fds e
     | Some m \<Rightarrow> cm_rel m \<lparr>s_user = None, s_windows = []\<rparr> \<and> sockfd m \<notin> fds e \<and> fds e' = insert (sockfd m) (fds e))"
proof (cases ok)
  case True
  obtain fd e1 where c: "client_net_connect os (Some ip) port e = (fd, e1)" by fastforce
  note C = connect_fds [OF assms c]
  obtain g e2 where g: "client_groups_mng_create os ca e1 = Some (g, e2)" "fds e2 = fds e1" "\<forall>m. g = Some m \<longrightarrow> wt.windows m []"
    using groups_create_fds [OF assms, of ca e1] by blast
  have "fds (sys_close os fd e2) = fds e2 - {fd}" by (rule tracks_fdsD(2) [OF assms])
  then show ?thesis
    using True c C g by (cases "fd < 0"; cases g) (auto simp: client_mng_create_def client_net_close_def cm_rel_def)
qed (simp add: client_mng_create_def)

text \<open>
  At the end the client manager kills the processes of all its windows, removes the message queue, closes the connection, in this order, and frees every node
  and entry of its list.
\<close>

theorem client_destroy:
  assumes "cm_rel m S"
  shows "\<exists>g es h s. win_groups m = Some g \<and> cg_rel g es \<and> map ge_name es = s_windows S \<and>
    client_mng_destroy os (Some (Some m)) e =
      Some (Some None, Some (h, s), sys_close os (sockfd m) (sys_msgctl_rmid os (msqid g) (kills os (concat (map entry_pids es)) e))) \<and>
    mem h = Map.empty \<and> mem s = Map.empty"
proof -
  obtain g es where g: "win_groups m = Some g" "cg_rel g es" "map ge_name es = s_windows S" "0 \<le> sockfd m"
    using assms by (auto simp: cm_rel_def wt.windows_def)
  show ?thesis
    using cg_destroy [OF g(2), of os e] g by (auto simp: client_mng_destroy_def client_net_close_def)
qed

section \<open>Examples\<close>

definition alice_client :: ClientMng where
  "alice_client = \<lparr>sockfd = 3, server_ip = bytes_of ''127.0.0.1'', srv_port = CHAT_TCP_PORT, logged_in = 1, username = bytes_of ''alice'',
     win_groups = Some sample_windows\<rparr>"

definition alice_session :: Session where
  "alice_session = \<lparr>s_user = Some (bytes_of ''alice''), s_windows = [[97], [98]]\<rparr>"

text \<open>A desktop whose state is the list of open descriptors.\<close>

definition fd_desktop :: "int list Os" where
  "fd_desktop = desktop\<lparr>sys_socket := (\<lambda>e. (fold max e 2 + 1, (fold max e 2 + 1) # e)), sys_close := (\<lambda>fd e. removeAll fd e)\<rparr>"

lemma alice_client_rel: "cm_rel alice_client alice_session"
proof -
  have "wt.windows sample_windows [[97], [98]]"
    unfolding wt.windows_def using sample_windows_rel by (auto simp: sample_entries_def)
  then show ?thesis by (simp add: cm_rel_def alice_client_def alice_session_def size_defs bytes_of_def)
qed

lemma fd_desktop_tracks: "tracks_fds fd_desktop set"
  by (auto simp: tracks_fds_def fd_desktop_def desktop_def fresh_fd)


end
