(* ===== verification/Client_Ui.thy ===== *)
theory Client_Ui
  imports Client_Mng
begin

text \<open>
  The text interface of the client, \<^verbatim>\<open>client/ui.c\<close>, and its main program, \<^verbatim>\<open>client/client_main.c\<close>.

  A terminal is the bytes still to be read and the text printed so far. The two menus are loops over the input; they are partial functions, and the
  theorems show that they return for every input, because each round reads at least one byte. The proof is in the locale \<open>ui_driver\<close>, whose law is what the
  operations of the client manager keep; it is interpreted here for every world, and for a world with the real server in \<^verbatim>\<open>Chat_System\<close>.
\<close>

section \<open>Terminal\<close>

record Term =
  inp :: "byte list"
  outp :: "byte list"

definition printf :: "byte list \<Rightarrow> Term \<Rightarrow> Term" where
  "printf s t = t\<lparr>outp := outp t @ s\<rparr>"

text \<open>\<open>fgets\<close> reads up to and with the first newline, but no more than the given number of bytes; \<open>drain\<close> skips a line.\<close>

fun fgets :: "nat \<Rightarrow> byte list \<Rightarrow> byte list \<times> byte list" where
  "fgets 0 bs = ([], bs)"
| "fgets (Suc n) [] = ([], [])"
| "fgets (Suc n) (c # cs) = (if c = 10 then ([c], cs) else let (l, r) = fgets n cs in (c # l, r))"

fun drain :: "byte list \<Rightarrow> byte list" where
  "drain [] = []"
| "drain (c # cs) = (if c = 10 then cs else drain cs)"

section \<open>Input and messages\<close>

text \<open>The result is the return value, the string that \<open>out\<close> then holds, and the terminal.\<close>

definition read_line :: "byte list \<Rightarrow> nat \<Rightarrow> Term \<Rightarrow> int \<times> cstring \<times> Term" where
  "read_line prompt cap t =
     (let t = printf prompt t
      in if inp t = [] then (- 1, [], t)
      else
        let (line, r) = fgets (cap - 1) (inp t);
            s = takeWhile (\<lambda>c. c \<noteq> 0) line
        in if length s > 0 \<and> s ! (length s - 1) = 10
           then (0, take (length s - 1) s, t\<lparr>inp := r\<rparr>)
           else (0, s, t\<lparr>inp := drain r\<rparr>))"

fun status_msg :: "ChatStatus \<Rightarrow> string" where
  "status_msg ST_OK = ''OK''"
| "status_msg ST_ERR_USER_EXISTS = ''username already taken''"
| "status_msg ST_ERR_USER_NOT_FOUND = ''no such user''"
| "status_msg ST_ERR_BAD_PASSWORD = ''wrong password''"
| "status_msg ST_ERR_ALREADY_LOGGED_IN = ''already logged in''"
| "status_msg ST_ERR_NOT_LOGGED_IN = ''not logged in''"
| "status_msg ST_ERR_GROUP_EXISTS = ''group name already taken''"
| "status_msg ST_ERR_GROUP_NOT_FOUND = ''no such group''"
| "status_msg ST_ERR_ALREADY_IN_GROUP = ''already in that group''"
| "status_msg ST_ERR_NOT_IN_GROUP = ''not a member of that group''"
| "status_msg ST_ERR_SERVER_FULL = ''server is full''"
| "status_msg ST_ERR_PROTOCOL = ''connection / protocol error''"
| "status_msg (ST_OTHER b) = ''unexpected error''"

section \<open>Menus\<close>

text \<open>The manager, the world and the terminal.\<close>

record 'e Ui =
  u_mng :: "ClientMng option"
  u_env :: 'e
  u_term :: Term

definition say :: "byte list \<Rightarrow> 'e Ui \<Rightarrow> 'e Ui" where
  "say s u = u\<lparr>u_term := printf s (u_term u)\<rparr>"

definition ask :: "string \<Rightarrow> nat \<Rightarrow> 'e Ui \<Rightarrow> int \<times> cstring \<times> 'e Ui" where
  "ask prompt cap u = (let (r, s, t) = read_line (bytes_of prompt) cap (u_term u) in (r, s, u\<lparr>u_term := t\<rparr>))"

definition nl :: "byte list" where "nl = [10]"

definition quoted :: "byte list \<Rightarrow> byte list" where "quoted s = [39] @ s @ [39]"

definition prompt_and_auth :: "('e, 'z) Os_scheme \<Rightarrow> 'e Ui \<Rightarrow> bool \<Rightarrow> (ChatStatus \<times> 'e Ui) option" where
  "prompt_and_auth os u is_login =
     (let (r, user, u) = ask ''  username: '' (CHAT_MAX_USERNAME_LEN + 1) u
      in if r \<noteq> 0 then Some (ST_ERR_PROTOCOL, u)
      else let (r, pass, u) = ask ''  password: '' (CHAT_MAX_PASSWORD_LEN + 1) u
      in if r \<noteq> 0 then Some (ST_ERR_PROTOCOL, u)
      else if user = [] then Some (ST_ERR_PROTOCOL, say (bytes_of ''  username cannot be empty'' @ nl) u)
      else do {
        (st, m, e) \<leftarrow> (if is_login then client_mng_login os (u_mng u) (Some user) (Some pass) (u_env u)
                       else client_mng_register os (u_mng u) (Some user) (Some pass) (u_env u));
        let u = u\<lparr>u_mng := m, u_env := e\<rparr>;
        let what = bytes_of (if is_login then ''login'' else ''registration'');
        Some (st, if st = ST_OK then say (bytes_of ''  '' @ what @ bytes_of '' succeeded'' @ nl) u
                  else say (bytes_of ''  '' @ what @ bytes_of '' failed: '' @ bytes_of (status_msg st) @ nl) u)
      })"

text \<open>The output variables for the address are not initialised in the code; they are read only after a reply with status OK has set them.\<close>

definition ui_group_join :: "('e, 'z) Os_scheme \<Rightarrow> 'e Ui \<Rightarrow> bool \<Rightarrow> 'e Ui option" where
  "ui_group_join os u is_create =
     (let (r, g, u) = ask ''  group name: '' (CHAT_MAX_GROUPNAME_LEN + 1) u
      in if r \<noteq> 0 then Some u
      else if g = [] then Some (say (bytes_of ''  group name cannot be empty'' @ nl) u)
      else do {
        (st, ip, port, m, e) \<leftarrow>
          (if is_create then client_mng_create_group os (u_mng u) (Some g) (Some (replicate CHAT_MAX_IP_STR_LEN 0)) (Some 0) (u_env u)
           else client_mng_join_group os (u_mng u) (Some g) (Some (replicate CHAT_MAX_IP_STR_LEN 0)) (Some 0) (u_env u));
        let u = u\<lparr>u_mng := m, u_env := e\<rparr>;
        let verb = bytes_of (if is_create then ''create'' else ''join'');
        if st = ST_OK
        then do {
          a \<leftarrow> cstr (the ip);
          Some (say (bytes_of ''  '' @ verb @ bytes_of '' '' @ quoted g @ bytes_of '' OK -- multicast '' @ a @ bytes_of '':'' @ dec (unat (the port)) @ nl) u)
        }
        else Some (say (bytes_of ''  '' @ verb @ bytes_of '' '' @ quoted g @ bytes_of '' failed: '' @ bytes_of (status_msg st) @ nl) u)
      })"

definition do_group_leave :: "('e, 'z) Os_scheme \<Rightarrow> 'e Ui \<Rightarrow> 'e Ui option" where
  "do_group_leave os u =
     (let (r, g, u) = ask ''  group name: '' (CHAT_MAX_GROUPNAME_LEN + 1) u
      in if r \<noteq> 0 then Some u
      else if g = [] then Some (say (bytes_of ''  group name cannot be empty'' @ nl) u)
      else do {
        (st, m, e) \<leftarrow> client_mng_leave_group os (u_mng u) (Some g) (u_env u);
        let u = u\<lparr>u_mng := m, u_env := e\<rparr>;
        Some (if st = ST_OK then say (bytes_of ''  left '' @ quoted g @ nl) u
              else say (bytes_of ''  leave '' @ quoted g @ bytes_of '' failed: '' @ bytes_of (status_msg st) @ nl) u)
      })"

definition groups_menu :: "cstring \<Rightarrow> byte list" where
  "groups_menu user = nl @ bytes_of ''=== Groups (logged in as '' @ quoted user @ bytes_of '') ==='' @ nl @
     bytes_of ''  1) create group'' @ nl @ bytes_of ''  2) join group'' @ nl @ bytes_of ''  3) leave group'' @ nl @ bytes_of ''  4) logout'' @ nl"

definition chat_menu :: "byte list" where
  "chat_menu = nl @ bytes_of ''=== Chat ==='' @ nl @ bytes_of ''  1) register'' @ nl @ bytes_of ''  2) login'' @ nl @ bytes_of ''  3) exit'' @ nl"

partial_function (option) screen2 :: "('e, 'z) Os_scheme \<Rightarrow> 'e Ui \<Rightarrow> 'e Ui option" where
  "screen2 os u =
     (let u = say (groups_menu (client_mng_username (u_mng u))) u;
          (r, choice, u) = ask ''> '' 8 u
      in if r \<noteq> 0 then Some u
      else if choice = bytes_of ''1'' then do { u \<leftarrow> ui_group_join os u True; screen2 os u }
      else if choice = bytes_of ''2'' then do { u \<leftarrow> ui_group_join os u False; screen2 os u }
      else if choice = bytes_of ''3'' then do { u \<leftarrow> do_group_leave os u; screen2 os u }
      else if choice = bytes_of ''4''
      then do {
        (st, m, e) \<leftarrow> client_mng_logout os (u_mng u) (u_env u);
        let u = u\<lparr>u_mng := m, u_env := e\<rparr>;
        if st = ST_OK then Some (say (bytes_of ''  logged out'' @ nl) u)
        else screen2 os (say (bytes_of ''  logout failed: '' @ bytes_of (status_msg st) @ nl) u)
      }
      else screen2 os (say (bytes_of ''  please enter 1, 2, 3, or 4'' @ nl) u))"

partial_function (option) ui_run :: "('e, 'z) Os_scheme \<Rightarrow> 'e Ui \<Rightarrow> 'e Ui option" where
  "ui_run os u =
     (let u = say chat_menu u;
          (r, choice, u) = ask ''> '' 8 u
      in if r \<noteq> 0 then Some (say (nl @ bytes_of ''input closed, exiting.'' @ nl) u)
      else if choice = bytes_of ''1'' then do { (_, u) \<leftarrow> prompt_and_auth os u False; ui_run os u }
      else if choice = bytes_of ''2''
      then do {
        (st, u) \<leftarrow> prompt_and_auth os u True;
        if st = ST_OK then do { u \<leftarrow> screen2 os u; ui_run os u } else ui_run os u
      }
      else if choice = bytes_of ''3'' then Some (say (bytes_of ''bye.'' @ nl) u)
      else ui_run os (say (bytes_of ''  please enter 1, 2, or 3'' @ nl) u))"

section \<open>Main program\<close>

text \<open>\<open>argv\<close> holds the arguments with the name of the program; the result is the exit code, what the manager left allocated, the terminal and the world.\<close>

definition client_main ::
  "('e, 'z) Os_scheme \<Rightarrow> bool \<Rightarrow> cg_alloc \<Rightarrow> cstring list \<Rightarrow> Term \<Rightarrow> 'e \<Rightarrow> (int \<times> (heap \<times> GroupEntry store) option \<times> Term \<times> 'e) option"
where
  "client_main os ok ca argv t e =
     (let server_ip = (if length argv > 1 then argv ! 1 else bytes_of ''127.0.0.1'');
          t = printf (bytes_of ''connecting to '' @ server_ip @ bytes_of '':'' @ dec (unat CHAT_TCP_PORT) @ bytes_of '' ...'' @ nl) t
      in do {
        (m, e) \<leftarrow> client_mng_create os ok ca (Some server_ip) CHAT_TCP_PORT e;
        if m = None then Some (1, None, t, e)
        else do {
          let t = printf (bytes_of ''connected.'' @ nl) t;
          u \<leftarrow> ui_run os \<lparr>u_mng = m, u_env = e, u_term = t\<rparr>;
          (_, l, e) \<leftarrow> client_mng_destroy os (Some (u_mng u)) (u_env u);
          Some (0, l, u_term u, e)
        }})"

section \<open>Reading a line\<close>

lemma fgets_split: "fgets n bs = (l, r) \<Longrightarrow> bs = l @ r \<and> length l \<le> n \<and> (0 < n \<longrightarrow> bs \<noteq> [] \<longrightarrow> l \<noteq> [])"
  by (induction n bs arbitrary: l r rule: fgets.induct) (auto split: if_splits prod.splits)

lemma fgets_line:
  "10 \<notin> set l \<Longrightarrow> fgets n (l @ 10 # r) = (if length l < n then (l @ [10], r) else (take n l, drop n l @ 10 # r))"
  "10 \<notin> set l \<Longrightarrow> fgets n l = (take n l, drop n l)"
proof (induction n l rule: fgets.induct)
  case (2 n)
  { case 1 show ?case by (cases n) simp_all next case 2 show ?case by simp }
qed auto

lemma drain_line: "10 \<notin> set l \<Longrightarrow> drain (l @ 10 # r) = r" "10 \<notin> set l \<Longrightarrow> drain l = []"
  by (induction l) auto

lemma length_drain: "length (drain r) \<le> length r"
  by (induction r) auto

lemma read_line_got:
  assumes "inp t \<noteq> []" "fgets (cap - 1) (inp t) = (l, r)" "takeWhile (\<lambda>c. c \<noteq> 0) l = s"
  shows "read_line p cap t =
    (if length s > 0 \<and> s ! (length s - 1) = 10 then (0, take (length s - 1) s, t\<lparr>inp := r, outp := outp t @ p\<rparr>)
     else (0, s, t\<lparr>inp := drain r, outp := outp t @ p\<rparr>))"
  using assms by (simp add: read_line_def printf_def)

lemma read_line_cases:
  assumes "2 \<le> cap"
  obtains (line) s t' where "read_line p cap t = (0, s, t')" "length (inp t') < length (inp t)" "wf_cstring s" "length s < cap"
  | (eof) "read_line p cap t = (- 1, [], printf p t)" "inp t = []"
proof (cases "inp t = []")
  case True
  then show thesis using eof by (simp add: read_line_def printf_def)
next
  case False
  obtain l r where f: "fgets (cap - 1) (inp t) = (l, r)" by fastforce
  then have lr: "inp t = l @ r" "length l < cap" "l \<noteq> []" using fgets_split [OF f] assms False by auto
  let ?s = "takeWhile (\<lambda>c. c \<noteq> 0) l"
  have s: "length ?s < cap" using length_takeWhile_le [of _ l] lr(2) by (rule le_less_trans)
  then have t: "length (take n ?s) < cap" for n by simp
  have d: "length (drain r) < length (inp t)" "length r < length (inp t)" using length_drain [of r] lr by (cases l; simp)+
  let ?c = "length ?s > 0 \<and> ?s ! (length ?s - 1) = 10"
  note e = read_line_got [OF False f refl, of p]
  show thesis
  proof (cases ?c)
    case True
    show thesis by (rule line [OF e [unfolded if_P [OF True]]]) (use d(2) t [of "length ?s - 1"] in simp_all)
  next
    case False
    show thesis by (rule line [OF e [unfolded if_not_P [OF False]]]) (use d(1) s in simp_all)
  qed
qed

lemma no_newline_last: "10 \<notin> set l \<Longrightarrow> length l > 0 \<Longrightarrow> l ! (length l - 1) \<noteq> (10 :: byte)"
  by (metis last_conv_nth last_in_set length_greater_0_conv)

lemma takeWhile_wf: "wf_cstring l \<Longrightarrow> takeWhile (\<lambda>c. c \<noteq> 0) (l @ r) = l @ takeWhile (\<lambda>c. c \<noteq> 0) r"
  by (induction l) (auto simp: wf_cstring_def)

text \<open>
  C26: a line typed by the user is read as it is, without the newline, cut to what fits into the buffer, and the rest of a longer line is skipped: the
  next call starts at the next line. A last line without newline is read in the same way. At the end of the input the result is -1.
\<close>

theorem read_line_line:
  assumes "2 \<le> cap" "wf_cstring l" "10 \<notin> set l"
  shows "read_line p cap (t\<lparr>inp := l @ 10 # r\<rparr>) = (0, take (cap - 1) l, t\<lparr>inp := r, outp := outp t @ p\<rparr>) \<and>
    (l \<noteq> [] \<longrightarrow> read_line p cap (t\<lparr>inp := l\<rparr>) = (0, take (cap - 1) l, t\<lparr>inp := [], outp := outp t @ p\<rparr>)) \<and>
    read_line p cap (t\<lparr>inp := []\<rparr>) = (- 1, [], t\<lparr>inp := [], outp := outp t @ p\<rparr>)"
proof -
  let ?l = "take (cap - 1) l"
  have w: "takeWhile (\<lambda>c. c \<noteq> 0) ?l = ?l" "takeWhile (\<lambda>c. c \<noteq> 0) (l @ [10]) = l @ [10]"
    using takeWhile_wf [OF wf_cstring_take [OF assms(2)], of "cap - 1" "[]"] takeWhile_wf [OF assms(2), of "[10]"] by simp_all
  have n: "?l ! (length ?l - 1) \<noteq> 10" if "length ?l > 0"
    using no_newline_last [of ?l] assms(3) that by (auto dest: in_set_takeD)
  have d: "10 \<notin> set (drop (cap - 1) l)" using assms(3) by (auto dest: in_set_dropD)
  have "read_line p cap (t\<lparr>inp := l @ 10 # r\<rparr>) = (0, ?l, t\<lparr>inp := r, outp := outp t @ p\<rparr>)"
  proof (cases "length l < cap - 1")
    case True
    have "fgets (cap - 1) (inp (t\<lparr>inp := l @ 10 # r\<rparr>)) = (l @ [10], r)" using True assms(3) by (simp add: fgets_line)
    from read_line_got [OF _ this w(2)] show ?thesis using True by (simp add: nth_append)
  next
    case False
    have "fgets (cap - 1) (inp (t\<lparr>inp := l @ 10 # r\<rparr>)) = (?l, drop (cap - 1) l @ 10 # r)" using False assms(3) by (simp add: fgets_line)
    from read_line_got [OF _ this w(1)] show ?thesis using n drain_line(1) [OF d] by auto
  qed
  moreover have "read_line p cap (t\<lparr>inp := l\<rparr>) = (0, ?l, t\<lparr>inp := [], outp := outp t @ p\<rparr>)" if "l \<noteq> []"
  proof -
    have "fgets (cap - 1) (inp (t\<lparr>inp := l\<rparr>)) = (?l, drop (cap - 1) l)" using assms(3) by (simp add: fgets_line)
    from read_line_got [OF _ this w(1)] show ?thesis using that n drain_line(2) [OF d] by auto
  qed
  ultimately show ?thesis by (simp add: read_line_def printf_def)
qed

theorem read_line_line_witness:
  "read_line (bytes_of ''> '') 8 (\<lparr>inp = [], outp = []\<rparr>\<lparr>inp := bytes_of ''123456789'' @ 10 # bytes_of ''3''\<rparr>) =
      (0, take (8 - 1) (bytes_of ''123456789''), \<lparr>inp = [], outp = []\<rparr>\<lparr>inp := bytes_of ''3'', outp := [] @ bytes_of ''> ''\<rparr>)"
  using read_line_line [of 8 "bytes_of ''123456789''" "bytes_of ''> ''" "bytes_of ''3''" "\<lparr>inp = [], outp = []\<rparr>"]
  by (simp add: bytes_of_def wf_cstring_def)

text \<open>A line that holds a NUL byte: the newline is behind the end of the string, so it is not found, and the line that follows is skipped as well.\<close>

lemma read_line_nul:
  assumes "wf_cstring a" "10 \<notin> set (a @ b @ c)" "length (a @ 0 # b) < cap - 1"
  shows "read_line p cap (t\<lparr>inp := (a @ 0 # b) @ 10 # (c @ 10 # r)\<rparr>) = (0, a, t\<lparr>inp := r, outp := outp t @ p\<rparr>)"
proof -
  have n: "10 \<notin> set (a @ 0 # b)" using assms(2) by simp
  have w: "takeWhile (\<lambda>c. c \<noteq> 0) ((a @ 0 # b) @ [10]) = a" using takeWhile_wf [OF assms(1), of "0 # b @ [10]"] by simp
  have l: "length a > 0 \<longrightarrow> a ! (length a - 1) \<noteq> 10" using no_newline_last [of a] assms(2) by simp
  have "fgets (cap - 1) (inp (t\<lparr>inp := (a @ 0 # b) @ 10 # (c @ 10 # r)\<rparr>)) = ((a @ 0 # b) @ [10], c @ 10 # r)"
    using fgets_line(1) [OF n, of "cap - 1" "c @ 10 # r"] assms(3) by simp
  from read_line_got [OF _ this w] show ?thesis using l drain_line(1) [of c r] assms(2) by auto
qed

section \<open>The menus return\<close>

text \<open>The input that is left, the steps of a session, and the session of a user who is logged out.\<close>

definition unread :: "'e Ui \<Rightarrow> nat" where
  "unread u = length (inp (u_term u))"

definition acts :: "Session \<Rightarrow> Session \<Rightarrow> bool" where
  "acts S S' \<longleftrightarrow> (\<exists>op st. session_step op st S S')"

definition logged_out :: Session where
  "logged_out = \<lparr>s_user = None, s_windows = []\<rparr>"

text \<open>The last words of the program, and how the first menu is left: by the choice to exit, then nobody is logged in and no window is open, or at the end of the input.\<close>

definition says_last :: "byte list \<Rightarrow> Term \<Rightarrow> bool" where
  "says_last s t \<longleftrightarrow> (\<exists>w. outp t = w @ s)"

definition ui_done :: "Term \<Rightarrow> Session \<Rightarrow> bool" where
  "ui_done t S \<longleftrightarrow> says_last (bytes_of ''bye.'' @ nl) t \<and> S = logged_out \<or>
     says_last (nl @ bytes_of ''input closed, exiting.'' @ nl) t \<and> inp t = []"

inductive_simps session_register: "session_step (DoRegister u p) st S S'"
inductive_simps session_login: "session_step (DoLogin u p) st S S'"
inductive_simps session_logout: "session_step DoLogout st S S'"

lemma acts_step: "session_step op st S S' \<Longrightarrow> acts\<^sup>*\<^sup>* S S'"
  by (rule r_into_rtranclp) (auto simp: acts_def)

lemma says_last_say [simp]: "says_last s (u_term (say s u))"
  by (simp add: says_last_def say_def printf_def)

lemma say_simps [simp]:
  "unread (say s u) = unread u" "inp (u_term (say s u)) = inp (u_term u)" "u_mng (say s u) = u_mng u" "u_env (say s u) = u_env u"
  by (simp_all add: say_def printf_def unread_def)

lemma unread_update [simp]: "unread (u\<lparr>u_mng := m, u_env := e\<rparr>) = unread u"
  by (simp add: unread_def)

lemma ask_cases:
  assumes "2 \<le> cap"
  obtains (line) s u' where "ask p cap u = (0, s, u')" "unread u' < unread u" "wf_cstring s" "length s < cap" "u_mng u' = u_mng u" "u_env u' = u_env u"
  | (eof) u' where "ask p cap u = (- 1, [], u')" "inp (u_term u) = []" "inp (u_term u') = []" "u_mng u' = u_mng u" "u_env u' = u_env u"
proof (cases rule: read_line_cases [OF assms, of "bytes_of p" "u_term u"])
  case (1 s t')
  then show thesis by (intro line [of s "u\<lparr>u_term := t'\<rparr>"]) (simp_all add: ask_def unread_def)
next
  case 2
  then show thesis by (intro eof [of "u\<lparr>u_term := printf (bytes_of p) (u_term u)\<rparr>"]) (simp_all add: ask_def printf_def)
qed

lemma choice_distinct [simp]:
  "bytes_of ''1'' \<noteq> bytes_of ''2''" "bytes_of ''1'' \<noteq> bytes_of ''3''" "bytes_of ''1'' \<noteq> bytes_of ''4''"
  "bytes_of ''2'' \<noteq> bytes_of ''1''" "bytes_of ''2'' \<noteq> bytes_of ''3''" "bytes_of ''2'' \<noteq> bytes_of ''4''"
  "bytes_of ''3'' \<noteq> bytes_of ''1''" "bytes_of ''3'' \<noteq> bytes_of ''2''" "bytes_of ''3'' \<noteq> bytes_of ''4''"
  "bytes_of ''4'' \<noteq> bytes_of ''1''" "bytes_of ''4'' \<noteq> bytes_of ''2''" "bytes_of ''4'' \<noteq> bytes_of ''3''"
  by (simp_all add: bytes_of_def)

text \<open>The address that is printed after a successful request is a string.\<close>

lemma group_request_address:
  assumes "group_request os rop (Some m) (Some g) (Some ip) (Some port) e = Some (ST_OK, oi, opt, pm, e')"
  shows "cstr (the oi) \<noteq> None"
  using assms by (auto simp: group_request_def split: if_splits bind_splits prod.splits)

definition ui_at :: "(ClientMng \<Rightarrow> 'e \<Rightarrow> Session \<Rightarrow> bool) \<Rightarrow> 'e Ui \<Rightarrow> Session \<Rightarrow> bool" where
  "ui_at good u S \<longleftrightarrow> (\<exists>m. u_mng u = Some m \<and> good m (u_env u) S)"

lemma ui_at_say [simp]: "ui_at good (say s u) S = ui_at good u S"
  by (simp add: ui_at_def)

text \<open>
  What the menus rely on: a relation between manager, world and session that every operation of the manager keeps while it returns and makes a step of the
  session. The menus then return, and keep it too.
\<close>

locale ui_driver =
  fixes os :: "('e, 'z) Os_scheme"
    and good :: "ClientMng \<Rightarrow> 'e \<Rightarrow> Session \<Rightarrow> bool"
  assumes op_law: "good m e S \<Longrightarrow> wf_op op \<Longrightarrow> \<exists>st m' e' S'.
    client_op os (replicate CHAT_MAX_IP_STR_LEN 0) 0 op (Some m) e = Some (st, Some m', e') \<and> session_step op st S S' \<and> good m' e' S'"
begin

lemma ui_op:
  assumes "ui_at good u S" "wf_op op"
  obtains st m' e' S' where "client_op os (replicate CHAT_MAX_IP_STR_LEN 0) 0 op (u_mng u) (u_env u) = Some (st, m', e')" "session_step op st S S'"
    "ui_at good (u\<lparr>u_mng := m', u_env := e'\<rparr>) S'"
proof -
  obtain m where m: "u_mng u = Some m" "good m (u_env u) S" using assms(1) by (auto simp: ui_at_def)
  show thesis using op_law [OF m(2) assms(2)] m(1) by (elim exE conjE, intro that) (auto simp: ui_at_def)
qed

lemma auth_total:
  assumes u: "ui_at good u S"
  obtains st u' S' where "prompt_and_auth os u is_login = Some (st, u')" "unread u' \<le> unread u" "ui_at good u' S'"
    "S' = S \<or> is_login \<and> st = ST_OK" "acts\<^sup>*\<^sup>* S S'"
proof -
  have cap: "2 \<le> CHAT_MAX_USERNAME_LEN + 1" "2 \<le> CHAT_MAX_PASSWORD_LEN + 1" by (simp_all add: size_defs)
  show thesis
  proof (cases rule: ask_cases [OF cap(1), of "''  username: ''" u])
    case (2 u1)
    show thesis by (rule that [of ST_ERR_PROTOCOL u1 S])
      (use 2 u in \<open>simp_all add: prompt_and_auth_def unread_def ui_at_def\<close>)
  next
    case (1 us u1)
    note l1 = 1
    show thesis
    proof (cases rule: ask_cases [OF cap(2), of "''  password: ''" u1])
      case (2 u2)
      show thesis by (rule that [of ST_ERR_PROTOCOL u2 S])
        (use 2 l1 u in \<open>simp_all add: prompt_and_auth_def unread_def ui_at_def\<close>)
    next
      case (1 pw u2)
      note l = l1 1
      have k: "unread u2 \<le> unread u" "ui_at good u2 S" using l u by (simp_all add: ui_at_def)
      show thesis
      proof (cases "us = []")
        case True
        show thesis by (rule that [of ST_ERR_PROTOCOL "say (bytes_of ''  username cannot be empty'' @ nl) u2" S])
          (use True l k in \<open>simp_all add: prompt_and_auth_def\<close>)
      next
        case False
        let ?op = "if is_login then DoLogin us pw else DoRegister us pw"
        obtain st m' e' S' where c: "client_op os (replicate CHAT_MAX_IP_STR_LEN 0) 0 ?op (u_mng u2) (u_env u2) = Some (st, m', e')" "session_step ?op st S S'"
            "ui_at good (u2\<lparr>u_mng := m', u_env := e'\<rparr>) S'"
          by (rule ui_op [OF k(2), of ?op]) (use l in \<open>simp add: wf_op_def\<close>)
        have S': "S' = S \<or> is_login \<and> st = ST_OK"
          using c(2) by (cases is_login) (auto simp: session_register session_login)
        have "\<exists>s. prompt_and_auth os u is_login = Some (st, say s (u2\<lparr>u_mng := m', u_env := e'\<rparr>))"
          using False l(1,7) c(1) by (cases is_login; cases "st = ST_OK") (simp add: prompt_and_auth_def client_op_def, rule exI, rule refl)+
        then obtain s where "prompt_and_auth os u is_login = Some (st, say s (u2\<lparr>u_mng := m', u_env := e'\<rparr>))" by blast
        then show thesis by (rule that [OF _ _ _ S' acts_step [OF c(2)]]) (use c(3) k(1) in simp_all)
      qed
    qed
  qed
qed


lemma group_join_total:
  assumes u: "ui_at good u S"
  obtains u' S' where "ui_group_join os u is_create = Some u'" "unread u' \<le> unread u" "ui_at good u' S'" "acts\<^sup>*\<^sup>* S S'"
proof -
  have cap: "2 \<le> CHAT_MAX_GROUPNAME_LEN + 1" by (simp add: size_defs)
  show thesis
  proof (cases rule: ask_cases [OF cap, of "''  group name: ''" u])
    case (2 u1)
    show thesis by (rule that [of u1 S]) (use 2 u in \<open>simp_all add: ui_group_join_def unread_def ui_at_def\<close>)
  next
    case (1 g u1)
    have k: "unread u1 \<le> unread u" "ui_at good u1 S" using 1 u by (simp_all add: ui_at_def)
    show thesis
    proof (cases "g = []")
      case True
      show thesis by (rule that [of "say (bytes_of ''  group name cannot be empty'' @ nl) u1" S])
        (use True 1 k in \<open>simp_all add: ui_group_join_def\<close>)
    next
      case False
      let ?op = "if is_create then DoCreate g else DoJoin g" and ?rop = "if is_create then OP_CREATE_GROUP_REQ else OP_JOIN_GROUP_REQ"
      let ?ip = "replicate CHAT_MAX_IP_STR_LEN 0"
      obtain m where m: "u_mng u1 = Some m" using k(2) by (auto simp: ui_at_def)
      obtain st m' e' S' where c: "client_op os ?ip 0 ?op (u_mng u1) (u_env u1) = Some (st, m', e')" "session_step ?op st S S'"
          "ui_at good (u1\<lparr>u_mng := m', u_env := e'\<rparr>) S'"
        by (rule ui_op [OF k(2), of ?op]) (use 1 in \<open>simp add: wf_op_def\<close>)
      obtain oi opt where r: "group_request os ?rop (Some m) (Some g) (Some ?ip) (Some 0) (u_env u1) = Some (st, oi, opt, m', e')"
        using c(1) m by (cases is_create) (auto simp: client_op_def client_mng_create_group_def client_mng_join_group_def split: bind_splits)
      have "\<exists>a. st = ST_OK \<longrightarrow> cstr (the oi) = Some a" using group_request_address [of os ?rop m g ?ip 0 "u_env u1" oi opt m' e'] r by fastforce
      then obtain a where a: "st = ST_OK \<longrightarrow> cstr (the oi) = Some a" by blast
      have "\<exists>s. ui_group_join os u is_create = Some (say s (u1\<lparr>u_mng := m', u_env := e'\<rparr>))"
        using 1(1) False m r a by (cases is_create; cases "st = ST_OK")
          (simp add: ui_group_join_def client_mng_create_group_def client_mng_join_group_def, rule exI, rule refl)+
      then obtain s where "ui_group_join os u is_create = Some (say s (u1\<lparr>u_mng := m', u_env := e'\<rparr>))" by blast
      moreover have "acts\<^sup>*\<^sup>* S S'" by (rule acts_step [OF c(2)])
      ultimately show thesis using that c(3) k(1) by simp
    qed
  qed
qed

lemma group_leave_total:
  assumes u: "ui_at good u S"
  obtains u' S' where "do_group_leave os u = Some u'" "unread u' \<le> unread u" "ui_at good u' S'" "acts\<^sup>*\<^sup>* S S'"
proof -
  have cap: "2 \<le> CHAT_MAX_GROUPNAME_LEN + 1" by (simp add: size_defs)
  show thesis
  proof (cases rule: ask_cases [OF cap, of "''  group name: ''" u])
    case (2 u1)
    show thesis by (rule that [of u1 S]) (use 2 u in \<open>simp_all add: do_group_leave_def unread_def ui_at_def\<close>)
  next
    case (1 g u1)
    have k: "unread u1 \<le> unread u" "ui_at good u1 S" using 1 u by (simp_all add: ui_at_def)
    show thesis
    proof (cases "g = []")
      case True
      show thesis by (rule that [of "say (bytes_of ''  group name cannot be empty'' @ nl) u1" S])
        (use True 1 k in \<open>simp_all add: do_group_leave_def\<close>)
    next
      case False
      obtain st m' e' S' where c: "client_op os (replicate CHAT_MAX_IP_STR_LEN 0) 0 (DoLeave g) (u_mng u1) (u_env u1) = Some (st, m', e')" "session_step (DoLeave g) st S S'"
          "ui_at good (u1\<lparr>u_mng := m', u_env := e'\<rparr>) S'"
        by (rule ui_op [OF k(2), of "DoLeave g"]) (use 1 in \<open>simp add: wf_op_def\<close>)
      have "\<exists>s. do_group_leave os u = Some (say s (u1\<lparr>u_mng := m', u_env := e'\<rparr>))"
        using 1(1) False c(1) by (cases "st = ST_OK") (simp add: do_group_leave_def client_op_def, rule exI, rule refl)+
      then obtain s where "do_group_leave os u = Some (say s (u1\<lparr>u_mng := m', u_env := e'\<rparr>))" by blast
      then show thesis by (rule that [OF _ _ _ acts_step [OF c(2)]]) (use c(3) k(1) in simp_all)
    qed
  qed
qed

text \<open>A menu asks for a choice, which is read or the end of the input.\<close>

lemma choice_cases:
  assumes "ui_at good u S"
  obtains (line) s u' where "ask p 8 (say m u) = (0, s, u')" "unread u' < unread u" "ui_at good u' S" "inp (u_term u) \<noteq> []"
  | (eof) u' where "ask p 8 (say m u) = (- 1, [], u')" "inp (u_term u') = []" "ui_at good u' S"
proof -
  have cap: "2 \<le> (8 :: nat)" by simp
  show thesis
  proof (cases rule: ask_cases [OF cap, of p "say m u"])
    case (1 s u')
    show thesis by (rule line [of s u']) (use 1 assms in \<open>auto simp: ui_at_def unread_def\<close>)
  next
    case (2 u')
    show thesis by (rule eof [of u']) (use 2 assms in \<open>auto simp: ui_at_def unread_def\<close>)
  qed
qed

text \<open>A round of the menu for groups ends it, or goes on with less input.\<close>

lemma screen2_round:
  assumes u: "ui_at good u S"
  shows "(\<exists>v S'. screen2 os u = Some v \<and> unread v \<le> unread u \<and> ui_at good v S' \<and> acts\<^sup>*\<^sup>* S S' \<and> (S' = logged_out \<or> inp (u_term v) = [])) \<or>
    (\<exists>v S'. screen2 os u = screen2 os v \<and> unread v < unread u \<and> ui_at good v S' \<and> acts\<^sup>*\<^sup>* S S')"
proof (cases rule: choice_cases [OF u, of "''> ''" "groups_menu (client_mng_username (u_mng u))"])
  case (2 u1)
  then have "screen2 os u = Some u1" by (subst screen2.simps) simp
  moreover have "unread u1 \<le> unread u" using 2(2) by (simp add: unread_def)
  ultimately show ?thesis using 2 by blast
next
  case (1 s u1)
  consider (enter) c where "s = bytes_of (if c then ''1'' else ''2'')" | (leave) "s = bytes_of ''3''" | (logout) "s = bytes_of ''4''"
    | (other) "s \<noteq> bytes_of ''1''" "s \<noteq> bytes_of ''2''" "s \<noteq> bytes_of ''3''" "s \<noteq> bytes_of ''4''" by metis
  then show ?thesis
  proof cases
    case (enter c)
    obtain v S1 where v: "ui_group_join os u1 c = Some v" "unread v \<le> unread u1" "ui_at good v S1" "acts\<^sup>*\<^sup>* S S1" by (rule group_join_total [OF 1(3)])
    have "screen2 os u = screen2 os v" using 1(1) enter v(1) by (subst screen2.simps) (cases c; simp)
    then show ?thesis using v 1(2) by (meson le_less_trans)
  next
    case leave
    obtain v S1 where v: "do_group_leave os u1 = Some v" "unread v \<le> unread u1" "ui_at good v S1" "acts\<^sup>*\<^sup>* S S1" by (rule group_leave_total [OF 1(3)])
    have "screen2 os u = screen2 os v" using 1(1) leave v(1) by (subst screen2.simps) simp
    then show ?thesis using v 1(2) by (meson le_less_trans)
  next
    case logout
    obtain st m' e' S1 where c: "client_op os (replicate CHAT_MAX_IP_STR_LEN 0) 0 DoLogout (u_mng u1) (u_env u1) = Some (st, m', e')"
        "session_step DoLogout st S S1" "ui_at good (u1\<lparr>u_mng := m', u_env := e'\<rparr>) S1"
      by (rule ui_op [OF 1(3), of DoLogout]) (simp add: wf_op_def)
    have "st = ST_OK \<longrightarrow> S1 = logged_out" using c(2) by (auto simp: session_logout logged_out_def)
    moreover obtain a b where "screen2 os u = (if st = ST_OK then Some (say a (u1\<lparr>u_mng := m', u_env := e'\<rparr>))
        else screen2 os (say b (u1\<lparr>u_mng := m', u_env := e'\<rparr>)))"
    proof
      show "screen2 os u = (if st = ST_OK then Some (say (bytes_of ''  logged out'' @ nl) (u1\<lparr>u_mng := m', u_env := e'\<rparr>))
          else screen2 os (say (bytes_of ''  logout failed: '' @ bytes_of (status_msg st) @ nl) (u1\<lparr>u_mng := m', u_env := e'\<rparr>)))"
        using 1(1) logout c(1) by (subst screen2.simps) (simp add: client_op_def)
    qed
    ultimately show ?thesis
      using c(3) acts_step [OF c(2)] 1(2)
      by (cases "st = ST_OK") (metis ui_at_say say_simps(1) unread_update less_imp_le, metis ui_at_say say_simps(1) unread_update)
  next
    case other
    have "screen2 os u = screen2 os (say (bytes_of ''  please enter 1, 2, 3, or 4'' @ nl) u1)"
      using 1(1) other by (subst screen2.simps) simp
    then show ?thesis using 1(2,3) by (metis rtranclp.rtrancl_refl say_simps(1) ui_at_say)
  qed
qed

lemma screen2_total:
  "ui_at good u S \<Longrightarrow> \<exists>v S'. screen2 os u = Some v \<and> unread v \<le> unread u \<and> ui_at good v S' \<and> acts\<^sup>*\<^sup>* S S' \<and> (S' = logged_out \<or> inp (u_term v) = [])"
proof (induction "unread u" arbitrary: u S rule: less_induct)
  case less
  from screen2_round [OF less.prems] show ?case
  proof (elim disjE)
    assume "\<exists>v S'. screen2 os u = screen2 os v \<and> unread v < unread u \<and> ui_at good v S' \<and> acts\<^sup>*\<^sup>* S S'"
    then obtain v S1 where v: "screen2 os u = screen2 os v" "unread v < unread u" "ui_at good v S1" "acts\<^sup>*\<^sup>* S S1" by blast
    show ?thesis using less.hyps [OF v(2,3)] v(1,2) rtranclp_trans [OF v(4)] by (metis less_imp_le le_trans)
  qed
qed

text \<open>The same for the first menu; its rounds start with nobody logged in, or at the end of the input.\<close>

lemma ui_run_round:
  assumes u: "ui_at good u S" "S = logged_out \<or> inp (u_term u) = []"
  shows "(\<exists>v S'. ui_run os u = Some v \<and> ui_at good v S' \<and> acts\<^sup>*\<^sup>* S S' \<and> ui_done (u_term v) S') \<or>
    (\<exists>v S'. ui_run os u = ui_run os v \<and> unread v < unread u \<and> ui_at good v S' \<and> acts\<^sup>*\<^sup>* S S' \<and> (S' = logged_out \<or> inp (u_term v) = []))"
proof (cases rule: choice_cases [OF u(1), of "''> ''" chat_menu])
  case (2 u1)
  let ?v = "say (nl @ bytes_of ''input closed, exiting.'' @ nl) u1"
  have "ui_run os u = Some ?v" using 2(1) by (subst ui_run.simps) simp
  moreover have "ui_done (u_term ?v) S" using 2(2) by (simp add: ui_done_def)
  ultimately show ?thesis using 2(3) by (metis rtranclp.rtrancl_refl ui_at_say)
next
  case (1 s u1)
  have S: "S = logged_out" using u(2) 1(4) by simp
  consider (register) "s = bytes_of ''1''" | (login) "s = bytes_of ''2''" | (leave) "s = bytes_of ''3''"
    | (other) "s \<noteq> bytes_of ''1''" "s \<noteq> bytes_of ''2''" "s \<noteq> bytes_of ''3''" by metis
  then show ?thesis
  proof cases
    case register
    obtain st v S1 where v: "prompt_and_auth os u1 False = Some (st, v)" "unread v \<le> unread u1" "ui_at good v S1" "S1 = S \<or> False \<and> st = ST_OK" "acts\<^sup>*\<^sup>* S S1"
      by (rule auth_total [OF 1(3)])
    have "ui_run os u = ui_run os v" using 1(1) register v(1) by (subst ui_run.simps) simp
    moreover have "unread v < unread u" using v(2) 1(2) by simp
    ultimately show ?thesis using v S by blast
  next
    case login
    obtain st v S1 where v: "prompt_and_auth os u1 True = Some (st, v)" "unread v \<le> unread u1" "ui_at good v S1" "S1 = S \<or> True \<and> st = ST_OK" "acts\<^sup>*\<^sup>* S S1"
      by (rule auth_total [OF 1(3)])
    obtain w S2 where w: "screen2 os v = Some w" "unread w \<le> unread v" "ui_at good w S2" "acts\<^sup>*\<^sup>* S1 S2" "S2 = logged_out \<or> inp (u_term w) = []"
      using screen2_total [OF v(3)] by blast
    have "ui_run os u = (if st = ST_OK then ui_run os w else ui_run os v)"
      using 1(1) login v(1) w(1) by (subst ui_run.simps) simp
    moreover have "unread w < unread u" "unread v < unread u" using w(2) v(2) 1(2) by simp_all
    ultimately show ?thesis using v w S rtranclp_trans [OF v(5) w(4)] by (cases "st = ST_OK") auto
  next
    case leave
    let ?v = "say (bytes_of ''bye.'' @ nl) u1"
    have "ui_run os u = Some ?v" using 1(1) leave by (subst ui_run.simps) simp
    moreover have "ui_done (u_term ?v) S" using S by (simp add: ui_done_def)
    ultimately show ?thesis using 1(3) by (metis rtranclp.rtrancl_refl ui_at_say)
  next
    case other
    have "ui_run os u = ui_run os (say (bytes_of ''  please enter 1, 2, or 3'' @ nl) u1)"
      using 1(1) other by (subst ui_run.simps) simp
    then show ?thesis using 1(2,3) S by (metis rtranclp.rtrancl_refl say_simps(1) ui_at_say)
  qed
qed

lemma ui_run_total:
  "ui_at good u S \<Longrightarrow> S = logged_out \<or> inp (u_term u) = [] \<Longrightarrow> \<exists>v S'. ui_run os u = Some v \<and> ui_at good v S' \<and> acts\<^sup>*\<^sup>* S S' \<and> ui_done (u_term v) S'"
proof (induction "unread u" arbitrary: u S rule: less_induct)
  case less
  from ui_run_round [OF less.prems] show ?case
  proof (elim disjE)
    assume "\<exists>v S'. ui_run os u = ui_run os v \<and> unread v < unread u \<and> ui_at good v S' \<and> acts\<^sup>*\<^sup>* S S' \<and> (S' = logged_out \<or> inp (u_term v) = [])"
    then obtain v S1 where v: "ui_run os u = ui_run os v" "unread v < unread u" "ui_at good v S1" "acts\<^sup>*\<^sup>* S S1" "S1 = logged_out \<or> inp (u_term v) = []" by blast
    show ?thesis using less.hyps [OF v(2,3,5)] v(1) rtranclp_trans [OF v(4)] by metis
  qed
qed

end

text \<open>
  The contract holds in every world in which \<open>recv\<close> stores no more than it is asked for, for the connection of the manager and every property of the world
  that the calls of the desktop and the network keep.
\<close>

definition any_world :: "('e, 'z) Os_scheme \<Rightarrow> int \<Rightarrow> ('e \<Rightarrow> bool) \<Rightarrow> ClientMng \<Rightarrow> 'e \<Rightarrow> Session \<Rightarrow> bool" where
  "any_world os fd P m e S \<longleftrightarrow> recv_bounded os \<and> desk_inv os P \<and> wire_inv os P \<and> cm_rel m S \<and> sockfd m = fd \<and> P e"

interpretation anyw: ui_driver os "any_world os fd P" for os fd P
proof
  fix m e S op
  assume g: "any_world os fd P m e S"
  then have R: "recv_bounded os" "cm_rel m S" "CHAT_MAX_IP_STR_LEN \<le> length (replicate CHAT_MAX_IP_STR_LEN (0 :: byte))" by (simp_all add: any_world_def)
  from client_op_total [OF R, of 0 op e]
  show "\<exists>st m' e' S'. client_op os (replicate CHAT_MAX_IP_STR_LEN 0) 0 op (Some m) e = Some (st, Some m', e') \<and> session_step op st S S' \<and>
      any_world os fd P m' e' S'"
    using g unfolding any_world_def by blast
qed

text \<open>
  The user interface always returns. For every input, every server and network and every desktop, both menus end, because each round reads some of the
  input; what they do is a sequence of steps of the session; and the program says goodbye only when the user has logged out and all windows are closed, else the
  input has ended.
\<close>

theorem ui_returns:
  assumes "recv_bounded os" "cm_rel m logged_out"
  shows "\<exists>u' m' S'. ui_run os \<lparr>u_mng = Some m, u_env = e, u_term = t\<rparr> = Some u' \<and> u_mng u' = Some m' \<and> cm_rel m' S' \<and>
    acts\<^sup>*\<^sup>* logged_out S' \<and> ui_done (u_term u') S'"
  using anyw.ui_run_total [of os "sockfd m" "\<lambda>_. True" "\<lparr>u_mng = Some m, u_env = e, u_term = t\<rparr>" logged_out] assms
  by (auto simp: ui_at_def any_world_def desk_inv_def wire_inv_def)


section \<open>The client program\<close>

text \<open>No call of the desktop or on a connection opens or closes a descriptor of the client.\<close>

definition fds_quiet :: "('e, 'z) Os_scheme \<Rightarrow> ('e \<Rightarrow> int set) \<Rightarrow> bool" where
  "fds_quiet os fds \<longleftrightarrow> (\<forall>F. desk_inv os (\<lambda>e. fds e = F) \<and> wire_inv os (\<lambda>e. fds e = F))"

lemma destroy_fds:
  assumes F: "tracks_fds os fds" "fds_quiet os fds" and R: "cm_rel m S"
  shows "\<exists>h s e'. client_mng_destroy os (Some (Some m)) e = Some (Some None, Some (h, s), e') \<and> mem h = Map.empty \<and> mem s = Map.empty \<and>
    fds e' = fds e - {sockfd m}"
proof -
  obtain g :: ClientGroupsMng and es h s where d: "client_mng_destroy os (Some (Some m)) e =
      Some (Some None, Some (h, s), sys_close os (sockfd m) (sys_msgctl_rmid os (msqid g) (kills os (concat (map entry_pids es)) e)))"
      "mem h = Map.empty" "mem s = Map.empty"
    using client_destroy [OF R, of os e] by blast
  have "fds (kills os (concat (map entry_pids es)) e) = fds e"
    using desk_kills [of os "\<lambda>e'. fds e' = fds e" e] F(2) by (simp add: fds_quiet_def)
  then show ?thesis using d tracks_fdsD(2,5) [OF F(1)] by simp
qed



section \<open>Examples\<close>

text \<open>Input that gives a choice the menu does not have and then leaves; a desktop whose state is the list of open descriptors.\<close>

definition sample_term :: Term where
  "sample_term = \<lparr>inp = bytes_of ''9'' @ nl @ bytes_of ''3'' @ nl, outp = []\<rparr>"

definition quiet_desktop :: "int list Os" where
  "quiet_desktop = fd_desktop\<lparr>sys_kill := (\<lambda>_ e. e)\<rparr>"

definition no_failures :: cg_alloc where
  "no_failures = \<lparr>ca_struct = True, ca_nodes = (\<lambda>_. True), ca_entries = (\<lambda>_. True)\<rparr>"

lemma quiet_desktop_laws: "recv_bounded quiet_desktop" "tracks_fds quiet_desktop set" "fds_quiet quiet_desktop set"
proof -
  show "recv_bounded quiet_desktop" by (simp add: recv_bounded_def quiet_desktop_def fd_desktop_def desktop_def)
  show "tracks_fds quiet_desktop set" using fd_desktop_tracks by (simp add: tracks_fds_def quiet_desktop_def)
  show "fds_quiet quiet_desktop set"
    by (simp add: fds_quiet_def desk_inv_def wire_inv_def quiet_desktop_def fd_desktop_def desktop_def)
qed


end
