(* ===== verification/Chat_System.thy ===== *)
theory Chat_System
  imports Client_Ui Server_Main
begin

text \<open>
  Client and server together. The world of the client is the server program: \<open>send\<close> hands some of the bytes to a round of the loop of the server in which
  the connection of this client is ready, and \<open>recv\<close> gives some of the bytes that the server has sent on this connection. How many bytes each
  call moves is decided by a parameter, so that every fragmentation is covered. The server may have any number of other connections and users.

  The locale \<open>byte_stream\<close> of the transport is interpreted on this world. The theorems say that every operation of the client
  is a step of the abstract server with the status the client gets, and that client and server agree on who is logged in and which
  groups were joined, also when other clients act in between. The locale \<open>ui_driver\<close> of the menus is interpreted on this agreement, so that a user at the
  menus of the client and the server stay in step.
\<close>

section \<open>The world of a client\<close>

record 'd World =
  w_net :: "Server ServerNet"
  w_srv :: Server
  w_read :: nat
  w_time :: nat
  w_desk :: 'd

text \<open>What the server has sent on a connection.\<close>

definition replies :: "int \<Rightarrow> Server \<Rightarrow> byte list" where
  "replies sfd w = concat (map snd (filter (\<lambda>m. fst m = sfd) (sent w)))"

definition one_round :: "int \<Rightarrow> byte list \<Rightarrow> round" where
  "one_round sfd bs = \<lparr>os_select = (\<lambda>_ _. Select_Ready (FD_ZERO[nat sfd := True])), os_accept = (\<lambda>_. - 1), os_recv = (\<lambda>_ n. Some (take n bs))\<rparr>"

definition net_send :: "(nat \<Rightarrow> nat) \<Rightarrow> int \<Rightarrow> byte list \<Rightarrow> 'd World \<Rightarrow> int \<times> 'd World" where
  "net_send frag sfd bs w =
     (let k = min (length bs) (min CHAT_MAX_MSG_SIZE (Suc (frag (w_time w))))
      in if bs = [] then (0, w)
      else case select_loop [one_round sfd (take k bs)] (w_net w) (w_srv w) of
           Some (r, net, srv) \<Rightarrow>
             if r = 0 then (int k, w\<lparr>w_net := net, w_srv := srv, w_time := Suc (w_time w)\<rparr>) else (- 1, w)
         | None \<Rightarrow> (- 1, w))"

definition net_recv :: "(nat \<Rightarrow> nat) \<Rightarrow> int \<Rightarrow> nat \<Rightarrow> 'd World \<Rightarrow> byte list option \<times> 'd World" where
  "net_recv frag sfd n w =
     (let got = take (min n (Suc (frag (w_time w)))) (drop (w_read w) (replies sfd (w_srv w)))
      in (Some got, w\<lparr>w_read := w_read w + length got, w_time := Suc (w_time w)\<rparr>))"

text \<open>The desktop and the other calls act on their own part of the world.\<close>

definition on_desk :: "('d \<Rightarrow> 'a \<times> 'd) \<Rightarrow> 'd World \<Rightarrow> 'a \<times> 'd World" where
  "on_desk f w = (let (r, d) = f (w_desk w) in (r, w\<lparr>w_desk := d\<rparr>))"

definition world :: "(nat \<Rightarrow> nat) \<Rightarrow> int \<Rightarrow> 'd Os \<Rightarrow> 'd World Os" where
  "world frag sfd d = \<lparr>sys_socket = on_desk (sys_socket d), sys_inet_pton = sys_inet_pton d,
     sys_connect = (\<lambda>fd ip port. on_desk (sys_connect d fd ip port)),
     sys_send = (\<lambda>_. net_send frag sfd), sys_recv = (\<lambda>_. net_recv frag sfd),
     sys_close = (\<lambda>fd w. w\<lparr>w_desk := sys_close d fd (w_desk w)\<rparr>),
     sys_getpid = sys_getpid d, sys_ftok = sys_ftok d, sys_msgget = (\<lambda>k. on_desk (sys_msgget d k)),
     sys_msgrcv = (\<lambda>q t. on_desk (sys_msgrcv d q t)), sys_msgctl_rmid = (\<lambda>q w. w\<lparr>w_desk := sys_msgctl_rmid d q (w_desk w)\<rparr>),
     sys_system = (\<lambda>c. on_desk (sys_system d c)), sys_kill = (\<lambda>p w. w\<lparr>w_desk := sys_kill d p (w_desk w)\<rparr>)\<rparr>"

section \<open>A round for one connection\<close>

lemma serve_idle:
  assumes "\<forall>j \<in> set js. j < length (clients net) \<and> c_fd (clients net ! j) \<noteq> sfd \<and> (c_fd (clients net ! j) = - 1 \<or> fd_ok (c_fd (clients net ! j)))"
    and "fd_ok sfd"
  shows "serve_clients recv (FD_ZERO[nat sfd := True]) js net w = Some (net, w)"
  using assms(1)
proof (induction js)
  case (Cons j js)
  let ?c = "clients net ! j"
  have "(if - 1 \<noteq> c_fd ?c then FD_ISSET (c_fd ?c) (FD_ZERO[nat sfd := True]) else Some False) = Some False"
  proof (cases "c_fd ?c = - 1")
    case False
    then have f: "fd_ok (c_fd ?c)" "c_fd ?c \<noteq> sfd" using Cons.prems by auto
    then have "nat (c_fd ?c) \<noteq> nat sfd" "nat (c_fd ?c) < FD_SETSIZE" using assms(2) by (auto simp: fd_ok_def)
    then show ?thesis using False FD_ok(2) [OF f(1), of "FD_ZERO[nat sfd := True]"] by (simp add: FD_ZERO_def)
  qed simp
  then show ?case using Cons by (simp add: rd_def)
qed simp

lemma serve_one:
  assumes S: "srv.serving net w" and i: "i < MAX_CLIENTS" "c_fd (clients net ! i) = sfd" "sfd \<noteq> - 1"
    and bs: "bs \<noteq> []" "length bs \<le> CHAT_MAX_MSG_SIZE"
  shows "\<exists>c w'. select_loop [one_round sfd bs] net w = Some (0, net\<lparr>clients := (clients net)[i := c]\<rparr>, w') \<and>
    srv.serving (net\<lparr>clients := (clients net)[i := c]\<rparr>) w' \<and> c_fd c = sfd \<and>
    deliver (Some ServerMng_HandleMessage) sfd (frames (pending (clients net ! i) @ bs)) w = Some w' \<and>
    pending c = rest (pending (clients net ! i) @ bs)"
proof -
  let ?cs = "clients net" let ?c = "clients net ! i" let ?r = "one_round sfd bs" let ?R = "FD_ZERO[nat sfd := True]"
  have I: "conns_ok (listenFd net) ?cs" "onMsg net = Some ServerMng_HandleMessage" "onDisc net = Some ServerMng_OnDisconnect" "srv_inv w"
    using S by (auto simp: srv.serving_def net_inv_def)
  have cs: "length ?cs = MAX_CLIENTS" "client_ok ?c" "fd_ok sfd" "listenFd net \<noteq> sfd" "fd_ok (listenFd net)"
    using I(1) i by (auto simp: conns_ok_def client_ok_def)
  have R: "length ?R = FD_SETSIZE" by (simp add: FD_ZERO_def)
  have rok: "recv_ok (os_recv ?r)" by (simp add: recv_ok_def one_round_def)
  have got: "os_recv ?r sfd (RECV_BUFFER_SIZE - c_len ?c) = Some bs"
    using bs(2) client_ok_space(2) [OF cs(2)] by (simp add: one_round_def)
  obtain b where b: "HandleClientData (os_recv ?r) ?c (masterSet net) (onMsg net) (onDisc net) w =
      map_option (\<lambda>w. (?c\<lparr>c_buffer := b, c_len := length (rest (pending ?c @ bs))\<rparr>, masterSet net, w))
        (deliver (onMsg net) sfd (frames (pending ?c @ bs)) w)"
    "client_ok (?c\<lparr>c_buffer := b, c_len := length (rest (pending ?c @ bs))\<rparr>)"
    "pending (?c\<lparr>c_buffer := b, c_len := length (rest (pending ?c @ bs))\<rparr>) = rest (pending ?c @ bs)"
    using HandleClientData_data [OF cs(2) srv.reads_law rok, of bs "masterSet net" "onDisc net" w] got bs(1) i(2) I(2) by auto
  let ?c' = "?c\<lparr>c_buffer := b, c_len := length (rest (pending ?c @ bs))\<rparr>"
  obtain w' where w': "deliver (onMsg net) sfd (frames (pending ?c @ bs)) w = Some w'"
    using srv.deliver_total [OF I(4), of "frames (pending ?c @ bs)" sfd] frames_complete I(2) by auto
  let ?n = "net\<lparr>clients := ?cs[i := ?c']\<rparr>"
  have idle: "c_fd (?cs ! j) \<noteq> sfd \<and> (c_fd (?cs ! j) = - 1 \<or> fd_ok (c_fd (?cs ! j)))" if "j < MAX_CLIENTS" "j \<noteq> i" for j
    using I(1) that i unfolding conns_ok_def client_ok_def by metis
  have sp: "[0..<MAX_CLIENTS] = [0..<i] @ i # [Suc i..<MAX_CLIENTS]"
    using i(1) by (metis upt_add_eq_append upt_conv_Cons le_add_diff_inverse less_imp_le zero_le)
  have "FD_ISSET sfd ?R = Some True" using FD_ok(2) [OF cs(3) R] cs(3) by (auto simp: FD_ZERO_def fd_ok_def nth_list_update)
  moreover have "serve_clients (os_recv ?r) ?R [0..<i] net w = Some (net, w)"
    using idle i(1) cs(1,3) by (intro serve_idle) auto
  moreover have "serve_clients (os_recv ?r) ?R [Suc i..<MAX_CLIENTS] ?n w' = Some (?n, w')"
    using idle cs(1,3) by (intro serve_idle) auto
  moreover have "serve_clients recv R (js @ ks) n v = do { (n, v) \<leftarrow> serve_clients recv R js n v; serve_clients recv R ks n v }"
    for recv R js ks and n :: "Server ServerNet" and v
    by (induction js arbitrary: n v) (auto split: bind_splits)
  ultimately have all: "serve_clients (os_recv ?r) ?R [0..<MAX_CLIENTS] net w = Some (?n, w')"
    unfolding sp using cs(1) i b(1) w' by (simp add: rd_def wr_def)
  have "FD_ISSET (listenFd net) ?R = Some False"
    using FD_ok(2) [OF cs(5) R] cs(3-5) by (auto simp: FD_ZERO_def fd_ok_def nth_list_update)
  then have run: "select_loop [?r] net w = Some (0, ?n, w')"
    using all by (simp add: serve_ready_def one_round_def)
  moreover have "srv.serving ?n w'"
  proof -
    have "round_ok ?r" using rok R by (simp add: round_ok_def accept_ok_def one_round_def)
    then show ?thesis using srv.select_loop_ok [OF S, of "[?r]"] run by auto
  qed
  ultimately show ?thesis using w' b(3) i(2) I(2) by (intro exI [of _ ?c'] exI [of _ w']) simp
qed

section \<open>The connection as a stream\<close>

text \<open>The bytes of an incomplete message that the server keeps for a connection.\<close>

definition kept :: "int \<Rightarrow> Server ServerNet \<Rightarrow> byte list" where
  "kept sfd net = (case find (\<lambda>c. c_fd c = sfd) (clients net) of None \<Rightarrow> [] | Some c \<Rightarrow> pending c)"

definition connected :: "int \<Rightarrow> Server ServerNet \<Rightarrow> bool" where
  "connected sfd net \<longleftrightarrow> sfd \<noteq> - 1 \<and> (\<exists>i < MAX_CLIENTS. c_fd (clients net ! i) = sfd)"

definition online :: "int \<Rightarrow> int \<Rightarrow> 'd World \<Rightarrow> bool" where
  "online fd sfd w \<longleftrightarrow> 0 \<le> fd \<and> srv.serving (w_net w) (w_srv w) \<and> connected sfd (w_net w) \<and> frames (kept sfd (w_net w)) = [] \<and>
     w_read w \<le> length (replies sfd (w_srv w))"

definition on_the_way :: "int \<Rightarrow> 'd World \<Rightarrow> byte list" where
  "on_the_way sfd w = drop (w_read w) (replies sfd (w_srv w))"

definition far_end :: "int \<Rightarrow> 'd World \<Rightarrow> byte list \<times> Server" where
  "far_end sfd w = (kept sfd (w_net w), w_srv w)"

definition reacts :: "int \<Rightarrow> byte list \<times> Server \<Rightarrow> byte list \<Rightarrow> byte list \<Rightarrow> byte list \<times> Server \<Rightarrow> bool" where
  "reacts sfd p bs r p' \<longleftrightarrow> deliver (Some ServerMng_HandleMessage) sfd (frames (fst p @ bs)) (snd p) = Some (snd p') \<and>
     fst p' = rest (fst p @ bs) \<and> replies sfd (snd p') = replies sfd (snd p) @ r"

lemma kept_at:
  assumes "conns_ok l (clients net)" "i < MAX_CLIENTS" "c_fd (clients net ! i) = sfd" "sfd \<noteq> - 1"
  shows "kept sfd net = pending (clients net ! i)"
proof -
  have L: "length (clients net) = MAX_CLIENTS" using assms(1) by (simp add: conns_ok_def)
  have "find (\<lambda>c. c_fd c = sfd) (clients net) = Some (clients net ! i)"
  proof -
    have "\<not> c_fd (clients net ! j) = sfd" if "j < i" for j
      using assms that unfolding conns_ok_def by (metis less_trans nat_neq_iff)
    then show ?thesis using L assms(2,3) by (auto simp: find_Some_iff)
  qed
  then show ?thesis by (simp add: kept_def)
qed

text \<open>The server only adds to what it has sent, and answers on the connection of the request.\<close>

lemma handled_message:
  assumes "srv_rel w S" "chat_inv S" "2 \<le> length f"
  obtains w' rep S' where "ServerMng_HandleMessage fd (Some f) (length f) w = Some (0, w')" "chat_step (srv_ok w) fd (parse_request f) S rep S'"
    "srv_rel w' S'" "chat_inv S'" "srv_ok w' = srv_ok w" "sent w' = sent w @ reply_log fd rep"
proof -
  obtain w' where w': "ServerMng_HandleMessage fd (Some f) (length f) w = Some (0, w')" "answers fd (parse_request f) w S w'"
    using ServerMng_HandleMessage_answers [OF assms order_refl, of fd] by auto
  then obtain rep S' where "chat_step (srv_ok w) fd (parse_request f) S rep S'" "srv_rel w' S'" "srv_ok w' = srv_ok w"
      "sent w' = sent w @ reply_log fd rep" by (auto simp: answers_def)
  then show thesis using that w'(1) chat_step_inv [OF _ assms(2)] by blast
qed

lemma deliver_sent:
  assumes "srv_inv w" "\<forall>f \<in> set fs. 2 \<le> length f" "deliver (Some ServerMng_HandleMessage) sfd fs w = Some w'"
  shows "\<exists>ms. sent w' = sent w @ ms \<and> (\<forall>m \<in> set ms. fst m = sfd)"
  using assms
proof (induction fs arbitrary: w)
  case (Cons f fs)
  obtain S where S: "srv_rel w S" "chat_inv S" using Cons.prems(1) by (auto simp: srv_inv_def)
  obtain w1 rep S1 where w1: "ServerMng_HandleMessage sfd (Some f) (length f) w = Some (0, w1)" "srv_rel w1 S1" "chat_inv S1"
      "sent w1 = sent w @ reply_log sfd rep"
    using handled_message [OF S, of f sfd] Cons.prems(2) by (metis list.set_intros(1))
  moreover have "\<forall>m \<in> set (reply_log sfd rep). fst m = sfd" by (auto simp: reply_log_def split: option.splits)
  moreover obtain ms where "sent w' = sent w1 @ ms" "\<forall>m \<in> set ms. fst m = sfd"
    using Cons.IH [of w1] Cons.prems(2,3) w1(1-3) by (auto simp: srv_inv_def)
  ultimately show ?case using w1(4) by (intro exI [of _ "reply_log sfd rep @ ms"]) auto
qed simp

lemma replies_grow: "sent w' = sent w @ ms \<Longrightarrow> \<exists>r. replies sfd w' = replies sfd w @ r"
  by (simp add: replies_def)

text \<open>The laws of the stream: \<open>recv\<close> gives a part of what is on the way, and for what \<open>send\<close> passes on the server reacts.\<close>

lemma world_recv:
  fixes e :: "'d World"
  assumes e: "online fd sfd e" "on_the_way sfd e \<noteq> []" "0 < n"
  shows "\<exists>k e'. 0 < k \<and> k \<le> n \<and> k \<le> length (on_the_way sfd e) \<and>
      sys_recv (world frag sfd d) fd n e = (Some (take k (on_the_way sfd e)), e') \<and> online fd sfd e' \<and>
      on_the_way sfd e' = drop k (on_the_way sfd e) \<and> far_end sfd e' = far_end sfd e"
proof -
  let ?k = "min (min n (Suc (frag (w_time e)))) (length (on_the_way sfd e))"
  have k: "take (min n (Suc (frag (w_time e)))) (on_the_way sfd e) = take ?k (on_the_way sfd e)" "length (take ?k (on_the_way sfd e)) = ?k"
    by (simp_all add: min_def)
  let ?e = "e\<lparr>w_read := w_read e + ?k, w_time := Suc (w_time e)\<rparr>"
  have "sys_recv (world frag sfd d) fd n e = (Some (take ?k (on_the_way sfd e)), ?e)"
    using k by (simp add: world_def net_recv_def on_the_way_def)
  moreover have "online fd sfd ?e" using e(1) by (auto simp: online_def on_the_way_def)
  moreover have "on_the_way sfd ?e = drop ?k (on_the_way sfd e)" by (simp add: on_the_way_def add.commute)
  moreover have "far_end sfd ?e = far_end sfd e" by (simp add: far_end_def)
  moreover have "0 < ?k" using e(2,3) by simp
  ultimately show ?thesis by (intro exI [of _ ?k] exI [of _ ?e]) simp
qed

lemma world_send:
  fixes e :: "'d World"
  assumes e: "online fd sfd e" "bs \<noteq> []"
  shows "\<exists>k r e'. 0 < k \<and> k \<le> length bs \<and> sys_send (world frag sfd d) fd bs e = (int k, e') \<and> online fd sfd e' \<and>
      reacts sfd (far_end sfd e) (take k bs) r (far_end sfd e') \<and> on_the_way sfd e' = on_the_way sfd e @ r"
proof -
  let ?k = "min (length bs) (min CHAT_MAX_MSG_SIZE (Suc (frag (w_time e))))"
  have k: "0 < ?k" "?k \<le> length bs" "length (take ?k bs) \<le> CHAT_MAX_MSG_SIZE" "take ?k bs \<noteq> []"
    using e(2) by (auto simp: size_defs)
  let ?net = "w_net e"
  have S: "srv.serving ?net (w_srv e)" "frames (kept sfd ?net) = []" "w_read e \<le> length (replies sfd (w_srv e))"
    using e(1) by (auto simp: online_def)
  obtain i where i: "i < MAX_CLIENTS" "c_fd (clients ?net ! i) = sfd" "sfd \<noteq> - 1" using e(1) by (auto simp: online_def connected_def)
  have C: "conns_ok (listenFd ?net) (clients ?net)" "srv_inv (w_srv e)" using S(1) by (auto simp: srv.serving_def net_inv_def)
  have kp: "kept sfd ?net = pending (clients ?net ! i)" by (rule kept_at [OF C(1) i])
  obtain c w' where c: "select_loop [one_round sfd (take ?k bs)] ?net (w_srv e) = Some (0, ?net\<lparr>clients := (clients ?net)[i := c]\<rparr>, w')"
      "srv.serving (?net\<lparr>clients := (clients ?net)[i := c]\<rparr>) w'" "c_fd c = sfd"
      "deliver (Some ServerMng_HandleMessage) sfd (frames (kept sfd ?net @ take ?k bs)) (w_srv e) = Some w'"
      "pending c = rest (kept sfd ?net @ take ?k bs)"
    using serve_one [OF S(1) i k(4,3)] unfolding kp by blast
  let ?net' = "?net\<lparr>clients := (clients ?net)[i := c]\<rparr>"
  let ?e = "e\<lparr>w_net := ?net', w_srv := w', w_time := Suc (w_time e)\<rparr>"
  have snd: "sys_send (world frag sfd d) fd bs e = (int ?k, ?e)" using c(1) e(2) by (simp add: world_def net_send_def Let_def)
  have L: "length (clients ?net) = MAX_CLIENTS" using C(1) by (simp add: conns_ok_def)
  have "conns_ok (listenFd ?net') (clients ?net')" using c(2) by (simp add: srv.serving_def net_inv_def)
  from kept_at [OF this i(1) _ i(3)] have kp': "kept sfd ?net' = pending c" using c(3) i(1) L by simp
  have fr: "frames (kept sfd ?net') = []" unfolding kp' c(5) using frames_of_rest by blast
  obtain r where r: "replies sfd w' = replies sfd (w_srv e) @ r"
    using replies_grow deliver_sent [OF C(2) _ c(4)] frames_complete by blast
  have "connected sfd ?net'" using i c(3) L by (auto simp: connected_def)
  then have "online fd sfd ?e" using e(1) c(2) fr r S(3) by (simp add: online_def)
  moreover have "reacts sfd (far_end sfd e) (take ?k bs) r (far_end sfd ?e)"
    using c(4,5) kp' r by (simp add: reacts_def far_end_def)
  moreover have "on_the_way sfd ?e = on_the_way sfd e @ r" using r S(3) by (simp add: on_the_way_def)
  ultimately show ?thesis using snd k(1,2) by blast
qed

interpretation conn: byte_stream "world frag sfd d" fd "online fd sfd" "on_the_way sfd" "far_end sfd" "reacts sfd"
  for frag :: "nat \<Rightarrow> nat" and sfd :: int and d :: "'d Os" and fd :: int
proof
  show "0 \<le> fd" if "online fd sfd e" for e :: "'d World" using that by (simp add: online_def)
  show "reacts sfd (far_end sfd e) [] [] (far_end sfd e)" if "online fd sfd e" for e :: "'d World"
  proof -
    have "frames (kept sfd (w_net e)) = []" using that by (simp add: online_def)
    moreover from this have "rest (kept sfd (w_net e)) = kept sfd (w_net e)" using frames_rest [of "kept sfd (w_net e)"] by simp
    ultimately show ?thesis by (simp add: reacts_def far_end_def)
  qed
  show "reacts sfd p (a @ b) (r @ r') p''" if "reacts sfd p a r p'" "reacts sfd p' b r' p''" for p a r p' b r' p''
    using that frames_append [of "fst p @ a" b] by (simp add: reacts_def deliver_append)
qed (use world_recv world_send in blast)+

section \<open>Agreement of client and server\<close>

fun op_request :: "ClientOp \<Rightarrow> Request" where
  "op_request (DoRegister u p) = Register u p"
| "op_request (DoLogin u p) = Login u p"
| "op_request DoLogout = Logout"
| "op_request (DoCreate g) = CreateGroup g"
| "op_request (DoJoin g) = JoinGroup g"
| "op_request (DoLeave g) = LeaveGroup g"

text \<open>
  Client and server agree: a client without a user is on a connection without a user and has no windows; the user of the client is the one the server has
  for the connection, and the windows are for groups of this user.
\<close>

definition agree :: "int \<Rightarrow> Session \<Rightarrow> Chat \<Rightarrow> bool" where
  "agree sfd Se S \<longleftrightarrow>
     (case s_user Se of
        None \<Rightarrow> free_fd (accts S) sfd \<and> s_windows Se = []
      | Some u \<Rightarrow> \<exists>x. accts S u = Some x \<and> a_fd x = sfd \<and> set (s_windows Se) \<subseteq> set (a_groups x))"

inductive_cases step_register: "chat_step b fd (Register k p) S rep S'"
inductive_cases step_login: "chat_step b fd (Login k p) S rep S'"
inductive_cases step_logout: "chat_step b fd Logout S rep S'"
inductive_cases step_create: "chat_step b fd (CreateGroup g) S rep S'"
inductive_cases step_join: "chat_step b fd (JoinGroup g) S rep S'"
inductive_cases step_leave: "chat_step b fd (LeaveGroup g) S rep S'"

inductive_cases ses_register: "session_step (DoRegister u p) st Se Se'"
inductive_cases ses_login: "session_step (DoLogin u p) st Se Se'"
inductive_cases ses_logout: "session_step DoLogout st Se Se'"
inductive_cases ses_create: "session_step (DoCreate g) st Se Se'"
inductive_cases ses_join: "session_step (DoJoin g) st Se Se'"
inductive_cases ses_leave: "session_step (DoLeave g) st Se Se'"

definition fd_unique :: "accounts \<Rightarrow> int \<Rightarrow> bool" where
  "fd_unique U fd \<longleftrightarrow> (\<forall>k x k' x'. U k = Some x \<longrightarrow> U k' = Some x' \<longrightarrow> a_fd x = fd \<longrightarrow> a_fd x' = fd \<longrightarrow> k = k')"

lemma srv_rel_fd_unique: "srv_rel w S \<Longrightarrow> fd \<noteq> - 1 \<Longrightarrow> fd_unique (accts S) fd"
  unfolding srv_rel_def fd_unique_def using um.fd_unique_law by metis

lemma agree_user:
  assumes "agree sfd Se S" "fd_unique (accts S) sfd" "accts S k = Some x" "a_fd x = sfd"
  shows "s_user Se = Some k" "set (s_windows Se) \<subseteq> set (a_groups x)"
proof -
  obtain u y where u: "s_user Se = Some u" "accts S u = Some y" "a_fd y = sfd" "set (s_windows Se) \<subseteq> set (a_groups y)"
    using assms(1,3,4) by (auto simp: agree_def free_fd_def split: option.splits)
  have "u = k" using assms(2-4) u(2,3) unfolding fd_unique_def by blast
  then show "s_user Se = Some k" "set (s_windows Se) \<subseteq> set (a_groups x)" using u assms(3) by auto
qed

text \<open>A reply other than OK leaves the accounts as they are.\<close>

lemma refused_accts: "chat_step b fd rq S (Some (rop, st, p)) S' \<Longrightarrow> st \<noteq> ST_OK \<Longrightarrow> accts S' = accts S"
  by (cases rule: chat_step.cases) auto

lemma agree_cong: "accts S' = accts S \<Longrightarrow> agree sfd Se S' = agree sfd Se S"
  by (simp add: agree_def split: option.split)

lemma agree_step:
  assumes st: "chat_step b sfd (op_request op) S (Some (rop, st, p)) S'" and se: "session_step op st Se Se'"
    and A: "agree sfd Se S" and fd: "fd_ok sfd" "fd_unique (accts S) sfd"
  shows "agree sfd Se' S'"
proof (cases "st = ST_OK")
  case False
  then have "Se' = Se" using se by (auto elim: session_step.cases)
  then show ?thesis using agree_cong [OF refused_accts [OF st False]] A by simp
next
  case ok: True
  note user = agree_user [OF A fd(2)]
  have m1: "sfd \<noteq> - 1" using fd(1) by (auto simp: fd_ok_def)
  show ?thesis
  proof (cases op)
    case (DoRegister u q)
    have r: "accts S u = None" "accts S' = (accts S)(u := Some \<lparr>a_pwd = q, a_fd = - 1, a_groups = []\<rparr>)"
      using st ok unfolding DoRegister op_request.simps by (auto elim!: step_register)
    have "Se' = Se" using se unfolding DoRegister by (auto elim!: ses_register)
    then show ?thesis using A r m1 by (auto simp: agree_def free_fd_def split: option.splits)
  next
    case (DoLogin u q)
    obtain x where r: "free_fd (accts S) sfd" "accts S u = Some x" "accts S' = (accts S)(u := Some (x\<lparr>a_fd := sfd\<rparr>))"
      using st ok unfolding DoLogin op_request.simps by (auto elim!: step_login)
    have "Se' = Se\<lparr>s_user := Some u\<rparr>" using se ok unfolding DoLogin by (auto elim!: ses_login)
    moreover have "s_windows Se = []" using A r(1) by (auto simp: agree_def free_fd_def split: option.splits)
    ultimately show ?thesis using r(3) by (simp add: agree_def)
  next
    case DoLogout
    obtain k x where r: "accts S k = Some x" "a_fd x = sfd" "accts S' = (accts S)(k := Some (x\<lparr>a_fd := - 1, a_groups := []\<rparr>))"
      using st ok unfolding DoLogout op_request.simps by (auto elim!: step_logout)
    have "free_fd (accts S') sfd" using r fd(2) m1 by (auto simp: free_fd_def fd_unique_def)
    moreover have "Se' = \<lparr>s_user = None, s_windows = []\<rparr>" using se ok unfolding DoLogout by (auto elim!: ses_logout)
    ultimately show ?thesis by (simp add: agree_def)
  next
    case (DoCreate g)
    obtain k x where r: "accts S k = Some x" "a_fd x = sfd" "accts S' = (accts S)(k := Some (x\<lparr>a_groups := a_groups x @ [g]\<rparr>))"
      using st ok unfolding DoCreate op_request.simps by (auto elim!: step_create)
    have "Se' = Se \<or> Se' = Se\<lparr>s_windows := s_windows Se @ [g]\<rparr>" using se ok unfolding DoCreate by (auto elim!: ses_create)
    then show ?thesis using user [OF r(1,2)] r by (auto simp: agree_def)
  next
    case (DoJoin g)
    obtain k x where r: "accts S k = Some x" "a_fd x = sfd" "accts S' = (accts S)(k := Some (x\<lparr>a_groups := a_groups x @ [g]\<rparr>))"
      using st ok unfolding DoJoin op_request.simps by (auto elim!: step_join)
    have "Se' = Se \<or> Se' = Se\<lparr>s_windows := s_windows Se @ [g]\<rparr>" using se ok unfolding DoJoin by (auto elim!: ses_join)
    then show ?thesis using user [OF r(1,2)] r by (auto simp: agree_def)
  next
    case (DoLeave g)
    obtain k x where r: "accts S k = Some x" "a_fd x = sfd" "accts S' = (accts S)(k := Some (x\<lparr>a_groups := removeAll g (a_groups x)\<rparr>))"
      using st ok unfolding DoLeave op_request.simps by (auto elim!: step_leave)
    have "Se' = Se\<lparr>s_windows := filter (\<lambda>h. h \<noteq> g) (s_windows Se)\<rparr>" using se ok unfolding DoLeave by (auto elim!: ses_leave)
    then show ?thesis using user [OF r(1,2)] r by (auto simp: agree_def)
  qed
qed

text \<open>A step for another connection.\<close>

lemma agree_other:
  assumes "chat_step b fd rq S rep S'" and "fd \<noteq> sfd" and "sfd \<noteq> - 1" and "agree sfd Se S"
  shows "agree sfd Se S'"
  using assms by (cases rule: chat_step.cases) (auto simp: agree_def free_fd_def split: option.splits)

section \<open>A request and its reply\<close>

lemma frame_complete: "length pl < 256 \<Longrightarrow> length (frame o' pl) = 2 + unat (frame o' pl ! 1)"
  by (simp add: frame_def)

lemma op_frame_complete:
  assumes "op_frame op = Some fr"
  shows "2 \<le> length fr" "length fr = 2 + unat (fr ! 1)"
proof -
  show "length fr = 2 + unat (fr ! 1)"
  proof (cases op)
    case (DoRegister u p)
    then show ?thesis using assms frame_complete [of "field u @ field p" OP_REG_REQ] by (auto simp: size_defs split: if_splits)
  next
    case (DoLogin u p)
    then show ?thesis using assms frame_complete [of "field u @ field p" OP_LOGIN_REQ] by (auto simp: size_defs split: if_splits)
  next
    case DoLogout
    then show ?thesis using assms frame_complete [of "[]" OP_LOGOUT_REQ] by auto
  next
    case (DoCreate g)
    then show ?thesis using assms frame_complete [of "field g" OP_CREATE_GROUP_REQ] by (auto simp: size_defs split: if_splits)
  next
    case (DoJoin g)
    then show ?thesis using assms frame_complete [of "field g" OP_JOIN_GROUP_REQ] by (auto simp: size_defs split: if_splits)
  next
    case (DoLeave g)
    then show ?thesis using assms frame_complete [of "field g" OP_LEAVE_GROUP_REQ] by (auto simp: size_defs split: if_splits)
  qed
  then show "2 \<le> length fr" by simp
qed

lemma frames_single: "2 \<le> length f \<Longrightarrow> length f = 2 + unat (f ! 1) \<Longrightarrow> frames f = [f] \<and> rest f = []"
  using framing_step [of f "length f"] framing_stop [of "[]"] by simp

lemma opcode_frame: "opcode_of (frame o' pl ! 0) = opcode_of (op_byte o')"
  by (simp add: frame_def)

lemma parse_op_frame:
  assumes fr: "op_frame op = Some fr" and wf: "wf_op op"
  shows "parse_request fr = op_request op"
proof -
  have L: "\<not> length fr < 2" using op_frame_complete(1) [OF fr] by simp
  have cs: "as_cstring s = s" if "wf_cstring s" for s
    using that by (auto simp: wf_cstring_def takeWhile_eq_all_conv)
  show ?thesis
  proof (cases op)
    case (DoRegister u p)
    then have f: "fr = frame OP_REG_REQ (field u @ field p)" "parse_user_pass fr = Some (u, p)" "as_cstring u = u" "as_cstring p = p"
      using fr wf parse_user_pass_frame [of u p OP_REG_REQ] cs by (auto simp: wf_op_def split: if_splits)
    moreover have "opcode_of (fr ! 0) = OP_REG_REQ" unfolding f(1) opcode_frame by (simp add: opcode_of_def opcodes_def)
    ultimately show ?thesis using L DoRegister by (simp add: parse_request_def Let_def)
  next
    case (DoLogin u p)
    then have f: "fr = frame OP_LOGIN_REQ (field u @ field p)" "parse_user_pass fr = Some (u, p)" "as_cstring u = u" "as_cstring p = p"
      using fr wf parse_user_pass_frame [of u p OP_LOGIN_REQ] cs by (auto simp: wf_op_def split: if_splits)
    moreover have "opcode_of (fr ! 0) = OP_LOGIN_REQ" unfolding f(1) opcode_frame by (simp add: opcode_of_def opcodes_def)
    ultimately show ?thesis using L DoLogin by (simp add: parse_request_def Let_def)
  next
    case DoLogout
    then have "opcode_of (fr ! 0) = OP_LOGOUT_REQ" using fr opcode_frame [of OP_LOGOUT_REQ "[]"] by (simp add: opcode_of_def opcodes_def)
    then show ?thesis using L DoLogout by (simp add: parse_request_def Let_def)
  next
    case (DoCreate g)
    then have f: "fr = frame OP_CREATE_GROUP_REQ (field g)" "parse_groupname fr = Some g" "as_cstring g = g"
      using fr wf parse_groupname_frame [of g OP_CREATE_GROUP_REQ] cs by (auto simp: wf_op_def split: if_splits)
    moreover have "opcode_of (fr ! 0) = OP_CREATE_GROUP_REQ" unfolding f(1) opcode_frame by (simp add: opcode_of_def opcodes_def)
    ultimately show ?thesis using L DoCreate by (simp add: parse_request_def Let_def)
  next
    case (DoJoin g)
    then have f: "fr = frame OP_JOIN_GROUP_REQ (field g)" "parse_groupname fr = Some g" "as_cstring g = g"
      using fr wf parse_groupname_frame [of g OP_JOIN_GROUP_REQ] cs by (auto simp: wf_op_def split: if_splits)
    moreover have "opcode_of (fr ! 0) = OP_JOIN_GROUP_REQ" unfolding f(1) opcode_frame by (simp add: opcode_of_def opcodes_def)
    ultimately show ?thesis using L DoJoin by (simp add: parse_request_def Let_def)
  next
    case (DoLeave g)
    then have f: "fr = frame OP_LEAVE_GROUP_REQ (field g)" "parse_groupname fr = Some g" "as_cstring g = g"
      using fr wf parse_groupname_frame [of g OP_LEAVE_GROUP_REQ] cs by (auto simp: wf_op_def split: if_splits)
    moreover have "opcode_of (fr ! 0) = OP_LEAVE_GROUP_REQ" unfolding f(1) opcode_frame by (simp add: opcode_of_def opcodes_def)
    ultimately show ?thesis using L DoLeave by (simp add: parse_request_def Let_def)
  qed
qed

text \<open>What the replies of the server look like: a known status, and an address that fits exactly for a group that was created or joined.\<close>

lemma reply_shape:
  assumes "chat_step b fd (op_request op) S rep S'" "srv_rel w S"
  obtains rop st p where "rep = Some (rop, st, p)" "st \<in> set statuses"
    "case p of None \<Rightarrow> group_op op \<longrightarrow> st \<noteq> ST_OK | Some a \<Rightarrow> group_op op \<and> st = ST_OK \<and> length (mp_ip a) < CHAT_MAX_IP_STR_LEN"
proof -
  have pool: "length (mp_ip a) < CHAT_MAX_IP_STR_LEN" if "a \<in> set (avail S)" for a
    using assms(2) that by (auto simp: srv_rel_def fmq_rel_def pair_ok_def)
  have grp: "length (mp_ip (i_pair i)) < CHAT_MAX_IP_STR_LEN" if "grps S g = Some i" for g i
    by (rule srv_relE [OF assms(2)]) (use gm_rel_pair_ok [of _ "grps S" g i] that in \<open>auto simp: pair_ok_def\<close>)
  have "\<exists>rop st p. rep = Some (rop, st, p) \<and> st \<in> set statuses \<and>
      (case p of None \<Rightarrow> group_op op \<longrightarrow> st \<noteq> ST_OK | Some a \<Rightarrow> group_op op \<and> st = ST_OK \<and> length (mp_ip a) < CHAT_MAX_IP_STR_LEN)"
    using assms(1) pool grp
    by (cases op) (auto simp: statuses_def elim!: step_register step_login step_logout step_create step_join step_leave)
  then show thesis using that by blast
qed

lemma encode_reply_frame:
  assumes "case p of None \<Rightarrow> True | Some a \<Rightarrow> length (mp_ip a) < CHAT_MAX_IP_STR_LEN"
  shows "2 \<le> length (encode_reply (rop, st, p)) \<and> length (encode_reply (rop, st, p)) = 2 + unat (encode_reply (rop, st, p) ! 1) \<and>
    length (encode_reply (rop, st, p)) \<le> CHAT_MAX_MSG_SIZE"
proof (cases p)
  case None
  then show ?thesis using frame_complete [of "[st_byte st]" rop] by (simp add: size_defs)
next
  case (Some a)
  then show ?thesis
    using assms frame_complete [of "st_byte st # field (mp_ip a) @ field (port_bytes (mp_port a))" rop] by (simp add: size_defs port_bytes_def)
qed

lemma parse_encode_reply:
  assumes "st \<in> set statuses"
    "case p of None \<Rightarrow> group_op op \<longrightarrow> st \<noteq> ST_OK | Some a \<Rightarrow> group_op op \<and> st = ST_OK \<and> length (mp_ip a) < CHAT_MAX_IP_STR_LEN"
  shows "reply_status op (Some (encode_reply (rop, st, p) @ tail, length (encode_reply (rop, st, p)))) = st"
proof (cases p)
  case None
  have "parse_status_rep (frame rop [st_byte st]) = Some st"
    using assms(1) by (simp add: parse_status_rep_def frame_def status_of_st_byte)
  then show ?thesis using None parse_group_rep_status [OF assms(1), of rop] by (simp add: reply_status_def)
next
  case (Some a)
  then show ?thesis
    using assms parse_group_rep_frame [of "mp_ip a" rop "mp_port a"] by (simp add: reply_status_def)
qed

text \<open>The exchange of one operation, through both programs.\<close>

lemma reacts_request:
  assumes fr: "op_frame op = Some fr" and wf: "wf_op op" and R: "srv_rel w S" "chat_inv S" and t: "reacts sfd ([], w) fr r p'" and sfd: "0 \<le> sfd"
  obtains rop st p S' where "chat_step (srv_ok w) sfd (op_request op) S (Some (rop, st, p)) S'" "srv_rel (snd p') S'" "chat_inv S'"
    "srv_ok (snd p') = srv_ok w" "r = encode_reply (rop, st, p)" "fst p' = []" "st \<in> set statuses"
    "case p of None \<Rightarrow> group_op op \<longrightarrow> st \<noteq> ST_OK | Some a \<Rightarrow> group_op op \<and> st = ST_OK \<and> length (mp_ip a) < CHAT_MAX_IP_STR_LEN"
proof -
  note F = op_frame_complete [OF fr]
  have single: "frames fr = [fr]" "rest fr = []" using frames_single [OF F] by auto
  obtain w' rep S' where h: "ServerMng_HandleMessage sfd (Some fr) (length fr) w = Some (0, w')" "chat_step (srv_ok w) sfd (parse_request fr) S rep S'"
      "srv_rel w' S'" "chat_inv S'" "srv_ok w' = srv_ok w" "sent w' = sent w @ reply_log sfd rep"
    by (rule handled_message [OF R F(1)])
  have st: "chat_step (srv_ok w) sfd (op_request op) S rep S'" using h(2) parse_op_frame [OF fr wf] by simp
  obtain rop st p where rep: "rep = Some (rop, st, p)" "st \<in> set statuses"
      "case p of None \<Rightarrow> group_op op \<longrightarrow> st \<noteq> ST_OK | Some a \<Rightarrow> group_op op \<and> st = ST_OK \<and> length (mp_ip a) < CHAT_MAX_IP_STR_LEN"
    by (rule reply_shape [OF st R(1)])
  have p': "snd p' = w'" "fst p' = []" "replies sfd w' = replies sfd w @ r" using t h(1) single by (auto simp: reacts_def)
  have "r = encode_reply (rop, st, p)" using p'(3) h(6) rep(1) sfd by (simp add: replies_def reply_log_def)
  then show thesis using that [of rop st p S'] st rep h(3-5) p'(1,2) by simp
qed

lemma world_round_trip:
  assumes e: "online fd sfd e" "on_the_way sfd e = []" "kept sfd (w_net e) = []" and m: "sockfd m = fd"
    and fr: "op_frame op = Some fr" and wf: "wf_op op" and R: "srv_rel (w_srv e) S" "chat_inv S" and sfd: "0 \<le> sfd"
  obtains b n e' rop st p S' where "round_trip (world frag sfd d) m (encoded (op_frame op)) e = Some (Some (b, n), e')" "reply_fits (Some (b, n))"
    "reply_status op (Some (b, n)) = st" "take n b = encode_reply (rop, st, p)" "online fd sfd e'" "on_the_way sfd e' = []" "kept sfd (w_net e') = []"
    "chat_step (srv_ok (w_srv e)) sfd (op_request op) S (Some (rop, st, p)) S'" "srv_rel (w_srv e') S'" "chat_inv S'"
    "srv_ok (w_srv e') = srv_ok (w_srv e)"
proof -
  let ?buf = "built fr (the msgBuf)"
  have L: "length ?buf = CHAT_MAX_MSG_SIZE" "length fr \<le> CHAT_MAX_MSG_SIZE"
    using op_frame_length [OF fr] msgBuf_length(2) by (simp_all add: length_built)
  have fe: "far_end sfd e = ([], w_srv e)" using e(3) by (simp add: far_end_def)
  have tk: "take (length fr) ?buf = fr" by simp
  have one: "\<forall>r p'. reacts sfd (far_end sfd e) (take (length fr) ?buf) r p' \<longrightarrow> 2 \<le> length r \<and> length r = 2 + unat (r ! 1)"
    unfolding fe tk
  proof (intro allI impI, erule reacts_request [OF fr wf R _ sfd])
    fix r rop st p
    assume r: "r = encode_reply (rop, st, p)"
      and p: "case p of None \<Rightarrow> group_op op \<longrightarrow> st \<noteq> ST_OK | Some a \<Rightarrow> group_op op \<and> st = ST_OK \<and> length (mp_ip a) < CHAT_MAX_IP_STR_LEN"
    have "case p of None \<Rightarrow> True | Some a \<Rightarrow> length (mp_ip a) < CHAT_MAX_IP_STR_LEN" using p by (cases p) auto
    then show "2 \<le> length r \<and> length r = 2 + unat (r ! 1)" using encode_reply_frame [of p rop st] r by blast
  qed
  have lens: "length fr \<le> length ?buf" "CHAT_MAX_MSG_SIZE \<le> length ?buf" using L by simp_all
  obtain r e1 e2 where x: "client_net_send_all (world frag sfd d) fd (Some ?buf) (length fr) e = Some (0, e1)"
      "reacts sfd ([], w_srv e) fr r (far_end sfd e2)"
      "client_net_recv_msg (world frag sfd d) fd (Some ?buf) (Some 0) e1 = Some (0, Some (r @ drop (length r) ?buf), Some (length r), e2)"
      "online fd sfd e2" "on_the_way sfd e2 = []"
    using conn.exchange [OF e(1,2) lens one, where n = 0 and frag = frag and d = d] unfolding fe tk by blast
  obtain rop st p S' where s: "chat_step (srv_ok (w_srv e)) sfd (op_request op) S (Some (rop, st, p)) S'" "srv_rel (w_srv e2) S'" "chat_inv S'"
      "srv_ok (w_srv e2) = srv_ok (w_srv e)" "r = encode_reply (rop, st, p)" "kept sfd (w_net e2) = []" "st \<in> set statuses"
      "case p of None \<Rightarrow> group_op op \<longrightarrow> st \<noteq> ST_OK | Some a \<Rightarrow> group_op op \<and> st = ST_OK \<and> length (mp_ip a) < CHAT_MAX_IP_STR_LEN"
    by (rule reacts_request [OF fr wf R x(2) sfd, unfolded far_end_def fst_conv snd_conv])
  let ?rep = "Some (r @ drop (length r) ?buf, length r)"
  have "round_trip (world frag sfd d) m (encoded (op_frame op)) e = Some (?rep, e2)"
    using x(1,3) m fr by (simp add: round_trip_def encoded_def)
  moreover have "reply_fits ?rep" by (simp add: reply_fits_def)
  moreover have "reply_status op ?rep = st" unfolding s(5) by (rule parse_encode_reply [OF s(7,8)])
  moreover have "take (length r) (r @ drop (length r) ?buf) = encode_reply (rop, st, p)" using s(5) by simp
  ultimately show thesis using that x(4,5) s by blast
qed

section \<open>Client and server in step\<close>

text \<open>No message is on the way, and client and server agree.\<close>

definition in_sync :: "int \<Rightarrow> ClientMng \<Rightarrow> Session \<Rightarrow> 'd World \<Rightarrow> Chat \<Rightarrow> bool" where
  "in_sync sfd m Se e S \<longleftrightarrow> online (sockfd m) sfd e \<and> on_the_way sfd e = [] \<and> kept sfd (w_net e) = [] \<and> cm_rel m Se \<and>
     srv_rel (w_srv e) S \<and> chat_inv S \<and> agree sfd Se S"

lemma online_fd_ok: "online fd sfd e \<Longrightarrow> fd_ok sfd"
  unfolding online_def connected_def srv.serving_def net_inv_def conns_ok_def client_ok_def by metis

lemma desk_inv_world:
  "desk_inv (world frag sfd d) (\<lambda>w. online fd sfd w \<and> on_the_way sfd w = [] \<and> kept sfd (w_net w) = [] \<and> w_srv w = v)"
  by (auto simp: desk_inv_def world_def on_desk_def online_def on_the_way_def split: prod.splits)

text \<open>What the server does for an operation: nothing when no request could be encoded, otherwise the step for the request, with the status of the operation.\<close>

definition served :: "bool \<Rightarrow> int \<Rightarrow> ClientOp \<Rightarrow> ChatStatus \<Rightarrow> Chat \<Rightarrow> Chat \<Rightarrow> bool" where
  "served b sfd op st S S' \<longleftrightarrow>
     (if op_frame op = None then st = ST_ERR_PROTOCOL \<and> S' = S else \<exists>rop p. chat_step b sfd (op_request op) S (Some (rop, st, p)) S')"

lemma in_sync_op:
  assumes sync: "in_sync sfd m Se e S" and wf: "wf_op op" and ip: "CHAT_MAX_IP_STR_LEN \<le> length ip"
  shows "\<exists>st m' e' Se' S'. client_op (world frag sfd d) ip port op (Some m) e = Some (st, Some m', e') \<and> in_sync sfd m' Se' e' S' \<and>
    session_step op st Se Se' \<and> served (srv_ok (w_srv e)) sfd op st S S' \<and> srv_ok (w_srv e') = srv_ok (w_srv e) \<and>
    (if op_frame op = None then st = ST_ERR_PROTOCOL \<and> w_srv e' = w_srv e
     else \<exists>rop p b n e1. chat_step (srv_ok (w_srv e)) sfd (op_request op) S (Some (rop, st, p)) S' \<and>
       round_trip (world frag sfd d) m (encoded (op_frame op)) e = Some (Some (b, n), e1) \<and> n \<le> length b \<and> take n b = encode_reply (rop, st, p))"
proof -
  have I: "online (sockfd m) sfd e" "on_the_way sfd e = []" "kept sfd (w_net e) = []" "cm_rel m Se" "srv_rel (w_srv e) S" "chat_inv S" "agree sfd Se S"
    using sync by (auto simp: in_sync_def)
  have fd: "fd_ok sfd" by (rule online_fd_ok [OF I(1)])
  show ?thesis
  proof (cases "op_frame op")
    case None
    have trip: "round_trip (world frag sfd d) m (encoded (op_frame op)) e = Some (None, e)" "reply_fits None"
      using None by (simp_all add: round_trip_def encoded_def reply_fits_def)
    have none: "op_frame op = None \<longrightarrow> (None :: (byte list \<times> nat) option) = None" by simp
    have st: "reply_status op None = ST_ERR_PROTOCOL" by (simp add: reply_status_def)
    let ?P = "\<lambda>w. online (sockfd m) sfd w \<and> on_the_way sfd w = [] \<and> kept sfd (w_net w) = [] \<and> w_srv w = w_srv e"
    have "?P e" using I(1-3) by simp
    then obtain m' e' Se' where o: "client_op (world frag sfd d) ip port op (Some m) e = Some (ST_ERR_PROTOCOL, Some m', e')" "sockfd m' = sockfd m"
        "session_step op ST_ERR_PROTOCOL Se Se'" "cm_rel m' Se'" and w: "?P e'"
      by (rule client_op_desk [OF I(4) trip none ip desk_inv_world, where port = port, unfolded st])
    have "Se' = Se" using o(3) by (auto elim: session_step.cases)
    then have "in_sync sfd m' Se' e' S" using w I o(2,4) by (simp add: in_sync_def)
    moreover have "served (srv_ok (w_srv e)) sfd op ST_ERR_PROTOCOL S S" using None by (simp add: served_def)
    ultimately show ?thesis using o(1,3) w None by auto
  next
    case (Some fr)
    have sfd: "0 \<le> sfd" "sfd \<noteq> - 1" using fd by (auto simp: fd_ok_def)
    obtain b n e1 rop st p S' where x: "round_trip (world frag sfd d) m (encoded (op_frame op)) e = Some (Some (b, n), e1)" "reply_fits (Some (b, n))"
        "reply_status op (Some (b, n)) = st" "take n b = encode_reply (rop, st, p)" "online (sockfd m) sfd e1" "on_the_way sfd e1 = []" "kept sfd (w_net e1) = []"
        "chat_step (srv_ok (w_srv e)) sfd (op_request op) S (Some (rop, st, p)) S'" "srv_rel (w_srv e1) S'" "chat_inv S'"
        "srv_ok (w_srv e1) = srv_ok (w_srv e)"
      by (rule world_round_trip [OF I(1-3) refl Some wf I(5,6) sfd(1)])
    have none: "op_frame op = None \<longrightarrow> Some (b, n) = None" using Some by simp
    let ?P = "\<lambda>w. online (sockfd m) sfd w \<and> on_the_way sfd w = [] \<and> kept sfd (w_net w) = [] \<and> w_srv w = w_srv e1"
    have "?P e1" using x(5-7) by simp
    then obtain m' e' Se' where o: "client_op (world frag sfd d) ip port op (Some m) e = Some (st, Some m', e')" "sockfd m' = sockfd m"
        "session_step op st Se Se'" "cm_rel m' Se'" and w: "?P e'"
      by (rule client_op_desk [OF I(4) x(1,2) none ip desk_inv_world, where port = port, unfolded x(3)])
    have "agree sfd Se' S'" by (rule agree_step [OF x(8) o(3) I(7) fd srv_rel_fd_unique [OF I(5) sfd(2)]])
    then have "in_sync sfd m' Se' e' S'" using w x(9,10) o(2,4) by (simp add: in_sync_def)
    moreover have "n \<le> length b" using x(2) by (simp add: reply_fits_def)
    moreover have "served (srv_ok (w_srv e)) sfd op st S S'" using x(8) Some by (auto simp: served_def)
    ultimately show ?thesis using o(1,3) x(1,4,8,11) w Some
      by (intro exI [of _ st] exI [of _ m'] exI [of _ e'] exI [of _ Se'] exI [of _ S']) auto
  qed
qed

text \<open>Agreement is a contract under which the menus of the client run.\<close>

definition synced :: "int \<Rightarrow> ClientMng \<Rightarrow> 'd World \<Rightarrow> Session \<Rightarrow> bool" where
  "synced sfd m e Se \<longleftrightarrow> (\<exists>S. in_sync sfd m Se e S)"

interpretation syncw: ui_driver "world frag sfd d" "synced sfd" for frag sfd d
proof
  fix m :: ClientMng and e :: "'a World" and Se op
  assume "synced sfd m e Se" "wf_op op"
  then obtain S where S: "in_sync sfd m Se e S" by (auto simp: synced_def)
  have ip: "CHAT_MAX_IP_STR_LEN \<le> length (replicate CHAT_MAX_IP_STR_LEN (0 :: byte))" by simp
  show "\<exists>st m' e' S'. client_op (world frag sfd d) (replicate CHAT_MAX_IP_STR_LEN 0) 0 op (Some m) e = Some (st, Some m', e') \<and>
      session_step op st Se S' \<and> synced sfd m' e' S'"
    using in_sync_op [OF S \<open>wf_op op\<close> ip, of frag d 0] unfolding synced_def by blast
qed

section \<open>The address of a group\<close>

definition enter_group ::
  "('e, 'z) Os_scheme \<Rightarrow> bool \<Rightarrow> ClientMng option \<Rightarrow> cstring option \<Rightarrow> byte list option \<Rightarrow> u16 option \<Rightarrow> 'e \<Rightarrow>
   (ChatStatus \<times> byte list option \<times> u16 option \<times> ClientMng option \<times> 'e) option"
where
  "enter_group os is_create = (if is_create then client_mng_create_group os else client_mng_join_group os)"

definition enter_op :: "bool \<Rightarrow> cstring \<Rightarrow> ClientOp" where
  "enter_op is_create g = (if is_create then DoCreate g else DoJoin g)"

lemma enter_group_op:
  "client_op os ip port (enter_op c g) pm e =
    do { (st, _, _, pm, e) \<leftarrow> enter_group os c pm (Some g) (Some ip) (Some port) e; Some (st, pm, e) }"
  by (simp add: client_op_def enter_op_def enter_group_def)

text \<open>The output variables hold the address of the reply.\<close>

lemma enter_group_output:
  assumes "op_frame (enter_op c g) \<noteq> None" "round_trip os m (encoded (op_frame (enter_op c g))) e = Some (Some (b, n), e1)" "n \<le> length b"
    and "parse_group_rep (take n b) = Some (ST_OK, a, pt)" "CHAT_MAX_IP_STR_LEN \<le> length ip"
    and "enter_group os c (Some m) (Some g) (Some ip) (Some port) e = Some (st, oi, opt, pm, e')"
  shows "st = ST_OK \<and> opt = Some pt \<and> (\<exists>ip'. oi = Some ip' \<and> cstr ip' = Some (as_cstring a))"
proof -
  let ?ip = "a @ 0 # drop (Suc (length a)) ip"
  let ?rop = "if c then OP_CREATE_GROUP_REQ else OP_JOIN_GROUP_REQ"
  have dec: "chat_decode_group_rep_ok (Some b) n (Some ST_OK) (Some ip) (Some port) = Some (0, Some ST_OK, Some ?ip, Some pt)"
    using decode_group_rep_ref [OF assms(3,5), of ST_OK port] assms(4) by simp
  have "chat_encode_groupname_req msgBuf ?rop (Some g) = Some (encoded (op_frame (enter_op c g)))"
    using encoded_requests(4,5) by (simp add: enter_op_def)
  then have "do_group_join os m ?rop (Some g) (Some ip) (Some port) e = Some (ST_OK, Some ?ip, Some pt, e1)"
    using assms(2) dec by (simp add: do_group_join_def)
  moreover have "enter_group os c = group_request os ?rop"
    by (simp add: enter_group_def client_mng_create_group_def client_mng_join_group_def)
  ultimately show ?thesis
    using assms(6) cstr_prefix [of a "drop (Suc (length a)) ip"] by (auto simp: group_request_def split: bind_splits)
qed

lemma decode_outs:
  "chat_decode_group_rep_ok b n st0 (Some ip) (Some port) = Some (r, st, oi, opt) \<Longrightarrow> \<exists>ip' port'. oi = Some ip' \<and> opt = Some port'"
  by (auto simp: chat_decode_group_rep_ok_def Let_def split: if_splits bind_splits; metis)

lemma group_join_outs:
  "do_group_join os m rop g (Some ip) (Some port) e = Some (st, oi, opt, e') \<Longrightarrow> \<exists>ip' port'. oi = Some ip' \<and> opt = Some port'"
  by (auto simp: do_group_join_def dest!: decode_outs split: bind_splits if_splits option.splits)

lemma enter_group_outs:
  assumes "enter_group os c (Some m) (Some g) (Some ip) (Some port) e = Some (st, oi, opt, pm, e')"
  obtains ip' port' where "oi = Some ip'" "opt = Some port'"
  using assms that
  by (auto simp: enter_group_def client_mng_create_group_def client_mng_join_group_def group_request_def dest!: group_join_outs
      split: bind_splits if_splits)

lemma entered_group:
  assumes "chat_step b sfd (op_request (enter_op c g)) S (Some (rop, ST_OK, p)) S'" "srv_rel w S"
  shows "\<exists>i. p = Some (i_pair i) \<and> grps S' g = Some i \<and> length (mp_ip (i_pair i)) < CHAT_MAX_IP_STR_LEN"
proof -
  have "\<exists>a i. p = Some a \<and> grps S' g = Some i \<and> i_pair i = a"
    using assms(1) by (auto simp: enter_op_def split: if_splits elim!: step_create step_join)
  then obtain i where i: "p = Some (i_pair i)" "grps S' g = Some i" by blast
  show ?thesis by (rule reply_shape [OF assms]) (use i in auto)
qed

lemma in_sync_enter:
  assumes sync: "in_sync sfd m Se e S" and g: "wf_cstring g" and ip: "CHAT_MAX_IP_STR_LEN \<le> length ip"
  shows "\<exists>st ip' port' m' e' Se' S'. enter_group (world frag sfd d) c (Some m) (Some g) (Some ip) (Some port) e =
      Some (st, Some ip', Some port', Some m', e') \<and> in_sync sfd m' Se' e' S' \<and> session_step (enter_op c g) st Se Se' \<and>
    served (srv_ok (w_srv e)) sfd (enter_op c g) st S S' \<and> srv_ok (w_srv e') = srv_ok (w_srv e) \<and>
    (st = ST_OK \<longrightarrow> (\<exists>i. grps S' g = Some i \<and> cstr ip' = Some (as_cstring (mp_ip (i_pair i))) \<and> port' = mp_port (i_pair i)))"
proof -
  let ?op = "enter_op c g" let ?os = "world frag sfd d"
  have wf: "wf_op ?op" using g by (simp add: wf_op_def enter_op_def)
  obtain st m' e' Se' S' where o: "client_op ?os ip port ?op (Some m) e = Some (st, Some m', e')" "in_sync sfd m' Se' e' S'"
      "session_step ?op st Se Se'" "served (srv_ok (w_srv e)) sfd ?op st S S'" "srv_ok (w_srv e') = srv_ok (w_srv e)"
      "if op_frame ?op = None then st = ST_ERR_PROTOCOL \<and> w_srv e' = w_srv e
       else \<exists>rop p b n e1. chat_step (srv_ok (w_srv e)) sfd (op_request ?op) S (Some (rop, st, p)) S' \<and>
         round_trip ?os m (encoded (op_frame ?op)) e = Some (Some (b, n), e1) \<and> n \<le> length b \<and> take n b = encode_reply (rop, st, p)"
    using in_sync_op [OF sync wf ip, of frag d port] by blast
  obtain oi opt where c: "enter_group ?os c (Some m) (Some g) (Some ip) (Some port) e = Some (st, oi, opt, Some m', e')"
    using o(1) unfolding enter_group_op by (auto split: bind_splits)
  obtain ip' port' where out: "oi = Some ip'" "opt = Some port'" by (rule enter_group_outs [OF c])
  have "\<exists>i. grps S' g = Some i \<and> cstr ip' = Some (as_cstring (mp_ip (i_pair i))) \<and> port' = mp_port (i_pair i)" if ok: "st = ST_OK"
  proof -
    have some: "op_frame ?op \<noteq> None" using o(6) ok by (cases "op_frame ?op") auto
    obtain rop p b n e1 where x: "chat_step (srv_ok (w_srv e)) sfd (op_request ?op) S (Some (rop, ST_OK, p)) S'"
        "round_trip ?os m (encoded (op_frame ?op)) e = Some (Some (b, n), e1)" "n \<le> length b" "take n b = encode_reply (rop, ST_OK, p)"
      using o(6) some ok by auto
    have "srv_rel (w_srv e) S" using sync by (simp add: in_sync_def)
    then obtain i where i: "p = Some (i_pair i)" "grps S' g = Some i" "length (mp_ip (i_pair i)) < CHAT_MAX_IP_STR_LEN"
      using entered_group [OF x(1)] by blast
    have "parse_group_rep (take n b) = Some (ST_OK, mp_ip (i_pair i), mp_port (i_pair i))"
      unfolding x(4) i(1) encode_reply.simps by (rule parse_group_rep_frame [OF i(3)])
    then show ?thesis using enter_group_output [OF some x(2,3) _ ip c] out i(2) by auto
  qed
  then show ?thesis using c out o(2-5) by blast
qed

section \<open>Histories with other clients\<close>

text \<open>What happens in a history: an operation of this client, a message on another connection, or the end of another connection.\<close>

datatype event = Mine ClientOp | Message int "byte list" | Gone int

fun run ::
  "(nat \<Rightarrow> nat) \<Rightarrow> int \<Rightarrow> 'd Os \<Rightarrow> byte list \<Rightarrow> u16 \<Rightarrow> event list \<Rightarrow> ClientMng option \<Rightarrow> 'd World \<Rightarrow> (ClientMng option \<times> 'd World) option"
where
  "run frag sfd d ip port [] m e = Some (m, e)"
| "run frag sfd d ip port (Mine op # evs) m e = do {
     (_, m, e) \<leftarrow> client_op (world frag sfd d) ip port op m e;
     run frag sfd d ip port evs m e
   }"
| "run frag sfd d ip port (Message fd b # evs) m e = do {
     (_, s) \<leftarrow> ServerMng_HandleMessage fd (Some b) (length b) (w_srv e);
     run frag sfd d ip port evs m (e\<lparr>w_srv := s\<rparr>)
   }"
| "run frag sfd d ip port (Gone fd # evs) m e = do {
     s \<leftarrow> ServerMng_OnDisconnect fd (w_srv e);
     run frag sfd d ip port evs m (e\<lparr>w_srv := s\<rparr>)
   }"

fun event_ok :: "int \<Rightarrow> event \<Rightarrow> bool" where
  "event_ok sfd (Mine op) = wf_op op"
| "event_ok sfd (Message fd b) = (fd \<noteq> sfd)"
| "event_ok sfd (Gone fd) = (fd \<noteq> sfd)"

text \<open>The server changes without sending anything to this client.\<close>

lemma in_sync_other:
  assumes I: "in_sync sfd m Se e S" and s: "srv_rel s S'" "chat_inv S'" "agree sfd Se S'" "replies sfd s = replies sfd (w_srv e)"
  shows "in_sync sfd m Se (e\<lparr>w_srv := s\<rparr>) S'"
proof -
  have "srv_inv s" using s(1,2) by (auto simp: srv_inv_def)
  then show ?thesis using I s by (auto simp: in_sync_def online_def on_the_way_def srv.serving_def)
qed

lemma in_sync_message:
  assumes I: "in_sync sfd m Se e S" and fd: "fd \<noteq> sfd"
  shows "\<exists>r s S'. ServerMng_HandleMessage fd (Some b) (length b) (w_srv e) = Some (r, s) \<and> in_sync sfd m Se (e\<lparr>w_srv := s\<rparr>) S'"
proof (cases "length b < 2")
  case True
  then show ?thesis
    using ServerMng_HandleMessage_short [OF True, of fd "Some b" "w_srv e"] I
    by (intro exI [of _ "- 1"] exI [of _ "w_srv e"] exI [of _ S]) simp
next
  case False
  have R: "srv_rel (w_srv e) S" "chat_inv S" "agree sfd Se S" "online (sockfd m) sfd e" using I by (auto simp: in_sync_def)
  obtain s rep S' where h: "ServerMng_HandleMessage fd (Some b) (length b) (w_srv e) = Some (0, s)"
      "chat_step (srv_ok (w_srv e)) fd (parse_request b) S rep S'" "srv_rel s S'" "chat_inv S'" "sent s = sent (w_srv e) @ reply_log fd rep"
    by (rule handled_message [OF R(1,2), of b fd]) (use False in auto)
  have "sfd \<noteq> - 1" using online_fd_ok [OF R(4)] by (auto simp: fd_ok_def)
  then have "agree sfd Se S'" by (rule agree_other [OF h(2) fd _ R(3)])
  moreover have "replies sfd s = replies sfd (w_srv e)" using h(5) fd by (simp add: replies_def reply_log_def split: option.splits)
  ultimately show ?thesis using in_sync_other [OF I h(3,4)] h(1) by blast
qed

lemma in_sync_gone:
  assumes I: "in_sync sfd m Se e S" and fd: "fd \<noteq> sfd"
  shows "\<exists>s S'. ServerMng_OnDisconnect fd (w_srv e) = Some s \<and> in_sync sfd m Se (e\<lparr>w_srv := s\<rparr>) S'"
proof -
  have R: "srv_rel (w_srv e) S" "chat_inv S" "agree sfd Se S" "online (sockfd m) sfd e" using I by (auto simp: in_sync_def)
  obtain s S' where h: "ServerMng_OnDisconnect fd (w_srv e) = Some s" "chat_disconnect (srv_ok (w_srv e)) fd S S'" "srv_rel s S'"
      "sent s = sent (w_srv e)"
    using ServerMng_OnDisconnect_step [OF R(1,2), of fd] by blast
  obtain rep where st: "chat_step (srv_ok (w_srv e)) fd Logout S rep S'" using h(2) by (auto simp: chat_disconnect_def)
  have "sfd \<noteq> - 1" using online_fd_ok [OF R(4)] by (auto simp: fd_ok_def)
  then have "agree sfd Se S'" by (rule agree_other [OF st fd _ R(3)])
  moreover have "replies sfd s = replies sfd (w_srv e)" using h(4) by (simp add: replies_def)
  ultimately show ?thesis using in_sync_other [OF I h(3) chat_step_inv [OF st R(2)]] h(1) by blast
qed

lemma in_sync_run:
  assumes "in_sync sfd m Se e S" "\<forall>ev \<in> set evs. event_ok sfd ev" "CHAT_MAX_IP_STR_LEN \<le> length ip"
  shows "\<exists>m' Se' e' S'. run frag sfd d ip port evs (Some m) e = Some (Some m', e') \<and> in_sync sfd m' Se' e' S'"
  using assms(1,2)
proof (induction evs arbitrary: m Se e S)
  case (Cons ev evs)
  show ?case
  proof (cases ev)
    case (Mine op)
    then have "wf_op op" using Cons.prems(2) by simp
    then obtain st m' e' Se' S' where "client_op (world frag sfd d) ip port op (Some m) e = Some (st, Some m', e')" "in_sync sfd m' Se' e' S'"
      using in_sync_op [OF Cons.prems(1) _ assms(3), of op frag d port] by blast
    then show ?thesis using Cons.IH [of m' Se' e' S'] Cons.prems(2) Mine by simp
  next
    case (Message fd b)
    then obtain r s S' where "ServerMng_HandleMessage fd (Some b) (length b) (w_srv e) = Some (r, s)" "in_sync sfd m Se (e\<lparr>w_srv := s\<rparr>) S'"
      using in_sync_message [OF Cons.prems(1), of fd b] Cons.prems(2) by auto
    then show ?thesis using Cons.IH [of m Se _ S'] Cons.prems(2) Message by simp
  next
    case (Gone fd)
    then obtain s S' where "ServerMng_OnDisconnect fd (w_srv e) = Some s" "in_sync sfd m Se (e\<lparr>w_srv := s\<rparr>) S'"
      using in_sync_gone [OF Cons.prems(1), of fd] Cons.prems(2) by auto
    then show ?thesis using Cons.IH [of m Se _ S'] Cons.prems(2) Gone by simp
  qed
qed auto

section \<open>Correctness of the system\<close>

text \<open>A new connection: nobody is logged in on it.\<close>

lemma fresh_in_sync:
  assumes "srv.serving net w" "srv_rel w S" "chat_inv S" "free_fd (accts S) sfd" "connected sfd net" "kept sfd net = []"
    and "cm_rel m \<lparr>s_user = None, s_windows = []\<rparr>"
  shows "in_sync sfd m \<lparr>s_user = None, s_windows = []\<rparr> \<lparr>w_net = net, w_srv = w, w_read = length (replies sfd w), w_time = t, w_desk = d\<rparr> S"
proof -
  have "0 \<le> sockfd m" using assms(7) by (simp add: cm_rel_def)
  moreover have "frames [] = []" using framing_stop [of "[]"] by simp
  ultimately show ?thesis using assms by (simp add: in_sync_def online_def on_the_way_def agree_def)
qed

lemma find_update_other: "\<not> P x \<Longrightarrow> \<not> P (xs ! i) \<Longrightarrow> find P (xs[i := x]) = find P xs"
proof (induction xs arbitrary: i)
  case (Cons y ys)
  then show ?case by (cases i) auto
qed simp

text \<open>A connection with an empty buffer, in a free slot.\<close>

definition add_client :: "nat \<Rightarrow> int \<Rightarrow> Server ServerNet \<Rightarrow> Server ServerNet" where
  "add_client i fd n = n\<lparr>clients := (clients n)[i := \<lparr>c_fd = fd, c_buffer = replicate RECV_BUFFER_SIZE 0, c_len = 0\<rparr>],
     maxFd := (if fd > maxFd n then fd else maxFd n), masterSet := (masterSet n)[nat fd := True]\<rparr>"

lemma add_client_net:
  assumes n: "net_inv n" and i: "i < MAX_CLIENTS" "c_fd (clients n ! i) = - 1" and fd: "fd_ok fd" "fd \<notin> set (open_fds (listenFd n) (clients n))"
  shows "net_inv (add_client i fd n)" "connected fd (add_client i fd n)" "kept fd (add_client i fd n) = []"
    "s \<noteq> fd \<Longrightarrow> connected s n \<Longrightarrow> connected s (add_client i fd n)" "s \<noteq> fd \<Longrightarrow> s \<noteq> - 1 \<Longrightarrow> kept s (add_client i fd n) = kept s n"
proof -
  let ?c = "\<lparr>c_fd = fd, c_buffer = replicate RECV_BUFFER_SIZE 0, c_len = 0\<rparr> :: ClientState"
  have N: "conns_ok (listenFd n) (clients n)" "watches (masterSet n) (maxFd n) (listenFd n) (clients n)" using n by (auto simp: net_inv_def)
  have L: "length (clients n) = MAX_CLIENTS" using N(1) by (simp add: conns_ok_def)
  have c: "client_ok ?c" using fd(1) by (simp add: client_ok_def size_defs)
  have C: "conns_ok (listenFd n) ((clients n)[i := ?c])" using conns_ok_update [OF N(1) i(1) c] fd(2) by simp
  then show "net_inv (add_client i fd n)" using watches_add [OF N(2,1) i, of ?c] fd(1) by (auto simp: net_inv_def add_client_def split: if_splits)
  have f: "fd \<noteq> - 1" using fd(1) by (auto simp: fd_ok_def)
  then show "connected fd (add_client i fd n)" using i(1) L by (auto simp: connected_def add_client_def)
  show "kept fd (add_client i fd n) = []" using kept_at [of "listenFd n" "add_client i fd n" i fd] C i(1) L f by (simp add: add_client_def pending_def)
  show "connected s (add_client i fd n)" if "s \<noteq> fd" and con: "connected s n"
  proof -
    obtain j where j: "j < MAX_CLIENTS" "c_fd (clients n ! j) = s" "s \<noteq> - 1" using con by (auto simp: connected_def)
    then have "j \<noteq> i" using i(2) by auto
    then show ?thesis using j by (auto simp: connected_def add_client_def intro!: exI [of _ j])
  qed
  show "kept s (add_client i fd n) = kept s n" if "s \<noteq> fd" "s \<noteq> - 1"
    using that i(2) find_update_other [of "\<lambda>c. c_fd c = s" ?c "clients n" i] by (simp add: kept_def add_client_def)
qed

text \<open>A server that has just started, without and with one connection, and a client for it.\<close>

definition no_client :: "Server ServerNet" where
  "no_client = new_net (replicate RECV_BUFFER_SIZE 0) 3 (Some ServerMng_HandleMessage) (Some ServerMng_OnDisconnect)"

definition one_client :: "Server ServerNet" where
  "one_client = add_client 0 5 no_client"

lemma no_client_net: "net_inv no_client" "open_fds (listenFd no_client) (clients no_client) = [3]" "i < MAX_CLIENTS \<Longrightarrow> c_fd (clients no_client ! i) = - 1"
  using new_net_inv [of "replicate RECV_BUFFER_SIZE 0" 3 "Some ServerMng_HandleMessage" "Some ServerMng_OnDisconnect"]
  by (simp_all add: no_client_def new_net_def open_fds_def fd_ok_def FD_SETSIZE_def)

lemma one_client_net: "net_inv one_client" "connected 5 one_client" "kept 5 one_client = []"
  "onMsg one_client = Some ServerMng_HandleMessage" "onDisc one_client = Some ServerMng_OnDisconnect"
proof -
  have "0 < MAX_CLIENTS" "fd_ok 5" by (simp_all add: MAX_CLIENTS_def FD_SETSIZE_def fd_ok_def)
  then show "net_inv one_client" "connected 5 one_client" "kept 5 one_client = []"
    using add_client_net(1-3) [OF no_client_net(1) _ no_client_net(3), of 0 5] by (simp_all add: one_client_def no_client_net(2))
qed (simp_all add: one_client_def add_client_def no_client_def new_net_def)

lemma sample_server:
  obtains w where "srv_rel w (start (map pool_pair [1..<256]))" "chat_inv (start (map pool_pair [1..<256]))" "srv_ok w"
proof -
  have ok: "structs_ok sure_alloc" "never_fails sure_alloc"
    by (simp_all add: structs_ok_def never_fails_def sure_alloc_def all_groups_ok_def all_ok_def)
  then show thesis using that by (elim init_started [of sure_alloc idle_server]) auto
qed

lemma sample_client: obtains m where "cm_rel m \<lparr>s_user = None, s_windows = []\<rparr>"
proof -
  obtain g e' where g: "client_groups_mng_create desktop \<lparr>ca_struct = True, ca_nodes = (\<lambda>_. True), ca_entries = (\<lambda>_. True)\<rparr> [] = Some (Some g, e')"
      "cg_rel g []"
    using cg_create [of "\<lparr>ca_struct = True, ca_nodes = (\<lambda>_. True), ca_entries = (\<lambda>_. True)\<rparr>" desktop "[]"] by (auto simp: desktop_def)
  have "cm_rel (alice_client\<lparr>logged_in := 0, ClientMng.username := [], win_groups := Some g\<rparr>) \<lparr>s_user = None, s_windows = []\<rparr>"
    using g(2) by (simp add: cm_rel_def alice_client_def wt.windows_def)
  then show thesis by (rule that)
qed

lemma sample_in_sync:
  obtains m e S where "in_sync 5 m \<lparr>s_user = None, s_windows = []\<rparr> (e :: int list World) S" "srv_ok (w_srv e)" "accts S = Map.empty" "grps S = Map.empty" "avail S \<noteq> []"
proof -
  obtain w where w: "srv_rel w (start (map pool_pair [1..<256]))" "chat_inv (start (map pool_pair [1..<256]))" "srv_ok w" by (rule sample_server)
  obtain m where "cm_rel m \<lparr>s_user = None, s_windows = []\<rparr>" by (rule sample_client)
  moreover have "srv.serving one_client w" using one_client_net w(1,2) by (auto simp: srv.serving_def srv_inv_def)
  moreover have "free_fd (accts (start (map pool_pair [1..<256]))) 5" by (simp add: free_fd_def start_def)
  ultimately show thesis
    using fresh_in_sync [OF _ w(1,2) _ one_client_net(2,3)] that w(3) by (force simp: start_def)
qed

text \<open>
  C3: the client and the server together. For every way the bytes are cut, every operation of a client that is in step with the server returns; the status it
  returns is the one of the step the server makes for the corresponding request; no message or part of one is left behind; and afterwards client and server
  agree again on who is logged in on the connection and on the groups with windows. Nothing is sent when a name is too long.
\<close>

theorem client_server_step:
  assumes "in_sync sfd m Se e S" "wf_op op" "CHAT_MAX_IP_STR_LEN \<le> length ip"
  shows "\<exists>st m' e' Se' S'. client_op (world frag sfd d) ip port op (Some m) e = Some (st, Some m', e') \<and> in_sync sfd m' Se' e' S' \<and>
    session_step op st Se Se' \<and>
    (if op_frame op = None then st = ST_ERR_PROTOCOL \<and> w_srv e' = w_srv e
     else \<exists>rop p. chat_step (srv_ok (w_srv e)) sfd (op_request op) S (Some (rop, st, p)) S')"
proof -
  obtain st m' e' Se' S' where "client_op (world frag sfd d) ip port op (Some m) e = Some (st, Some m', e')" "in_sync sfd m' Se' e' S'"
      "session_step op st Se Se'"
      "if op_frame op = None then st = ST_ERR_PROTOCOL \<and> w_srv e' = w_srv e
       else \<exists>rop p. chat_step (srv_ok (w_srv e)) sfd (op_request op) S (Some (rop, st, p)) S'"
    using in_sync_op [OF assms, of frag d port] by (metis (no_types, lifting))
  then show ?thesis by blast
qed

theorem client_server_step_witness:
  "\<exists>m e S st m' e' Se' S'. in_sync 5 m \<lparr>s_user = None, s_windows = []\<rparr> (e :: int list World) S \<and>
    client_op (world (\<lambda>_. 0) 5 desktop) (replicate 16 0) 0 (DoRegister sample_name [49]) (Some m) e = Some (st, Some m', e') \<and>
    in_sync 5 m' Se' e' S' \<and> st = ST_OK \<and> accts S' sample_name \<noteq> None"
proof -
  obtain m e S where I: "in_sync 5 m \<lparr>s_user = None, s_windows = []\<rparr> (e :: int list World) S" "srv_ok (w_srv e)" "accts S = Map.empty"
    by (rule sample_in_sync)
  have o: "wf_op (DoRegister sample_name [49])" "op_frame (DoRegister sample_name [49]) \<noteq> None" "CHAT_MAX_IP_STR_LEN \<le> length (replicate 16 (0 :: byte))"
    by (auto simp: wf_op_def wf_cstring_def sample_name_def bytes_of_def size_defs)
  obtain st m' e' Se' S' rop p where x: "client_op (world (\<lambda>_. 0) 5 desktop) (replicate 16 0) 0 (DoRegister sample_name [49]) (Some m) e = Some (st, Some m', e')"
      "in_sync 5 m' Se' e' S'" "chat_step True 5 (Register sample_name [49]) S (Some (rop, st, p)) S'"
    using client_server_step [OF I(1) o(1,3), of "\<lambda>_. 0" desktop 0] o(2) I(2) by auto
  from x(3) have "st = ST_OK \<and> accts S' sample_name \<noteq> None" using I(3) by (auto elim!: step_register)
  then show ?thesis using I(1) x(1,2) by blast
qed

text \<open>
  C5: a history of a client among others. Whatever a client does and whatever other clients send or however they disconnect in between, in any order and with any
  allocation failing on either side, everything returns and client and server stay in agreement.
\<close>

theorem system_agreement:
  assumes "in_sync sfd m Se e S" "\<forall>ev \<in> set evs. event_ok sfd ev" "CHAT_MAX_IP_STR_LEN \<le> length ip"
  shows "\<exists>m' Se' e' S'. run frag sfd d ip port evs (Some m) e = Some (Some m', e') \<and> cm_rel m' Se' \<and> srv_rel (w_srv e') S' \<and>
    chat_inv S' \<and> agree sfd Se' S' \<and> on_the_way sfd e' = []"
  using in_sync_run [OF assms, of frag d port] by (auto simp: in_sync_def)

theorem system_agreement_witness:
  "\<exists>m e m' Se' e' S'. run (\<lambda>t. t) 5 desktop (replicate 16 0) 0 [Message 7 sample_register, Mine (DoLogin sample_name [49]), Gone 7] (Some m) (e :: int list World) =
      Some (Some m', e') \<and> cm_rel m' Se' \<and> srv_rel (w_srv e') S' \<and> chat_inv S' \<and> agree 5 Se' S' \<and> on_the_way 5 e' = []"
proof -
  obtain m e S where I: "in_sync 5 m \<lparr>s_user = None, s_windows = []\<rparr> (e :: int list World) S" by (rule sample_in_sync)
  have "\<forall>ev \<in> set [Message 7 sample_register, Mine (DoLogin sample_name [49]), Gone 7]. event_ok 5 ev"
    by (auto simp: wf_op_def wf_cstring_def sample_name_def bytes_of_def)
  then show ?thesis using system_agreement [OF I, of _ "replicate 16 0" "\<lambda>t. t" desktop 0] by (fastforce simp: size_defs)
qed



end
