(* ===== verification/Chat_Windows.thy ===== *)
theory Chat_Windows
  imports Client_Ui
begin

text \<open>
  The two programs that run in the windows of a group, \<^verbatim>\<open>client/chat_sender.c\<close> and \<^verbatim>\<open>client/chat_receiver.c\<close>: the sender reads lines
  and sends each as a datagram to the multicast address of the group, the receiver prints the datagrams that arrive there. Both report their process id to the
  client over the message queue.

  The system calls on datagram sockets are a parameter, as in \<^verbatim>\<open>Client_Net\<close>. The receiver runs until \<open>recvfrom\<close> fails, so its loop is a partial
  function; the relation \<open>arrivals\<close> describes what it gets until then. The theorems show that both programs stay within their buffers, close what they open on
  every path, and that what is typed in one window is what is printed in the other.
\<close>

section \<open>System calls\<close>

type_synonym in_addr = "32 word"

datatype sockopt =
    IP_MULTICAST_TTL byte
  | IP_MULTICAST_IF in_addr
  | SO_REUSEADDR int
  | IP_ADD_MEMBERSHIP in_addr
  | IP_DROP_MEMBERSHIP in_addr

text \<open>\<open>inet_pton\<close> gives the address when it returns 1; \<open>recvfrom\<close> gives the bytes it stores, \<open>None\<close> when it returns -1.\<close>

record 'e Udp =
  udp_socket :: "'e \<Rightarrow> int \<times> 'e"
  udp_setsockopt :: "int \<Rightarrow> sockopt \<Rightarrow> 'e \<Rightarrow> int \<times> 'e"
  udp_inet_pton :: "cstring \<Rightarrow> in_addr option"
  udp_connect :: "int \<Rightarrow> in_addr \<Rightarrow> u16 \<Rightarrow> 'e \<Rightarrow> int \<times> 'e"
  udp_getsockname :: "int \<Rightarrow> 'e \<Rightarrow> int \<times> in_addr \<times> 'e"
  udp_bind :: "int \<Rightarrow> in_addr \<Rightarrow> u16 \<Rightarrow> 'e \<Rightarrow> int \<times> 'e"
  udp_sendto :: "int \<Rightarrow> byte list \<Rightarrow> in_addr \<Rightarrow> u16 \<Rightarrow> 'e \<Rightarrow> int \<times> 'e"
  udp_recvfrom :: "int \<Rightarrow> nat \<Rightarrow> 'e \<Rightarrow> byte list option \<times> 'e"
  udp_msgsnd :: "int \<Rightarrow> int \<Rightarrow> int \<Rightarrow> 'e \<Rightarrow> int \<times> 'e"
  udp_getpid :: int
  udp_close :: "int \<Rightarrow> 'e \<Rightarrow> 'e"

section \<open>Arguments\<close>

definition isspace :: "byte \<Rightarrow> bool" where
  "isspace c \<longleftrightarrow> c = 32 \<or> 9 \<le> c \<and> c \<le> 13"

definition isdigit :: "byte \<Rightarrow> bool" where
  "isdigit c \<longleftrightarrow> 48 \<le> c \<and> c \<le> 57"

text \<open>\<open>atoi\<close> is undefined for numbers that are no \<open>int\<close>.\<close>

definition atoi :: "cstring \<Rightarrow> int option" where
  "atoi s =
     (let s = dropWhile isspace s;
          (neg, s) = (if s \<noteq> [] \<and> hd s = 45 then (True, tl s) else if s \<noteq> [] \<and> hd s = 43 then (False, tl s) else (False, s));
          n = int (undec (takeWhile isdigit s));
          v = (if neg then - n else n)
      in if - (2 ^ 31) \<le> v \<and> v < 2 ^ 31 then Some v else None)"

record WindowArgs =
  wa_ip :: cstring
  wa_port :: int
  wa_msqid :: int
  wa_name :: "cstring option"

text \<open>The checks both programs start with; \<open>Some None\<close> stands for the exit with code 1.\<close>

definition window_args :: "cstring list \<Rightarrow> WindowArgs option option" where
  "window_args argv =
     (if length argv < 3 \<or> length argv > 5 then Some None
      else do {
        port \<leftarrow> atoi (argv ! 2);
        if port \<le> 0 \<or> port > 65535 then Some None
        else do {
          q \<leftarrow> (if length argv \<ge> 4 then atoi (argv ! 3) else Some (- 1));
          Some (Some \<lparr>wa_ip = argv ! 1, wa_port = port, wa_msqid = q,
            wa_name = (if length argv = 5 \<and> argv ! 4 \<noteq> [] then Some (argv ! 4) else None)\<rparr>)
        }})"

text \<open>The message with the process id; a failure is only reported.\<close>

definition hand_pid :: "('e, 'z) Udp_scheme \<Rightarrow> int \<Rightarrow> int \<Rightarrow> 'e \<Rightarrow> 'e" where
  "hand_pid w q mtype e = (if q \<ge> 0 then snd (udp_msgsnd w q mtype (udp_getpid w) e) else e)"

section \<open>The sender\<close>

definition MAX_LINE :: nat where "MAX_LINE = 1024"
definition MAX_NAME :: nat where "MAX_NAME = 33"
definition INADDR_ANY :: in_addr where "INADDR_ANY = 0"

definition lan_ip :: "('e, 'z) Udp_scheme \<Rightarrow> 'e \<Rightarrow> in_addr \<times> 'e" where
  "lan_ip w e =
     (let (tmp, e) = udp_socket w e
      in if tmp < 0 then (INADDR_ANY, e)
      else
        let dst = (case udp_inet_pton w (bytes_of ''8.8.8.8'') of Some a \<Rightarrow> a | None \<Rightarrow> 0);
            (r, e) = udp_connect w tmp dst 53 e
        in if r < 0 then (INADDR_ANY, udp_close w tmp e)
        else
          let (r, local, e) = udp_getsockname w tmp e
          in if r < 0 then (INADDR_ANY, udp_close w tmp e) else (local, udp_close w tmp e))"

text \<open>What is sent for a line: the string in \<open>line\<close>, or the one in \<open>out\<close> after the name has been put in front.\<close>

definition payload :: "cstring option \<Rightarrow> byte list \<Rightarrow> byte list" where
  "payload user line =
     (let line = takeWhile (\<lambda>c. c \<noteq> 0) line
      in case user of
           None \<Rightarrow> line
         | Some u \<Rightarrow> snprintf (MAX_NAME + 2 + MAX_LINE) (u @ bytes_of '': '' @ line))"

function send_lines ::
  "('e, 'z) Udp_scheme \<Rightarrow> int \<Rightarrow> in_addr \<Rightarrow> u16 \<Rightarrow> cstring option \<Rightarrow> byte list \<Rightarrow> 'e \<Rightarrow> byte list \<times> 'e"
where
  "send_lines w fd dst port user bs e =
     (if bs = [] then (bs, e)
      else
        let (line, r) = fgets (MAX_LINE - 1) bs;
            (n, e) = udp_sendto w fd (payload user line) dst port e
        in if n < 0 then (r, e) else send_lines w fd dst port user r e)"
  by pat_completeness auto

lemma fgets_rest_shorter: "bs \<noteq> [] \<Longrightarrow> (l, r) = fgets (MAX_LINE - Suc 0) bs \<Longrightarrow> length r < length bs"
  using fgets_split [of "MAX_LINE - 1" bs l r] by (auto simp: MAX_LINE_def)

termination send_lines
  by (relation "measure (\<lambda>(w, fd, dst, port, user, bs, e). length bs)") (auto dest: fgets_rest_shorter)

declare send_lines.simps [simp del]

definition sender_main :: "('e, 'z) Udp_scheme \<Rightarrow> cstring list \<Rightarrow> byte list \<Rightarrow> 'e \<Rightarrow> (int \<times> 'e) option" where
  "sender_main w argv bs e = do {
     a \<leftarrow> window_args argv;
     Some (case a of
       None \<Rightarrow> (1, e)
     | Some a \<Rightarrow>
         let (sockfd, e) = udp_socket w e
         in if sockfd < 0 then (1, e)
         else let (r, e) = udp_setsockopt w sockfd (IP_MULTICAST_TTL 1) e
         in if r < 0 then (1, udp_close w sockfd e)
         else let (iface, e) = lan_ip w e; (r, e) = udp_setsockopt w sockfd (IP_MULTICAST_IF iface) e
         in if r < 0 then (1, udp_close w sockfd e)
         else case udp_inet_pton w (wa_ip a) of
           None \<Rightarrow> (1, udp_close w sockfd e)
         | Some dst \<Rightarrow>
             let e = hand_pid w (wa_msqid a) CHAT_CHILD_MTYPE_SENDER e;
                 (_, e) = send_lines w sockfd dst (word_of_int (wa_port a)) (wa_name a) bs e
             in (0, udp_close w sockfd e))
   }"

section \<open>The receiver\<close>

definition MAX_DGRAM :: nat where "MAX_DGRAM = 1500"

text \<open>The result is the text printed and the buffer at the end.\<close>

partial_function (option) print_datagrams ::
  "('e, 'z) Udp_scheme \<Rightarrow> int \<Rightarrow> byte list \<Rightarrow> byte list \<Rightarrow> 'e \<Rightarrow> (byte list \<times> byte list \<times> 'e) option"
where
  "print_datagrams w fd buf out e =
     (let (r, e) = udp_recvfrom w fd MAX_DGRAM e
      in case r of
           None \<Rightarrow> Some (out, buf, e)
         | Some bs \<Rightarrow> do {
             buf \<leftarrow> memcpy buf 0 bs 0 (length bs);
             buf \<leftarrow> wr buf (length bs) 0;
             s \<leftarrow> cstr buf;
             print_datagrams w fd buf (out @ s) e
           })"

definition receiver_main :: "('e, 'z) Udp_scheme \<Rightarrow> cstring list \<Rightarrow> 'e \<Rightarrow> (int \<times> byte list \<times> 'e) option" where
  "receiver_main w argv e = do {
     a \<leftarrow> window_args argv;
     case a of
       None \<Rightarrow> Some (1, [], e)
     | Some a \<Rightarrow>
         let (sockfd, e) = udp_socket w e
         in if sockfd < 0 then Some (1, [], e)
         else let (r, e) = udp_setsockopt w sockfd (SO_REUSEADDR 1) e
         in if r < 0 then Some (1, [], udp_close w sockfd e)
         else case udp_inet_pton w (wa_ip a) of
           None \<Rightarrow> Some (1, [], udp_close w sockfd e)
         | Some addr \<Rightarrow>
             let (r, e) = udp_bind w sockfd addr (word_of_int (wa_port a)) e
             in if r < 0 then Some (1, [], udp_close w sockfd e)
             else case udp_inet_pton w (wa_ip a) of
               None \<Rightarrow> Some (1, [], udp_close w sockfd e)
             | Some multiaddr \<Rightarrow>
                 let (r, e) = udp_setsockopt w sockfd (IP_ADD_MEMBERSHIP multiaddr) e
                 in if r < 0 then Some (1, [], udp_close w sockfd e)
                 else do {
                   (out, _, e) \<leftarrow> print_datagrams w sockfd (replicate (MAX_DGRAM + 1) 0) []
                     (hand_pid w (wa_msqid a) CHAT_CHILD_MTYPE_RECEIVER e);
                   let (_, e) = udp_setsockopt w sockfd (IP_DROP_MEMBERSHIP multiaddr) e;
                   Some (0, out, udp_close w sockfd e)
                 }
   }"

section \<open>The arguments of the windows\<close>

lemma dec_digits: "c \<in> set (dec n) \<Longrightarrow> isdigit c"
proof (induction n rule: dec.induct)
  case (1 n)
  have d: "isdigit (word_of_nat (48 + m))" if "m < 10" for m
  proof -
    have "m \<in> {0, 1, 2, 3, 4, 5, 6, 7, 8, 9}" using that by auto
    then show ?thesis by (auto simp: isdigit_def)
  qed
  show ?case using 1 d [of n] d [of "n mod 10"] by (subst (asm) (2) dec.simps) (auto split: if_splits)
qed

lemma dec_Cons: obtains c cs where "dec n = c # cs" "isdigit c" "c \<noteq> 45" "c \<noteq> 43" "\<not> isspace c"
proof -
  obtain c cs where c: "dec n = c # cs" by (cases "dec n") (use dec.simps [of n] in \<open>auto split: if_splits\<close>)
  then have d: "isdigit c" using dec_digits [of c n] by simp
  then have "c \<noteq> 45" "c \<noteq> 43" "\<not> isspace c" by (auto simp: isdigit_def isspace_def word_le_nat_alt)
  then show thesis using that c d by blast
qed

lemma takeWhile_dec: "takeWhile isdigit (dec n) = dec n"
  using dec_digits by (simp add: takeWhile_eq_all_conv)

lemma undec_digits: "undec (takeWhile isdigit (dec n)) = n"
  unfolding takeWhile_dec by (rule undec_dec)

lemma atoi_dec: "n < 2 ^ 31 \<Longrightarrow> atoi (dec n) = Some (int n)"
proof -
  assume n: "n < 2 ^ 31"
  obtain c cs where c: "dec n = c # cs" "c \<noteq> 45" "c \<noteq> 43" "\<not> isspace c" by (rule dec_Cons)
  have "int n < 2 ^ 31" using n by simp
  then show ?thesis using c undec_digits [of n] by (simp add: atoi_def)
qed

lemma atoi_dec_int: "- (2 ^ 31) \<le> i \<Longrightarrow> i < 2 ^ 31 \<Longrightarrow> atoi (dec_int i) = Some i"
proof (cases "i < 0")
  case True
  assume "- (2 ^ 31) \<le> i"
  then show ?thesis using True undec_digits [of "nat (- i)"] by (simp add: atoi_def dec_int_def isspace_def)
next
  case False
  assume "i < 2 ^ 31"
  then show ?thesis using False atoi_dec [of "nat i"] by (simp add: dec_int_def)
qed

lemma window_args_written:
  assumes "- (2 ^ 31) \<le> q" "q < 2 ^ 31"
  shows "window_args [prog, ip, dec (unat (port :: u16)), dec_int q, name] =
    Some (if port = 0 then None
      else Some \<lparr>wa_ip = ip, wa_port = uint port, wa_msqid = q, wa_name = (if name = [] then None else Some name)\<rparr>)"
proof -
  have p: "unat port < 2 ^ 16" using unsigned_less [of port, where 'a = nat] by simp
  then have "atoi (dec (unat port)) = Some (uint port)" using atoi_dec [of "unat port"] by simp
  moreover have "uint port \<le> 65535" using unsigned_less [of port, where 'a = int] by simp
  moreover have "uint port \<le> 0 \<longleftrightarrow> port = 0" using unsigned_eq_0_iff [of port, where 'a = int] unsigned_greater_eq [of port, where 'a = int] by linarith
  ultimately show ?thesis using atoi_dec_int [OF assms] by (auto simp: window_args_def)
qed

section \<open>Messages\<close>

text \<open>A line of the user, and the message that the members of the group see.\<close>

definition chat_line :: "byte list \<Rightarrow> bool" where
  "chat_line l \<longleftrightarrow> wf_cstring l \<and> 10 \<notin> set l \<and> length l < MAX_LINE - 1"

definition message :: "cstring \<Rightarrow> byte list \<Rightarrow> byte list" where
  "message user l = user @ bytes_of '': '' @ l @ [10]"

definition typed :: "byte list list \<Rightarrow> byte list" where
  "typed ls = concat (map (\<lambda>l. l @ [10]) ls)"

lemma payload_line:
  assumes "chat_line l" "length user < MAX_NAME"
  shows "payload (Some user) (l @ [10]) = message user l"
proof -
  have "takeWhile (\<lambda>c. c \<noteq> 0) (l @ [10]) = l @ [10]" using assms(1) takeWhile_wf [of l "[10]"] by (simp add: chat_line_def)
  then show ?thesis using assms by (auto simp: payload_def message_def snprintf_def chat_line_def MAX_NAME_def MAX_LINE_def bytes_of_def)
qed

text \<open>Whatever is typed and whoever the user is, no more than the buffer holds is sent, and no NUL byte.\<close>

lemma payload_bound:
  assumes "\<forall>u. user = Some u \<longrightarrow> wf_cstring u" "length line < MAX_LINE"
  shows "length (payload user line) < MAX_NAME + 2 + MAX_LINE" "wf_cstring (payload user line)"
proof -
  have l: "length (takeWhile (\<lambda>c. c \<noteq> 0) line) < MAX_LINE" using assms(2) length_takeWhile_le [of "\<lambda>c. c \<noteq> 0" line] by simp
  then show "length (payload user line) < MAX_NAME + 2 + MAX_LINE"
    by (cases user) (auto simp: payload_def snprintf_def MAX_NAME_def)
  have "wf_cstring (u @ bytes_of '': '' @ takeWhile (\<lambda>c. c \<noteq> 0) line)" if "wf_cstring u" for u
    using that wf_cstring_takeWhile [of line] by (auto simp: wf_cstring_def bytes_of_def)
  then show "wf_cstring (payload user line)" using assms(1) by (cases user) (simp_all add: payload_def snprintf_def del: take_append)
qed

text \<open>Sending without errors: \<open>sent\<close> is what has been sent in a world.\<close>

definition sends :: "('e, 'z) Udp_scheme \<Rightarrow> int \<Rightarrow> ('e \<Rightarrow> (in_addr \<times> u16 \<times> byte list) list) \<Rightarrow> bool" where
  "sends w fd sent \<longleftrightarrow> (\<forall>p dst port e. fst (udp_sendto w fd p dst port e) \<ge> 0 \<and>
     sent (snd (udp_sendto w fd p dst port e)) = sent e @ [(dst, port, p)])"

lemma send_lines_typed:
  assumes w: "sends w fd sent" and user: "length user < MAX_NAME"
  shows "\<forall>l \<in> set ls. chat_line l \<Longrightarrow>
    sent (snd (send_lines w fd dst port (Some user) (typed ls) e)) = sent e @ map (\<lambda>l. (dst, port, message user l)) ls"
proof (induction ls arbitrary: e)
  case Nil
  then show ?case by (simp add: typed_def send_lines.simps [of w fd dst port "Some user" "[]"])
next
  case (Cons l ls)
  have l: "chat_line l" using Cons.prems by simp
  have f: "fgets (MAX_LINE - 1) (typed (l # ls)) = (l @ [10], typed ls)"
    using l fgets_line(1) [of l "MAX_LINE - 1" "typed ls"] by (simp add: chat_line_def typed_def)
  obtain n e1 where s: "udp_sendto w fd (message user l) dst port e = (n, e1)" by fastforce
  have "0 \<le> n" "sent e1 = sent e @ [(dst, port, message user l)]"
    using w s unfolding sends_def by (metis fst_conv, metis snd_conv)
  moreover have "typed (l # ls) \<noteq> []" by (simp add: typed_def)
  ultimately have "sent (snd (send_lines w fd dst port (Some user) (typed (l # ls)) e)) = sent (snd (send_lines w fd dst port (Some user) (typed ls) e1))"
    using f s payload_line [OF l user] by (subst send_lines.simps) simp
  then show ?case using Cons \<open>sent e1 = _\<close> by simp
qed

text \<open>What a receiver gets until \<open>recvfrom\<close> fails.\<close>

inductive arrivals :: "('e, 'z) Udp_scheme \<Rightarrow> int \<Rightarrow> 'e \<Rightarrow> byte list list \<Rightarrow> 'e \<Rightarrow> bool" for w fd where
  closed: "udp_recvfrom w fd MAX_DGRAM e = (None, e') \<Longrightarrow> arrivals w fd e [] e'"
| datagram: "udp_recvfrom w fd MAX_DGRAM e = (Some d, e1) \<Longrightarrow> length d \<le> MAX_DGRAM \<Longrightarrow> arrivals w fd e1 ds e' \<Longrightarrow> arrivals w fd e (d # ds) e'"

lemma print_datagrams_arrivals:
  "arrivals w fd e ds e' \<Longrightarrow> length buf = MAX_DGRAM + 1 \<Longrightarrow> \<exists>buf'. length buf' = MAX_DGRAM + 1 \<and>
    print_datagrams w fd buf out e = Some (out @ concat (map (takeWhile (\<lambda>c. c \<noteq> 0)) ds), buf', e')"
proof (induction arbitrary: buf out rule: arrivals.induct)
  case (closed e e')
  then show ?case by (subst print_datagrams.simps) simp
next
  case (datagram e d e1 ds e')
  let ?b = "d @ 0 # drop (Suc (length d)) buf"
  have "memcpy buf 0 d 0 (length d) = Some (d @ drop (length d) buf)" using datagram.hyps(2) datagram.prems by (simp add: memcpy_def)
  moreover have "wr (d @ drop (length d) buf) (length d) 0 = Some ?b"
    using datagram.hyps(2) datagram.prems by (simp add: wr_def list_update_append Cons_nth_drop_Suc [symmetric])
  ultimately have "print_datagrams w fd buf out e = print_datagrams w fd ?b (out @ takeWhile (\<lambda>c. c \<noteq> 0) d) e1"
    using datagram.hyps(1) cstr_prefix [of d "drop (Suc (length d)) buf"] by (subst print_datagrams.simps) simp
  moreover have "length ?b = MAX_DGRAM + 1" using datagram.hyps(2) datagram.prems by simp
  ultimately show ?case using datagram.IH [of ?b "out @ takeWhile (\<lambda>c. c \<noteq> 0) d"] by simp
qed

lemma wf_message: "wf_cstring user \<Longrightarrow> chat_line l \<Longrightarrow> takeWhile (\<lambda>c. c \<noteq> 0) (message user l) = message user l"
  by (auto simp: message_def chat_line_def wf_cstring_def bytes_of_def)

lemma wf_cstring_all: "wf_cstring p \<Longrightarrow> takeWhile (\<lambda>c. c \<noteq> 0) p = p"
  using takeWhile_wf [of p "[]"] by simp

lemma send_lines_fit:
  assumes w: "sends w fd sent" and user: "\<forall>u. user = Some u \<longrightarrow> wf_cstring u"
  shows "\<exists>ps. sent (snd (send_lines w fd dst port user bs e)) = sent e @ map (\<lambda>p. (dst, port, p)) ps \<and>
    (\<forall>p \<in> set ps. length p \<le> MAX_DGRAM \<and> wf_cstring p)"
proof (induction "length bs" arbitrary: bs e rule: less_induct)
  case less
  show ?case
  proof (cases "bs = []")
    case True
    then show ?thesis by (intro exI [of _ "[]"]) (simp add: send_lines.simps [of w fd dst port user "[]"])
  next
    case False
    obtain l r where f: "fgets (MAX_LINE - 1) bs = (l, r)" by fastforce
    obtain n e1 where s: "udp_sendto w fd (payload user l) dst port e = (n, e1)" by fastforce
    have n: "0 \<le> n" "sent e1 = sent e @ [(dst, port, payload user l)]"
      using w s unfolding sends_def by (metis fst_conv, metis snd_conv)
    have "length l < MAX_LINE" using fgets_split [OF f] by (simp add: MAX_LINE_def)
    then have p: "length (payload user l) \<le> MAX_DGRAM" "wf_cstring (payload user l)"
      using payload_bound [OF user, of l] by (simp_all add: MAX_DGRAM_def MAX_NAME_def MAX_LINE_def)
    have "length r < length bs" using fgets_rest_shorter [OF False, of l r] f by simp
    then obtain ps where ps: "sent (snd (send_lines w fd dst port user r e1)) = sent e1 @ map (\<lambda>p. (dst, port, p)) ps"
        "\<forall>p \<in> set ps. length p \<le> MAX_DGRAM \<and> wf_cstring p"
      using less by blast
    have "send_lines w fd dst port user bs e = send_lines w fd dst port user r e1"
      using f s n False by (subst send_lines.simps) simp
    then show ?thesis using ps p n by (intro exI [of _ "payload user l # ps"]) simp
  qed
qed

text \<open>
  C27: no message is cut on the way. Whatever is typed, with long lines and NUL bytes, the datagrams of a sender fit into the buffer of the receiver and hold
  no NUL byte; a receiver that gets them prints them whole, in order.
\<close>

theorem datagrams_whole:
  assumes "sends w fd sent" "\<forall>u. user = Some u \<longrightarrow> wf_cstring u"
  shows "\<exists>ps. sent (snd (send_lines w fd dst port user bs e)) = sent e @ map (\<lambda>p. (dst, port, p)) ps \<and>
    (\<forall>p \<in> set ps. length p \<le> MAX_DGRAM) \<and>
    (\<forall>w' :: ('f, 'y) Udp_scheme. \<forall>fd' e2 e3. arrivals w' fd' e2 ps e3 \<longrightarrow>
      (\<exists>buf. print_datagrams w' fd' (replicate (MAX_DGRAM + 1) 0) [] e2 = Some (concat ps, buf, e3)))"
proof -
  obtain ps where ps: "sent (snd (send_lines w fd dst port user bs e)) = sent e @ map (\<lambda>p. (dst, port, p)) ps"
      "\<forall>p \<in> set ps. length p \<le> MAX_DGRAM \<and> wf_cstring p"
    using send_lines_fit [OF assms] by blast
  have "map (takeWhile (\<lambda>c. c \<noteq> 0)) ps = ps" using ps(2) wf_cstring_all by (intro map_idI) blast
  then have "\<exists>buf. print_datagrams w' fd' (replicate (MAX_DGRAM + 1) 0) [] e2 = Some (concat ps, buf, e3)" if "arrivals w' fd' e2 ps e3"
    for w' :: "('f, 'y) Udp_scheme" and fd' e2 e3
    using print_datagrams_arrivals [OF that, of "replicate (MAX_DGRAM + 1) 0" "[]"] by auto
  then show ?thesis using ps by blast
qed

section \<open>The programs\<close>

text \<open>
  A world in which the calls succeed: \<open>sent\<close> is what has been sent, \<open>rx\<close> the datagrams a receiver still gets before \<open>recvfrom\<close> fails.
\<close>

definition udp_works :: "('e, 'z) Udp_scheme \<Rightarrow> ('e \<Rightarrow> (in_addr \<times> u16 \<times> byte list) list) \<Rightarrow> ('e \<Rightarrow> byte list list) \<Rightarrow> bool" where
  "udp_works w sent rx \<longleftrightarrow>
     (\<forall>e. 0 \<le> fst (udp_socket w e) \<and> sent (snd (udp_socket w e)) = sent e \<and> rx (snd (udp_socket w e)) = rx e) \<and>
     (\<forall>fd opt e. 0 \<le> fst (udp_setsockopt w fd opt e) \<and> sent (snd (udp_setsockopt w fd opt e)) = sent e \<and> rx (snd (udp_setsockopt w fd opt e)) = rx e) \<and>
     (\<forall>fd a p e. sent (snd (udp_connect w fd a p e)) = sent e \<and> rx (snd (udp_connect w fd a p e)) = rx e) \<and>
     (\<forall>fd e. sent (snd (snd (udp_getsockname w fd e))) = sent e \<and> rx (snd (snd (udp_getsockname w fd e))) = rx e) \<and>
     (\<forall>fd a p e. 0 \<le> fst (udp_bind w fd a p e) \<and> sent (snd (udp_bind w fd a p e)) = sent e \<and> rx (snd (udp_bind w fd a p e)) = rx e) \<and>
     (\<forall>q t pid e. sent (snd (udp_msgsnd w q t pid e)) = sent e \<and> rx (snd (udp_msgsnd w q t pid e)) = rx e) \<and>
     (\<forall>fd e. sent (udp_close w fd e) = sent e \<and> rx (udp_close w fd e) = rx e) \<and>
     (\<forall>fd. sends w fd sent) \<and>
     (\<forall>fd n e. case rx e of [] \<Rightarrow> fst (udp_recvfrom w fd n e) = None
        | d # ds \<Rightarrow> fst (udp_recvfrom w fd n e) = Some (take n d) \<and> rx (snd (udp_recvfrom w fd n e)) = ds)"

lemma udp_worksD:
  assumes "udp_works w sent rx"
  shows "udp_socket w e = (r, e') \<Longrightarrow> 0 \<le> r \<and> sent e' = sent e \<and> rx e' = rx e"
    "udp_setsockopt w fd opt e = (r, e') \<Longrightarrow> 0 \<le> r \<and> sent e' = sent e \<and> rx e' = rx e"
    "udp_connect w fd a p e = (r, e') \<Longrightarrow> sent e' = sent e \<and> rx e' = rx e"
    "udp_getsockname w fd e = (r, a, e') \<Longrightarrow> sent e' = sent e \<and> rx e' = rx e"
    "udp_bind w fd a p e = (r, e') \<Longrightarrow> 0 \<le> r \<and> sent e' = sent e \<and> rx e' = rx e"
    "sent (snd (udp_msgsnd w q t pid e)) = sent e \<and> rx (snd (udp_msgsnd w q t pid e)) = rx e"
    "sent (udp_close w fd e) = sent e \<and> rx (udp_close w fd e) = rx e"
    "sends w fd sent"
    "rx e = [] \<Longrightarrow> fst (udp_recvfrom w fd n e) = None"
    "rx e = d # ds \<Longrightarrow> fst (udp_recvfrom w fd n e) = Some (take n d) \<and> rx (snd (udp_recvfrom w fd n e)) = ds"
proof -
  note W = assms [unfolded udp_works_def]
  show "udp_socket w e = (r, e') \<Longrightarrow> 0 \<le> r \<and> sent e' = sent e \<and> rx e' = rx e" using W by (metis fst_conv snd_conv)
  show "udp_setsockopt w fd opt e = (r, e') \<Longrightarrow> 0 \<le> r \<and> sent e' = sent e \<and> rx e' = rx e" using W by (metis fst_conv snd_conv)
  show "udp_connect w fd a p e = (r, e') \<Longrightarrow> sent e' = sent e \<and> rx e' = rx e" using W by (metis snd_conv)
  show "udp_getsockname w fd e = (r, a, e') \<Longrightarrow> sent e' = sent e \<and> rx e' = rx e" using W by (metis snd_conv)
  show "udp_bind w fd a p e = (r, e') \<Longrightarrow> 0 \<le> r \<and> sent e' = sent e \<and> rx e' = rx e" using W by (metis fst_conv snd_conv)
  show "sent (snd (udp_msgsnd w q t pid e)) = sent e \<and> rx (snd (udp_msgsnd w q t pid e)) = rx e" using W by blast
  show "sent (udp_close w fd e) = sent e \<and> rx (udp_close w fd e) = rx e" using W by blast
  show "sends w fd sent" using W by blast
  have R: "case rx e of [] \<Rightarrow> fst (udp_recvfrom w fd n e) = None
      | d # ds \<Rightarrow> fst (udp_recvfrom w fd n e) = Some (take n d) \<and> rx (snd (udp_recvfrom w fd n e)) = ds" for fd n e using W by blast
  show "rx e = [] \<Longrightarrow> fst (udp_recvfrom w fd n e) = None" using R [where e = e and fd = fd and n = n] by simp
  show "rx e = d # ds \<Longrightarrow> fst (udp_recvfrom w fd n e) = Some (take n d) \<and> rx (snd (udp_recvfrom w fd n e)) = ds" using R [where e = e and fd = fd and n = n] by simp
qed

lemma works_lan_ip:
  assumes W: "udp_works w sent rx" and l: "lan_ip w e = (a, e')"
  shows "sent e' = sent e \<and> rx e' = rx e"
proof -
  obtain tmp e1 where s: "udp_socket w e = (tmp, e1)" by fastforce
  let ?dst = "case udp_inet_pton w (bytes_of ''8.8.8.8'') of Some a \<Rightarrow> a | None \<Rightarrow> 0"
  obtain r e2 where c: "udp_connect w tmp ?dst 53 e1 = (r, e2)" by fastforce
  obtain r' a' e3 where g: "udp_getsockname w tmp e2 = (r', a', e3)" by (metis prod_cases3)
  show ?thesis
    using udp_worksD(1) [OF W s] udp_worksD(3) [OF W c] udp_worksD(4) [OF W g] udp_worksD(7) [OF W, of tmp] l s c g
    by (auto simp: lan_ip_def Let_def split: if_splits)
qed

lemma works_hand_pid: "udp_works w sent rx \<Longrightarrow> sent (hand_pid w q t e) = sent e \<and> rx (hand_pid w q t e) = rx e"
  using udp_worksD(6) [of w sent rx q t "udp_getpid w" e] by (simp add: hand_pid_def)

lemma works_arrivals:
  assumes W: "udp_works w sent rx"
  shows "\<forall>d \<in> set (rx e). length d \<le> MAX_DGRAM \<Longrightarrow> \<exists>e'. arrivals w fd e (rx e) e'"
proof (induction "rx e" arbitrary: e)
  case Nil
  obtain r e' where r: "udp_recvfrom w fd MAX_DGRAM e = (r, e')" by fastforce
  then show ?case using udp_worksD(9) [OF W, of e fd MAX_DGRAM] Nil arrivals.closed [of w fd e e'] by auto
next
  case (Cons d ds)
  obtain r e1 where r: "udp_recvfrom w fd MAX_DGRAM e = (r, e1)" by fastforce
  have "r = Some d" "rx e1 = ds" "length d \<le> MAX_DGRAM"
    using udp_worksD(10) [OF W Cons.hyps(2) [symmetric], of fd MAX_DGRAM] Cons.prems r by (simp_all flip: Cons.hyps(2))
  moreover obtain e' where "arrivals w fd e1 (rx e1) e'"
    using Cons.hyps(1) [of e1] Cons.prems \<open>rx e1 = ds\<close> by (auto simp flip: Cons.hyps(2))
  ultimately show ?case using arrivals.datagram [of w fd e d e1 ds e'] r Cons.hyps(2) by (metis (no_types))
qed


lemma sender_works:
  assumes W: "udp_works w sent rx" and a: "window_args argv = Some (Some a)" "udp_inet_pton w (wa_ip a) = Some dst"
  obtains fd e0 e' where "sender_main w argv bs e = Some (0, e')" "sent e0 = sent e"
    "sent e' = sent (snd (send_lines w fd dst (word_of_int (wa_port a)) (wa_name a) bs e0))"
proof -
  obtain fd e1 where s: "udp_socket w e = (fd, e1)" by fastforce
  obtain r1 e2 where t: "udp_setsockopt w fd (IP_MULTICAST_TTL 1) e1 = (r1, e2)" by fastforce
  obtain ifc e3 where l: "lan_ip w e2 = (ifc, e3)" by fastforce
  obtain r2 e4 where i: "udp_setsockopt w fd (IP_MULTICAST_IF ifc) e3 = (r2, e4)" by fastforce
  let ?e5 = "hand_pid w (wa_msqid a) CHAT_CHILD_MTYPE_SENDER e4"
  let ?r = "send_lines w fd dst (word_of_int (wa_port a)) (wa_name a) bs ?e5"
  note X = udp_worksD(1) [OF W s] udp_worksD(2) [OF W t] works_lan_ip [OF W l] udp_worksD(2) [OF W i]
  have "sender_main w argv bs e = Some (0, udp_close w fd (snd ?r))"
    using X s t l i a by (simp add: sender_main_def case_prod_unfold)
  moreover have "sent ?e5 = sent e" using X works_hand_pid [OF W, of "wa_msqid a" CHAT_CHILD_MTYPE_SENDER e4] by simp
  ultimately show thesis using that [of _ ?e5 fd] udp_worksD(7) [OF W, of fd "snd ?r"] by blast
qed

lemma receiver_works:
  assumes W: "udp_works w sent rx" and a: "window_args argv = Some (Some a)" "udp_inet_pton w (wa_ip a) = Some dst"
    and d: "\<forall>d \<in> set (rx e). length d \<le> MAX_DGRAM"
  obtains e' where "receiver_main w argv e = Some (0, concat (map (takeWhile (\<lambda>c. c \<noteq> 0)) (rx e)), e')"
proof -
  obtain fd e1 where s: "udp_socket w e = (fd, e1)" by fastforce
  obtain r1 e2 where t: "udp_setsockopt w fd (SO_REUSEADDR 1) e1 = (r1, e2)" by fastforce
  obtain r2 e3 where b: "udp_bind w fd dst (word_of_int (wa_port a)) e2 = (r2, e3)" by fastforce
  obtain r3 e4 where m: "udp_setsockopt w fd (IP_ADD_MEMBERSHIP dst) e3 = (r3, e4)" by fastforce
  let ?e5 = "hand_pid w (wa_msqid a) CHAT_CHILD_MTYPE_RECEIVER e4"
  note X = udp_worksD(1) [OF W s] udp_worksD(2) [OF W t] udp_worksD(5) [OF W b] udp_worksD(2) [OF W m]
  have rx: "rx ?e5 = rx e" using X works_hand_pid [OF W, of "wa_msqid a" CHAT_CHILD_MTYPE_RECEIVER e4] by simp
  obtain e6 where "arrivals w fd ?e5 (rx e) e6" using works_arrivals [OF W, of ?e5 fd] d rx by auto
  then obtain buf where "print_datagrams w fd (replicate (MAX_DGRAM + 1) 0) [] ?e5 = Some (concat (map (takeWhile (\<lambda>c. c \<noteq> 0)) (rx e)), buf, e6)"
    using print_datagrams_arrivals [of w fd ?e5 "rx e" e6 "replicate (MAX_DGRAM + 1) 0" "[]"] by auto
  then have "receiver_main w argv e = Some (0, concat (map (takeWhile (\<lambda>c. c \<noteq> 0)) (rx e)),
      udp_close w fd (snd (udp_setsockopt w fd (IP_DROP_MEMBERSHIP dst) e6)))"
    using X s t b m a by (simp add: receiver_main_def case_prod_unfold)
  then show thesis by (rule that)
qed

lemma message_length: "chat_line l \<Longrightarrow> length user < MAX_NAME \<Longrightarrow> length (message user l) \<le> MAX_DGRAM"
  by (simp add: chat_line_def message_def bytes_of_def MAX_NAME_def MAX_LINE_def MAX_DGRAM_def)

text \<open>
  C9: what is typed is what is seen. The two programs are started with the arguments that the client puts into their commands, and the calls of the system
  succeed. Then each line typed in the sender, if it holds no NUL byte and fits the buffer, becomes one datagram to the address and port of the group, in
  order, with the name of the user in front; and a receiver that gets these datagrams prints exactly the messages.
\<close>

theorem typed_is_printed:
  assumes "udp_works w sent rx" "udp_works w' sent' rx'" "udp_inet_pton w ip = Some dst" "udp_inet_pton w' ip = Some dst'"
    and "port \<noteq> (0 :: u16)" "- (2 ^ 31) \<le> q" "q < 2 ^ 31"
    and "user \<noteq> []" "length user < MAX_NAME" "wf_cstring user" "\<forall>l \<in> set ls. chat_line l" "rx' e' = map (message user) ls"
  shows "\<exists>e1 e1'. sender_main w [prog, ip, dec (unat port), dec_int q, user] (typed ls) e = Some (0, e1) \<and>
    sent e1 = sent e @ map (\<lambda>l. (dst, port, message user l)) ls \<and>
    receiver_main w' [prog', ip, dec (unat port), dec_int q, g] e' = Some (0, concat (map (message user) ls), e1')"
proof -
  note args = window_args_written [OF assms(6,7)]
  let ?a = "\<lambda>name. \<lparr>wa_ip = ip, wa_port = uint port, wa_msqid = q, wa_name = name\<rparr>"
  obtain fd e0 e1 where s: "sender_main w [prog, ip, dec (unat port), dec_int q, user] (typed ls) e = Some (0, e1)" "sent e0 = sent e"
      "sent e1 = sent (snd (send_lines w fd dst port (Some user) (typed ls) e0))"
  proof (rule sender_works [OF assms(1)])
    show "window_args [prog, ip, dec (unat port), dec_int q, user] = Some (Some (?a (Some user)))" using args assms(5,8) by simp
    show "udp_inet_pton w (wa_ip (?a (Some user))) = Some dst" using assms(3) by simp
  qed (simp only: WindowArgs.simps word_of_int_uint)
  have sent: "sent e1 = sent e @ map (\<lambda>l. (dst, port, message user l)) ls"
    using send_lines_typed [OF udp_worksD(8) [OF assms(1)] assms(9,11)] s(2,3) by simp
  have d: "\<forall>d \<in> set (rx' e'). length d \<le> MAX_DGRAM" using assms(9,11,12) message_length by auto
  have m: "map (takeWhile (\<lambda>c. c \<noteq> 0)) (rx' e') = rx' e'"
    using wf_message [OF assms(10)] assms(11) unfolding assms(12) map_map comp_def by (intro map_cong refl) blast
  obtain e1' where "receiver_main w' [prog', ip, dec (unat port), dec_int q, g] e' = Some (0, concat (map (takeWhile (\<lambda>c. c \<noteq> 0)) (rx' e')), e1')"
  proof (rule receiver_works [OF assms(2)])
    show "window_args [prog', ip, dec (unat port), dec_int q, g] = Some (Some (?a (if g = [] then None else Some g)))" using args assms(5) by simp
    show "udp_inet_pton w' (wa_ip (?a (if g = [] then None else Some g))) = Some dst'" using assms(4) by simp
    show "\<forall>d \<in> set (rx' e'). length d \<le> MAX_DGRAM" by (rule d)
  qed
  then show ?thesis using s(1) sent unfolding m unfolding assms(12) by blast
qed


section \<open>Descriptors\<close>

text \<open>What no call but \<open>socket\<close>, \<open>close\<close> and \<open>msgsnd\<close> changes.\<close>

definition udp_quiet :: "('e, 'z) Udp_scheme \<Rightarrow> ('e \<Rightarrow> 'a) \<Rightarrow> bool" where
  "udp_quiet w obs \<longleftrightarrow>
     (\<forall>fd opt e. obs (snd (udp_setsockopt w fd opt e)) = obs e) \<and> (\<forall>fd a p e. obs (snd (udp_connect w fd a p e)) = obs e) \<and>
     (\<forall>fd e. obs (snd (snd (udp_getsockname w fd e))) = obs e) \<and> (\<forall>fd a p e. obs (snd (udp_bind w fd a p e)) = obs e) \<and>
     (\<forall>fd d a p e. obs (snd (udp_sendto w fd d a p e)) = obs e) \<and> (\<forall>fd n e. obs (snd (udp_recvfrom w fd n e)) = obs e)"

lemma udp_quietD:
  assumes "udp_quiet w obs"
  shows "obs (snd (udp_setsockopt w fd opt e)) = obs e" "obs (snd (udp_connect w fd a p e)) = obs e"
    "obs (snd (snd (udp_getsockname w fd e))) = obs e" "obs (snd (udp_bind w fd a p e)) = obs e"
    "obs (snd (udp_sendto w fd d a p e)) = obs e" "obs (snd (udp_recvfrom w fd n e)) = obs e"
  using assms unfolding udp_quiet_def by simp_all

definition udp_tracks :: "('e, 'z) Udp_scheme \<Rightarrow> ('e \<Rightarrow> int set) \<Rightarrow> bool" where
  "udp_tracks w fds \<longleftrightarrow>
     (\<forall>e fd e'. udp_socket w e = (fd, e') \<longrightarrow> (if fd < 0 then fds e' = fds e else fd \<notin> fds e \<and> fds e' = insert fd (fds e))) \<and>
     (\<forall>fd e. fds (udp_close w fd e) = fds e - {fd}) \<and> (\<forall>q t pid e. fds (snd (udp_msgsnd w q t pid e)) = fds e) \<and> udp_quiet w fds"

lemma udp_tracksD:
  assumes "udp_tracks w fds"
  shows "udp_socket w e = (fd, e') \<Longrightarrow> if fd < 0 then fds e' = fds e else fd \<notin> fds e \<and> fds e' = insert fd (fds e)"
    "fds (udp_close w fd e) = fds e - {fd}" "fds (snd (udp_msgsnd w q t pid e)) = fds e" "udp_quiet w fds"
  using assms unfolding udp_tracks_def by simp_all

lemma lan_ip_fds:
  assumes "udp_tracks w fds"
  shows "fds (snd (lan_ip w e)) = fds e"
proof -
  obtain tmp e1 where s: "udp_socket w e = (tmp, e1)" by fastforce
  show ?thesis
    using udp_tracksD(1) [OF assms s] udp_tracksD(2) [OF assms] udp_quietD [OF udp_tracksD(4) [OF assms]] s
    by (auto simp: lan_ip_def Let_def case_prod_unfold)
qed

lemma hand_pid_fds: "udp_tracks w fds \<Longrightarrow> fds (hand_pid w q t e) = fds e"
  using udp_tracksD(3) [of w fds] by (simp add: hand_pid_def)

lemma send_lines_quiet: "udp_quiet w obs \<Longrightarrow> obs (snd (send_lines w fd dst port user bs e)) = obs e"
proof (induction w fd dst port user bs e rule: send_lines.induct)
  case (1 w fd dst port user bs e)
  obtain l r where f: "fgets (MAX_LINE - 1) bs = (l, r)" by fastforce
  obtain n e1 where s: "udp_sendto w fd (payload user l) dst port e = (n, e1)" by fastforce
  have "obs e1 = obs e" using udp_quietD(5) [OF "1.prems", of fd "payload user l" dst port e] s by simp
  then show ?case using 1 f s by (subst send_lines.simps) auto
qed

lemma arrivals_quiet: "arrivals w fd e ds e' \<Longrightarrow> udp_quiet w obs \<Longrightarrow> obs e' = obs e"
  by (induction rule: arrivals.induct) (metis snd_conv udp_quietD(6))+



section \<open>Examples\<close>

text \<open>A local network: the datagrams sent, those still to arrive, and the open descriptors.\<close>

record Lan =
  l_sent :: "(in_addr \<times> u16 \<times> byte list) list"
  l_rx :: "byte list list"
  l_fds :: "int list"

definition lan :: "Lan Udp" where
  "lan = \<lparr>udp_socket = (\<lambda>e. (fold max (l_fds e) 2 + 1, e\<lparr>l_fds := (fold max (l_fds e) 2 + 1) # l_fds e\<rparr>)), udp_setsockopt = (\<lambda>_ _ e. (0, e)),
     udp_inet_pton = (\<lambda>ip. Some (if ip = bytes_of ''239.1.1.7'' then 0xEF010107 else 0)), udp_connect = (\<lambda>_ _ _ e. (0, e)),
     udp_getsockname = (\<lambda>_ e. (0, 0x0A000001, e)), udp_bind = (\<lambda>_ _ _ e. (0, e)),
     udp_sendto = (\<lambda>_ d a p e. (int (length d), e\<lparr>l_sent := l_sent e @ [(a, p, d)]\<rparr>)),
     udp_recvfrom = (\<lambda>_ n e. case l_rx e of [] \<Rightarrow> (None, e) | d # ds \<Rightarrow> (Some (take n d), e\<lparr>l_rx := ds\<rparr>)),
     udp_msgsnd = (\<lambda>_ _ _ e. (0, e)), udp_getpid = 700, udp_close = (\<lambda>fd e. e\<lparr>l_fds := removeAll fd (l_fds e)\<rparr>)\<rparr>"

lemma lan_works: "udp_works lan l_sent l_rx"
  by (simp add: udp_works_def sends_def lan_def fresh_fd split: list.splits)

lemma lan_tracks: "udp_tracks lan (\<lambda>e. set (l_fds e))"
  by (auto simp: udp_tracks_def udp_quiet_def lan_def fresh_fd split: list.splits)

lemma lan_arrivals: "\<exists>ds e'. arrivals lan fd e ds e'"
proof (induction "l_rx e" arbitrary: e)
  case Nil
  then have "udp_recvfrom lan fd MAX_DGRAM e = (None, e)" by (simp add: lan_def)
  then show ?case by (blast intro: arrivals.closed)
next
  case (Cons d ds)
  then have "udp_recvfrom lan fd MAX_DGRAM e = (Some (take MAX_DGRAM d), e\<lparr>l_rx := ds\<rparr>)" by (simp add: lan_def flip: Cons.hyps(2))
  moreover obtain ds' e' where "arrivals lan fd (e\<lparr>l_rx := ds\<rparr>) ds' e'" using Cons.hyps(1) [of "e\<lparr>l_rx := ds\<rparr>"] by auto
  ultimately show ?case using arrivals.datagram [of lan fd e "take MAX_DGRAM d" "e\<lparr>l_rx := ds\<rparr>" ds' e'] by auto
qed

theorem typed_is_printed_witness:
  "\<exists>e1 e1'. sender_main lan [[], bytes_of ''239.1.1.7'', dec (unat (6007 :: u16)), dec_int 9, bytes_of ''al''] (typed [bytes_of ''hi'', bytes_of ''bye''])
      \<lparr>l_sent = [], l_rx = [], l_fds = []\<rparr> = Some (0, e1) \<and>
    l_sent e1 = map (\<lambda>l. (0xEF010107, 6007, message (bytes_of ''al'') l)) [bytes_of ''hi'', bytes_of ''bye''] \<and>
    receiver_main lan [[], bytes_of ''239.1.1.7'', dec (unat (6007 :: u16)), dec_int 9, bytes_of ''g'']
      \<lparr>l_sent = [], l_rx = map (message (bytes_of ''al'')) [bytes_of ''hi'', bytes_of ''bye''], l_fds = []\<rparr> =
      Some (0, bytes_of ''al: hi'' @ [10] @ bytes_of ''al: bye'' @ [10], e1')"
  using typed_is_printed [OF lan_works lan_works, where ip = "bytes_of ''239.1.1.7''" and dst = "0xEF010107" and dst' = "0xEF010107" and port = 6007
      and q = 9 and user = "bytes_of ''al''" and ls = "[bytes_of ''hi'', bytes_of ''bye'']" and prog = "[]" and prog' = "[]" and g = "bytes_of ''g''"
      and e' = "\<lparr>l_sent = [], l_rx = map (message (bytes_of ''al'')) [bytes_of ''hi'', bytes_of ''bye''], l_fds = []\<rparr>"
      and e = "\<lparr>l_sent = [], l_rx = [], l_fds = []\<rparr>"]
  by (simp add: lan_def bytes_of_def MAX_NAME_def MAX_LINE_def wf_cstring_def chat_line_def message_def)

theorem datagrams_whole_witness:
  "\<exists>ps. l_sent (snd (send_lines lan 3 0xEF010107 6007 None (bytes_of ''hi'' @ [0, 10, 10]) \<lparr>l_sent = [], l_rx = [], l_fds = []\<rparr>)) =
      map (\<lambda>p. (0xEF010107, 6007, p)) ps \<and> (\<forall>p \<in> set ps. length p \<le> MAX_DGRAM)"
  using datagrams_whole [OF udp_worksD(8) [OF lan_works, of 3], where user = None and dst = "0xEF010107" and port = 6007 and bs = "bytes_of ''hi'' @ [0, 10, 10]"
      and e = "\<lparr>l_sent = [], l_rx = [], l_fds = []\<rparr>"]
  by auto


end
