(* ===== verification/Chat_Desktop.thy ===== *)
theory Chat_Desktop
  imports Chat_Windows
begin

text \<open>
  The client and its windows together: \<^verbatim>\<open>client/client_groups_mng.c\<close> starts the programs of \<^verbatim>\<open>client/chat_sender.c\<close> and
  \<^verbatim>\<open>client/chat_receiver.c\<close> by a shell command and reads their process ids from a System V message queue, by the protocol of
  \<^verbatim>\<open>client/child_msg.h\<close>.

  The shell splits a command into words; \<open>shell_words\<close> is the part of the rules of POSIX that the commands use. The queue holds messages of a type and a
  process id. \<open>msgrcv\<close> blocks until there is a message of its type, and meanwhile the windows that have been started may report, in any order: the law
  \<open>blocking_queue\<close> lets any such reports happen before the message is taken.

  The theorems show that the words of the commands are the arguments the windows expect, that each window reports once, under its role, and that a join
  stores the first process id due for each role, whichever window is faster.
\<close>

section \<open>Words of the shell\<close>

text \<open>
  Outside of quotes, blanks separate words and \<open>&\<close> ends a command, which runs in the background; a single quote starts a part that is taken literally up to the
  next one. Characters outside of quotes that might have another meaning, and a quote that is not closed, are not covered and give \<open>None\<close>. The accumulator is the
  current word, if one has begun.
\<close>

datatype sh_token = Word cstring | Background

definition plain_char :: "byte \<Rightarrow> bool" where
  "plain_char c \<longleftrightarrow> isdigit c \<or> 97 \<le> c \<and> c \<le> 122 \<or> c \<in> {45, 46, 47, 61, 95}"

definition begun :: "cstring option \<Rightarrow> cstring" where
  "begun acc = (case acc of None \<Rightarrow> [] | Some w \<Rightarrow> w)"

definition flush :: "cstring option \<Rightarrow> sh_token list \<Rightarrow> sh_token list" where
  "flush acc ts = (case acc of None \<Rightarrow> ts | Some w \<Rightarrow> Word w # ts)"

fun sh_tokens :: "bool \<Rightarrow> cstring option \<Rightarrow> cstring \<Rightarrow> sh_token list option" where
  "sh_tokens lit acc [] = (if lit then None else Some (flush acc []))"
| "sh_tokens True acc (c # cs) = (if c = 39 then sh_tokens False acc cs else sh_tokens True (Some (begun acc @ [c])) cs)"
| "sh_tokens False acc (c # cs) =
     (if c = 39 then sh_tokens True (Some (begun acc)) cs
      else if c = 32 then map_option (flush acc) (sh_tokens False None cs)
      else if c = 38 then map_option (\<lambda>ts. flush acc (Background # ts)) (sh_tokens False None cs)
      else if plain_char c then sh_tokens False (Some (begun acc @ [c])) cs
      else None)"

definition shell_words :: "cstring \<Rightarrow> sh_token list option" where
  "shell_words cmd = sh_tokens False None cmd"

lemma begun_simps [simp]: "begun None = []" "begun (Some w) = w" "flush None = (\<lambda>ts. ts)" "flush (Some w) = (#) (Word w)"
  by (simp_all add: begun_def flush_def fun_eq_iff)

lemma plain_char_blank: "\<not> plain_char 32" "\<not> plain_char 38" "\<not> plain_char 39"
  by (simp_all add: plain_char_def isdigit_def)

lemma sh_plain:
  "\<forall>c \<in> set w. plain_char c \<Longrightarrow> sh_tokens False acc (w @ 32 # cs) = map_option (flush (if w = [] then acc else Some (begun acc @ w))) (sh_tokens False None cs)"
proof (induction w arbitrary: acc)
  case (Cons c w)
  have "c \<noteq> 32" "c \<noteq> 38" "c \<noteq> 39" "plain_char c" using Cons.prems plain_char_blank by auto
  then show ?case using Cons by auto
qed simp

lemma sh_quote: "\<forall>c \<in> set w. plain_char c \<Longrightarrow> sh_tokens False acc (w @ 39 # cs) = sh_tokens True (Some (begun acc @ w)) cs"
proof (induction w arbitrary: acc)
  case (Cons c w)
  have "c \<noteq> 32" "c \<noteq> 38" "c \<noteq> 39" "plain_char c" using Cons.prems plain_char_blank by auto
  then show ?case using Cons by simp
qed simp

lemma sh_literal: "39 \<notin> set w \<Longrightarrow> sh_tokens True (Some acc) (w @ 39 # cs) = sh_tokens False (Some (acc @ w)) cs"
  by (induction w arbitrary: acc) auto

lemma plain_dec: "\<forall>c \<in> set (dec n). plain_char c"
  using dec_digits by (auto simp: plain_char_def)

lemma dec_not_Nil: "dec n \<noteq> []"
  by (rule dec_Cons [of n]) simp

text \<open>The words in front of the last one, and the arguments a window gets.\<close>

definition launcher :: "string \<Rightarrow> cstring \<Rightarrow> cstring list" where
  "launcher role g = [bytes_of ''gnome-terminal'', bytes_of ''--title='' @ g @ bytes_of '' ('' @ bytes_of role @ bytes_of '')'', bytes_of ''--'']"

definition window_argv :: "string \<Rightarrow> cstring \<Rightarrow> u16 \<Rightarrow> int \<Rightarrow> cstring \<Rightarrow> cstring list" where
  "window_argv role ip port q arg = [bytes_of ''./bin/chat_'' @ bytes_of role, ip, dec (unat port), dec_int q, arg]"

lemma window_cmd_words:
  assumes g: "39 \<notin> set g" and ip: "ip \<noteq> []" "\<forall>c \<in> set ip. isdigit c \<or> c = 46" and q: "0 \<le> q" and role: "role \<in> {''sender'', ''receiver''}"
  shows "shell_words (window_cmd role g ip port q arg) =
    map_option (\<lambda>ts. map Word (launcher role g @ butlast (window_argv role ip port q arg)) @ ts) (sh_tokens True (Some []) (arg @ 39 # bytes_of '' &''))"
proof -
  let ?c = "bytes_of ''./bin/chat_'' @ bytes_of role" and ?t = "g @ bytes_of '' ('' @ bytes_of role @ bytes_of '')''"
  have c: "window_cmd role g ip port q arg = bytes_of ''gnome-terminal'' @ 32 # bytes_of ''--title='' @ 39 # ?t @ 39 # [] @ 32 # bytes_of ''--'' @ 32 #
      ?c @ 32 # ip @ 32 # dec (unat port) @ 32 # dec (nat q) @ 32 # [] @ 39 # arg @ 39 # bytes_of '' &''"
    using q by (simp add: window_cmd_def bytes_of_def dec_int_def)
  have p: "\<forall>c \<in> set (bytes_of ''gnome-terminal''). plain_char c" "\<forall>c \<in> set (bytes_of ''--title=''). plain_char c"
      "\<forall>c \<in> set (bytes_of ''--''). plain_char c" "\<forall>c \<in> set ?c. plain_char c" "\<forall>c \<in> set ip. plain_char c"
    using role ip(2) by (auto simp: bytes_of_def plain_char_def isdigit_def)
  have t: "39 \<notin> set ?t" using g role by (auto simp: bytes_of_def)
  have n: "bytes_of ''./bin/chat_'' \<noteq> []" "bytes_of ''gnome-terminal'' \<noteq> []" "bytes_of ''--'' \<noteq> []" by (simp_all add: bytes_of_def)
  have blank: "sh_tokens False acc (32 # cs) = map_option (flush acc) (sh_tokens False None cs)" for acc cs by simp
  have open_quote: "sh_tokens False None (39 # cs) = sh_tokens True (Some []) cs" for cs by simp
  have qi: "dec_int q = dec (nat q)" using q by (simp add: dec_int_def)
  show ?thesis
    unfolding shell_words_def c
    by (simp only: sh_plain [OF p(1)] sh_plain [OF p(3)] sh_plain [OF p(4)] sh_plain [OF p(5)] sh_plain [OF plain_dec] sh_quote [OF p(2)] sh_literal [OF t]
          blank open_quote append_Nil begun_simps)
      (simp add: n ip(1) dec_not_Nil option.map_comp comp_def launcher_def window_argv_def qi)
qed

text \<open>
  C11: the words of a command are the arguments of the window. For names without a quote, within the limits of the protocol, the shell splits the command that
  the client builds into the terminal program, its title, and the program of the window with its arguments, in which the window finds the address, the port, the
  queue and the name. A name with a quote is different: what follows the quote in it is run as a command of its own.
\<close>

theorem command_to_arguments:
  assumes "39 \<notin> set g" "length g \<le> CHAT_MAX_GROUPNAME_LEN" "length arg \<le> CHAT_MAX_GROUPNAME_LEN"
    and "ip \<noteq> []" "\<forall>c \<in> set ip. isdigit c \<or> c = 46" "length ip < CHAT_MAX_IP_STR_LEN" "0 \<le> q" "q < 2 ^ 31" "role \<in> {''sender'', ''receiver''}"
  shows "(39 \<notin> set arg \<longrightarrow>
      shell_words (snprintf 256 (window_cmd role g ip port q arg)) = Some (map Word (launcher role g @ window_argv role ip port q arg) @ [Background]) \<and>
      window_args (window_argv role ip port q arg) =
        Some (if port = 0 then None
          else Some \<lparr>wa_ip = ip, wa_port = uint port, wa_msqid = q, wa_name = (if arg = [] then None else Some arg)\<rparr>)) \<and>
    (39 \<notin> set u \<longrightarrow> cmd \<noteq> [] \<longrightarrow> (\<forall>c \<in> set cmd. plain_char c) \<longrightarrow> arg = u @ [39, 32, 38, 32] @ cmd @ [32, 39] \<longrightarrow>
      shell_words (snprintf 256 (window_cmd role g ip port q arg)) =
        Some (map Word (launcher role g @ window_argv role ip port q u) @ [Background, Word cmd, Word [], Background]))"
proof -
  note cut = window_cmd_whole [OF assms(2,6,3,7,8,9), of port]
  note words = window_cmd_words [OF assms(1,4,5,7,9), of port arg]
  have "window_args (window_argv role ip port q arg) =
      Some (if port = 0 then None
        else Some \<lparr>wa_ip = ip, wa_port = uint port, wa_msqid = q, wa_name = (if arg = [] then None else Some arg)\<rparr>)"
    using window_args_written [of q _ ip port arg] assms(7,8) by (simp add: window_argv_def)
  moreover have "sh_tokens True (Some []) (arg @ 39 # bytes_of '' &'') = Some [Word arg, Background]" if "39 \<notin> set arg"
    using that by (simp add: sh_literal bytes_of_def)
  moreover have "sh_tokens True (Some []) (arg @ 39 # bytes_of '' &'') = Some [Word u, Background, Word cmd, Word [], Background]"
    if a: "39 \<notin> set u" "cmd \<noteq> []" "\<forall>c \<in> set cmd. plain_char c" "arg = u @ [39, 32, 38, 32] @ cmd @ [32, 39]"
    using sh_literal [OF a(1), of "[]"] sh_plain [OF a(3), of None "39 # 39 # bytes_of '' &''"] a(2,4) by (simp add: bytes_of_def)
  ultimately show ?thesis unfolding cut words by (simp add: window_argv_def)
qed

theorem command_to_arguments_witness:
  "shell_words (snprintf 256 (window_cmd ''sender'' (bytes_of ''g'') (bytes_of ''239.1.1.7'') 6007 9 (bytes_of ''al''))) =
     Some (map Word (launcher ''sender'' (bytes_of ''g'') @ window_argv ''sender'' (bytes_of ''239.1.1.7'') 6007 9 (bytes_of ''al'')) @ [Background]) \<and>
   shell_words (snprintf 256 (window_cmd ''sender'' (bytes_of ''g'') (bytes_of ''239.1.1.7'') 6007 9 (bytes_of ''x'' @ [39, 32, 38, 32] @ bytes_of ''ls'' @ [32, 39]))) =
     Some (map Word (launcher ''sender'' (bytes_of ''g'') @ window_argv ''sender'' (bytes_of ''239.1.1.7'') 6007 9 (bytes_of ''x'')) @
       [Background, Word (bytes_of ''ls''), Word [], Background])"
proof -
  have "\<forall>c \<in> set (bytes_of ''239.1.1.7''). isdigit c \<or> c = 46" "\<forall>c \<in> set (bytes_of ''ls''). plain_char c" "39 \<notin> set (bytes_of ''g'')"
      "39 \<notin> set (bytes_of ''al'')" "39 \<notin> set (bytes_of ''x'')"
    by (simp_all add: bytes_of_def isdigit_def plain_char_def)
  then show ?thesis
    using command_to_arguments [of "bytes_of ''g''" "bytes_of ''al''" "bytes_of ''239.1.1.7''" 9 "''sender''" 6007 "[]" "[]"]
      command_to_arguments [of "bytes_of ''g''" "bytes_of ''x'' @ [39, 32, 38, 32] @ bytes_of ''ls'' @ [32, 39]" "bytes_of ''239.1.1.7''" 9 "''sender''" 6007
        "bytes_of ''x''" "bytes_of ''ls''"]
    by (simp add: size_defs) (simp add: bytes_of_def)
qed

section \<open>Reports of the windows\<close>

text \<open>
  \<open>box\<close> is the content of the queue \<open>q\<close>, a list of types and process ids in the order they were sent: \<open>msgsnd\<close> adds a message at the end, no other call of a
  window changes it.
\<close>

definition posts :: "('e, 'z) Udp_scheme \<Rightarrow> int \<Rightarrow> ('e \<Rightarrow> (int \<times> int) list) \<Rightarrow> bool" where
  "posts w q box \<longleftrightarrow> udp_quiet w box \<and> (\<forall>e. box (snd (udp_socket w e)) = box e) \<and> (\<forall>fd e. box (udp_close w fd e) = box e) \<and>
     (\<forall>t pid e. box (snd (udp_msgsnd w q t pid e)) = box e @ [(t, pid)])"

lemma lan_ip_posts:
  assumes "posts w q box"
  shows "box (snd (lan_ip w e)) = box e"
proof -
  have "udp_quiet w box" using assms by (simp add: posts_def)
  then show ?thesis using assms udp_quietD(2,3) [of w box] by (simp add: posts_def lan_ip_def Let_def case_prod_unfold)
qed


text \<open>A host that knows only the queue.\<close>

definition mail_host :: "(int \<times> int) list Udp" where
  "mail_host = \<lparr>udp_socket = (\<lambda>e. (3, e)), udp_setsockopt = (\<lambda>_ _ e. (0, e)), udp_inet_pton = (\<lambda>_. Some 0xEF010107), udp_connect = (\<lambda>_ _ _ e. (0, e)),
     udp_getsockname = (\<lambda>_ e. (0, 0x0A000001, e)), udp_bind = (\<lambda>_ _ _ e. (- 1, e)), udp_sendto = (\<lambda>_ d _ _ e. (int (length d), e)),
     udp_recvfrom = (\<lambda>_ _ e. (None, e)), udp_msgsnd = (\<lambda>_ t pid e. (0, e @ [(t, pid)])), udp_getpid = 700, udp_close = (\<lambda>_ e. e)\<rparr>"


section \<open>The message queue\<close>

text \<open>
  A state of the queue: the windows that have been started and not yet reported, each by its type and process id, and the messages in the queue. Any
  window that has been started may report next.
\<close>

type_synonym mail = "(int \<times> int) list \<times> (int \<times> int) list"

inductive report :: "mail \<Rightarrow> mail \<Rightarrow> bool" where
  report: "report (ps @ m # ps', b) (ps @ ps', b @ [m])"

text \<open>\<open>msgrcv\<close> takes the first message of the type it is asked for.\<close>

fun fetch :: "int \<Rightarrow> (int \<times> int) list \<Rightarrow> (int \<times> (int \<times> int) list) option" where
  "fetch t [] = None"
| "fetch t ((u, p) # b) = (if u = t then Some (p, b) else map_option (\<lambda>(x, b'). (x, (u, p) # b')) (fetch t b))"

definition of_type :: "int \<Rightarrow> (int \<times> int) list \<Rightarrow> int list" where
  "of_type t b = map snd (filter (\<lambda>m. fst m = t) b)"

text \<open>The process ids that are due under a type: those in the queue, then those of the windows that have not reported.\<close>

definition due :: "int \<Rightarrow> mail \<Rightarrow> int list" where
  "due t s = of_type t (snd s) @ of_type t (fst s)"

lemma of_type_simps [simp]: "of_type t [] = []" "of_type t (m # b) = (if fst m = t then [snd m] else []) @ of_type t b"
  "of_type t (b @ b') = of_type t b @ of_type t b'"
  by (simp_all add: of_type_def)

lemma fetch_of_type: "fetch t b = Some (p, b') \<Longrightarrow> of_type t b = p # of_type t b' \<and> (u \<noteq> t \<longrightarrow> of_type u b' = of_type u b)"
  by (induction t b arbitrary: b' rule: fetch.induct) (auto split: if_splits)

text \<open>As long as at most one window of a type has yet to report, the order of the reports does not matter for what is due.\<close>

lemma report_due:
  assumes "report s s'" "length (of_type t (fst s)) \<le> 1"
  shows "due t s' = due t s" "length (of_type t (fst s')) \<le> 1"
proof -
  obtain ps m ps' b where s: "s = (ps @ m # ps', b)" "s' = (ps @ ps', b @ [m])" using assms(1) by (auto elim: report.cases)
  have "of_type t ps = []" "of_type t ps' = []" if "fst m = t" using assms(2) s that by auto
  then show "due t s' = due t s" "length (of_type t (fst s')) \<le> 1" using assms(2) s by (auto simp: due_def)
qed

lemma reports_due: "report\<^sup>*\<^sup>* s s' \<Longrightarrow> length (of_type t (fst s)) \<le> 1 \<Longrightarrow> due t s' = due t s \<and> length (of_type t (fst s')) \<le> 1"
  by (induction rule: rtranclp_induct) (auto dest: report_due)

text \<open>
  What the documentation says of \<open>msgrcv\<close> without \<open>IPC_NOWAIT\<close>: it waits until there is a message of the type, takes the first one, and leaves the
  others. While it waits, windows report. Nothing is said about a call for which no message ever arrives.
\<close>

definition blocking_queue :: "('e, 'z) Os_scheme \<Rightarrow> int \<Rightarrow> ('e \<Rightarrow> mail) \<Rightarrow> bool" where
  "blocking_queue os q mail \<longleftrightarrow> (\<forall>t e. due t (mail e) \<noteq> [] \<longrightarrow>
     (\<exists>pid e' s. sys_msgrcv os q t e = (Some pid, e') \<and> report\<^sup>*\<^sup>* (mail e) (fst (mail e'), s) \<and> fetch t s = Some (pid, snd (mail e'))))"

lemma recv_due:
  assumes Q: "blocking_queue os q mail" and d: "due t (mail e) = pid # pids" and one: "\<And>u. length (of_type u (fst (mail e))) \<le> 1"
  obtains e' where "recv_child_pid os q t e = (pid, e')" "due t (mail e') = pids" "\<And>u. u \<noteq> t \<Longrightarrow> due u (mail e') = due u (mail e)"
    "\<And>u. length (of_type u (fst (mail e'))) \<le> 1"
proof -
  obtain p e' s where r: "sys_msgrcv os q t e = (Some p, e')" "report\<^sup>*\<^sup>* (mail e) (fst (mail e'), s)" "fetch t s = Some (p, snd (mail e'))"
    using Q d unfolding blocking_queue_def by (metis list.distinct(1))
  have R: "due u (fst (mail e'), s) = due u (mail e)" "length (of_type u (fst (mail e'))) \<le> 1" for u
    using reports_due [OF r(2) one, of u] by auto
  note f = fetch_of_type [OF r(3)]
  have "p = pid" "due t (mail e') = pids" using R(1) [of t] d f by (auto simp: due_def)
  moreover have "due u (mail e') = due u (mail e)" if "u \<noteq> t" for u using R(1) [of u] f [of u] that by (auto simp: due_def)
  ultimately show thesis using that [of e'] r(1) R(2) by (simp add: recv_child_pid_def)
qed

text \<open>
  C10: a join reads the reports of its own windows. Nothing that was started has yet to report. The client starts the sender and the receiver, which report in any
  order while it waits; it then tracks the group under the first process id due for each role, and takes these two messages from the queue. So if no message was
  left over, the entry has the ids of the two windows, the queue is empty again and leaving the group kills exactly the two. If the second command
  fails the join fails without an entry and the report of the sender is left over, to be read by the next join in place of the report of its own sender.
\<close>

theorem join_reads_reports:
  assumes "cg_rel m es" "\<not> tracks es g" "length g \<le> CHAT_MAX_GROUPNAME_LEN" "blocking_queue os (msqid m) mail"
    and "mail e = ([], b)"
    and "sys_system os (snprintf 256 (window_cmd ''sender'' g ip port (msqid m) user)) e = (0, e1)" "mail e1 = ([(CHAT_CHILD_MTYPE_SENDER, sp)], b)"
    and "sys_system os (snprintf 256 (window_cmd ''receiver'' g ip port (msqid m) g)) e1 = (r2, e2)"
      "mail e2 = (if r2 = 0 then ([(CHAT_CHILD_MTYPE_SENDER, sp), (CHAT_CHILD_MTYPE_RECEIVER, rp)], b) else mail e1)"
  shows "\<exists>r m' e'. client_groups_mng_on_join os (Some m) (Some g) (Some ip) port (Some user) e = Some (r, Some m', e') \<and>
    (let senders = of_type CHAT_CHILD_MTYPE_SENDER b @ [sp]; receivers = of_type CHAT_CHILD_MTYPE_RECEIVER b @ [rp];
         x = \<lparr>ge_name = g, sender_pid = hd senders, receiver_pid = hd receivers\<rparr>
     in if r2 \<noteq> 0 then r = - 1 \<and> cg_rel m' es \<and> due CHAT_CHILD_MTYPE_SENDER (mail e') = senders
        else cg_ok m \<longrightarrow> r = 0 \<and> cg_rel m' (es @ [x]) \<and>
          due CHAT_CHILD_MTYPE_SENDER (mail e') = tl senders \<and> due CHAT_CHILD_MTYPE_RECEIVER (mail e') = tl receivers \<and>
          (\<forall>e3. \<exists>m''. client_groups_mng_on_leave os (Some m') (Some g) e3 = Some (Some m'', kills os (entry_pids x) e3) \<and> cg_rel m'' es))"
proof -
  let ?S = CHAT_CHILD_MTYPE_SENDER and ?R = CHAT_CHILD_MTYPE_RECEIVER
  have ty: "?S \<noteq> ?R" "?R \<noteq> ?S" by (simp_all add: CHAT_CHILD_MTYPE_SENDER_def CHAT_CHILD_MTYPE_RECEIVER_def)
  let ?ss = "of_type ?S b @ [sp]" and ?rs = "of_type ?R b @ [rp]"
  have w: "open_windows os (msqid m) g ip port user e = (r2 = 0, e2)" using assms(6,8) by (simp add: open_windows_def)
  show ?thesis
  proof (cases "r2 = 0")
    case False
    obtain p p' e3 where c: "child_pids os (msqid m) e2 = (p, p', e3)" by (metis prod_cases3)
    show ?thesis using cg_join [OF assms(1) w c] assms(2,7,9) False by (auto simp: Let_def due_def)
  next
    case True
    have s: "due ?S (mail e2) = hd ?ss # tl ?ss" "due ?R (mail e2) = hd ?rs # tl ?rs" "length (of_type u (fst (mail e2))) \<le> 1" for u
      using assms(9) True ty by (auto simp: due_def)
    obtain e3 where e3: "recv_child_pid os (msqid m) ?S e2 = (hd ?ss, e3)" "due ?S (mail e3) = tl ?ss" "due ?R (mail e3) = hd ?rs # tl ?rs"
        "\<And>u. length (of_type u (fst (mail e3))) \<le> 1"
      using recv_due [OF assms(4) s(1,3)] s(2) ty by metis
    obtain e4 where e4: "recv_child_pid os (msqid m) ?R e3 = (hd ?rs, e4)" "due ?R (mail e4) = tl ?rs" "due ?S (mail e4) = tl ?ss"
      using recv_due [OF assms(4) e3(3,4)] e3(2) ty by metis
    let ?x = "\<lparr>ge_name = g, sender_pid = hd ?ss, receiver_pid = hd ?rs\<rparr>"
    have c: "child_pids os (msqid m) e2 = (hd ?ss, hd ?rs, e4)" using e3(1) e4(1) by (simp add: child_pids_def)
    obtain r m' e' where j: "client_groups_mng_on_join os (Some m) (Some g) (Some ip) port (Some user) e = Some (r, Some m', e')"
        "cg_ok m \<Longrightarrow> r = 0 \<and> cg_rel m' (es @ [?x]) \<and> e' = e4"
      using cg_join [OF assms(1) w c] assms(2,3) True by (auto simp: Let_def)
    have x: "entry_of g (es @ [?x]) = Some ?x" "untrack g (es @ [?x]) = es"
      using split_entry [of es g ?x "[]"] assms(2) by (auto simp: tracks_def image_iff)
    have "\<exists>m''. client_groups_mng_on_leave os (Some m') (Some g) e3 = Some (Some m'', kills os (entry_pids ?x) e3) \<and> cg_rel m'' es" if "cg_ok m" for e3
      using wt.leave_law [of m' "es @ [?x]" os g e3] j(2) [OF that] x by simp
    then show ?thesis using j e4(2,3) True by (auto simp: Let_def)
  qed
qed

text \<open>A desktop on which the receiver is faster: the windows that wait report in reverse order.\<close>

definition mail_desktop :: "mail Os" where
  "mail_desktop = \<lparr>sys_socket = (\<lambda>e. (3, e)), sys_inet_pton = (\<lambda>_. 1), sys_connect = (\<lambda>_ _ _ e. (0, e)), sys_send = (\<lambda>_ bs e. (int (length bs), e)),
     sys_recv = (\<lambda>_ _ e. (None, e)), sys_close = (\<lambda>_ e. e), sys_getpid = 700, sys_ftok = (\<lambda>_ n. int n), sys_msgget = (\<lambda>_ e. (9, e)),
     sys_msgrcv = (\<lambda>_ t (ps, b). case fetch t (b @ rev ps) of None \<Rightarrow> (None, [], b @ rev ps) | Some (p, b') \<Rightarrow> (Some p, [], b')), sys_msgctl_rmid = (\<lambda>_ e. e),
     sys_system = (\<lambda>_ (ps, b). (0, ps @ [if ps = [] then (1, 51) else (2, 52)], b)), sys_kill = (\<lambda>_ e. e)\<rparr>"

lemma reports_rev: "report\<^sup>*\<^sup>* (ps, b) ([], b @ rev ps)"
proof (induction ps arbitrary: b rule: rev_induct)
  case (snoc m ps)
  have "report (ps @ [m], b) (ps, b @ [m])" using report.report [of ps m "[]" b] by simp
  then show ?case using snoc [of "b @ [m]"] by (simp add: converse_rtranclp_into_rtranclp)
qed simp

lemma fetch_some: "of_type t b \<noteq> [] \<Longrightarrow> fetch t b \<noteq> None"
  by (induction t b rule: fetch.induct) auto

lemma of_type_rev: "of_type t (rev b) = rev (of_type t b)"
  by (simp add: of_type_def rev_filter rev_map)

lemma mail_desktop_queue: "blocking_queue mail_desktop q (\<lambda>e. e)"
proof -
  have "\<exists>pid e' s. sys_msgrcv mail_desktop q t (ps, b) = (Some pid, e') \<and> report\<^sup>*\<^sup>* (ps, b) (fst e', s) \<and> fetch t s = Some (pid, snd e')"
    if "due t (ps, b) \<noteq> []" for t ps b
  proof -
    have "of_type t (b @ rev ps) \<noteq> []" using that by (auto simp: due_def of_type_rev)
    then obtain p b' where f: "fetch t (b @ rev ps) = Some (p, b')" using fetch_some by fastforce
    then show ?thesis using reports_rev [of ps b] by (intro exI [of _ p] exI [of _ "([], b')"] exI [of _ "b @ rev ps"]) (simp add: mail_desktop_def)
  qed
  then show ?thesis by (auto simp: blocking_queue_def)
qed

text \<open>The second part shows what a left-over message does: the entry gets the process id in it.\<close>

theorem join_reads_reports_witness:
  "(\<exists>m' e'. client_groups_mng_on_join mail_desktop (Some sample_windows) (Some [99]) (Some (bytes_of ''239.1.1.7'')) 6000 (Some [117]) ([], []) =
      Some (0, Some m', e') \<and> cg_rel m' (sample_entries @ [\<lparr>ge_name = [99], sender_pid = 51, receiver_pid = 52\<rparr>]) \<and> due 1 e' = []) \<and>
   (\<exists>m' e'. client_groups_mng_on_join mail_desktop (Some sample_windows) (Some [99]) (Some (bytes_of ''239.1.1.7'')) 6000 (Some [117]) ([], [(1, 49)]) =
      Some (0, Some m', e') \<and> cg_rel m' (sample_entries @ [\<lparr>ge_name = [99], sender_pid = 49, receiver_pid = 52\<rparr>]) \<and> due 1 e' = [51])"
proof -
  have h: "cg_ok sample_windows" "\<not> tracks sample_entries [99]" "length [99 :: byte] \<le> CHAT_MAX_GROUPNAME_LEN"
    by (simp_all add: cg_ok_def sample_windows_def sample_heap_def tracks_def sample_entries_def size_defs)
  have "\<exists>m' e'. client_groups_mng_on_join mail_desktop (Some sample_windows) (Some [99]) (Some (bytes_of ''239.1.1.7'')) 6000 (Some [117]) ([], b) =
      Some (0, Some m', e') \<and>
      cg_rel m' (sample_entries @ [\<lparr>ge_name = [99], sender_pid = hd (of_type 1 b @ [51]), receiver_pid = hd (of_type 2 b @ [52])\<rparr>]) \<and>
      due 1 e' = tl (of_type 1 b @ [51])" for b
  proof -
    have ty: "CHAT_CHILD_MTYPE_SENDER = 1" "CHAT_CHILD_MTYPE_RECEIVER = 2" by (simp_all add: CHAT_CHILD_MTYPE_SENDER_def CHAT_CHILD_MTYPE_RECEIVER_def)
    have sys: "sys_system mail_desktop cmd ([], b) = (0, [(1, 51)], b)" "sys_system mail_desktop cmd ([(1, 51)], b) = (0, [(1, 51), (2, 52)], b)" for cmd
      by (simp_all add: mail_desktop_def)
    have m: "(if (0 :: int) = 0 then ([(1, 51), (2, 52)], b) else x) = ([(1, 51), (2, 52)], b)" for x :: mail by simp
    show ?thesis
      using join_reads_reports [OF sample_windows_rel h(2,3) mail_desktop_queue refl sys(1) _ sys(2), unfolded ty, OF refl m [symmetric],
          of "bytes_of ''239.1.1.7''" 6000 "[117]"] h(1)
      unfolding Let_def by (elim exE conjE) (simp only: refl if_False simp_thms, blast)
  qed
  from this [of "[]"] this [of "[(1, 49)]"] show ?thesis by simp
qed

end
