(* ===== verification/Chat_Members.thy ===== *)
theory Chat_Members
  imports Chat_System Chat_Desktop
begin

text \<open>
  Any number of clients on one server. Each client is the program of \<^verbatim>\<open>Client_Mng\<close> with a connection, a desktop and a part of the replies it has
  read; they share the networking and management layers of the server. An operation of a client runs in the world of \<^verbatim>\<open>Chat_System\<close> for its connection, and
  the operations of the clients follow each other in any order.

  What a client does leaves the connections of the others alone, so all of them stay in step with the server, and those who enter the same group get the same
  multicast address.
\<close>

section \<open>Clients and server\<close>

record 'd Peer =
  p_mng :: ClientMng
  p_fd :: int
  p_read :: nat
  p_time :: nat
  p_desk :: 'd

record 'd Hall =
  h_net :: "Server ServerNet"
  h_srv :: Server
  h_peers :: "'d Peer list"

definition view :: "'d Hall \<Rightarrow> 'd Peer \<Rightarrow> 'd World" where
  "view H p = \<lparr>w_net = h_net H, w_srv = h_srv H, w_read = p_read p, w_time = p_time p, w_desk = p_desk p\<rparr>"

definition put_back :: "'d Hall \<Rightarrow> nat \<Rightarrow> ClientMng \<Rightarrow> 'd World \<Rightarrow> 'd Hall" where
  "put_back H i m e = \<lparr>h_net = w_net e, h_srv = w_srv e,
     h_peers = (h_peers H)[i := (h_peers H ! i)\<lparr>p_mng := m, p_read := w_read e, p_time := w_time e, p_desk := w_desk e\<rparr>]\<rparr>"

text \<open>An operation of the client with the index \<open>i\<close>; \<open>enter\<close> creates or joins a group and gives the address and port that the caller gets.\<close>

definition act :: "(nat \<Rightarrow> nat) \<Rightarrow> 'd Os \<Rightarrow> byte list \<Rightarrow> u16 \<Rightarrow> nat \<Rightarrow> ClientOp \<Rightarrow> 'd Hall \<Rightarrow> (ChatStatus \<times> 'd Hall) option" where
  "act frag d ip port i op H = do {
     p \<leftarrow> rd (h_peers H) i;
     (st, m, e) \<leftarrow> client_op (world frag (p_fd p) d) ip port op (Some (p_mng p)) (view H p);
     Some (st, put_back H i (the m) e)
   }"

definition enter ::
  "(nat \<Rightarrow> nat) \<Rightarrow> 'd Os \<Rightarrow> byte list \<Rightarrow> u16 \<Rightarrow> nat \<Rightarrow> bool \<Rightarrow> cstring \<Rightarrow> 'd Hall \<Rightarrow> (ChatStatus \<times> cstring option \<times> u16 \<times> 'd Hall) option"
where
  "enter frag d ip port i is_create g H = do {
     p \<leftarrow> rd (h_peers H) i;
     (st, ip', port', m, e) \<leftarrow> enter_group (world frag (p_fd p) d) is_create (Some (p_mng p)) (Some g) (Some ip) (Some port) (view H p);
     Some (st, cstr (the ip'), the port', put_back H i (the m) e)
   }"

fun play :: "(nat \<Rightarrow> nat) \<Rightarrow> 'd Os \<Rightarrow> byte list \<Rightarrow> u16 \<Rightarrow> (nat \<times> ClientOp) list \<Rightarrow> 'd Hall \<Rightarrow> (ChatStatus list \<times> 'd Hall) option" where
  "play frag d ip port [] H = Some ([], H)"
| "play frag d ip port ((i, op) # evs) H = do {
     (st, H) \<leftarrow> act frag d ip port i op H;
     (sts, H) \<leftarrow> play frag d ip port evs H;
     Some (st # sts, H)
   }"

text \<open>Every client is in step with the server, on a connection of its own.\<close>

definition hall_ok :: "'d Hall \<Rightarrow> Session list \<Rightarrow> Chat \<Rightarrow> bool" where
  "hall_ok H Ses S \<longleftrightarrow> length Ses = length (h_peers H) \<and> distinct (map p_fd (h_peers H)) \<and>
     (\<forall>i < length (h_peers H). in_sync (p_fd (h_peers H ! i)) (p_mng (h_peers H ! i)) (Ses ! i) (view H (h_peers H ! i)) S)"

section \<open>The other connections\<close>

definition apart :: "int \<Rightarrow> 'd World \<Rightarrow> 'd World \<Rightarrow> bool" where
  "apart sfd e0 e \<longleftrightarrow> srv.serving (w_net e) (w_srv e) \<and> connected sfd (w_net e) \<and>
     (\<forall>s. s \<noteq> sfd \<longrightarrow> kept s (w_net e) = kept s (w_net e0) \<and> connected s (w_net e) = connected s (w_net e0) \<and>
        replies s (w_srv e) = replies s (w_srv e0))"

lemma replies_other: "\<forall>m \<in> set ms. fst m \<noteq> s \<Longrightarrow> sent w' = sent w @ ms \<Longrightarrow> replies s w' = replies s w"
  by (simp add: replies_def filter_False)

lemma send_apart:
  assumes A: "apart sfd e0 e"
  shows "apart sfd e0 (snd (net_send frag sfd bs e))"
proof (cases "bs = []")
  case True
  then show ?thesis using A by (simp add: net_send_def)
next
  case False
  let ?k = "min (length bs) (min CHAT_MAX_MSG_SIZE (Suc (frag (w_time e))))" and ?net = "w_net e"
  have S: "srv.serving ?net (w_srv e)" using A by (simp add: apart_def)
  have L: "length (clients ?net) = MAX_CLIENTS" "srv_inv (w_srv e)" using S by (auto simp: srv.serving_def net_inv_def conns_ok_def)
  obtain i where i: "i < MAX_CLIENTS" "c_fd (clients ?net ! i) = sfd" "sfd \<noteq> - 1" using A by (auto simp: apart_def connected_def)
  have k: "take ?k bs \<noteq> []" "length (take ?k bs) \<le> CHAT_MAX_MSG_SIZE" using False by (auto simp: size_defs)
  obtain c w' where c: "select_loop [one_round sfd (take ?k bs)] ?net (w_srv e) = Some (0, ?net\<lparr>clients := (clients ?net)[i := c]\<rparr>, w')"
      "srv.serving (?net\<lparr>clients := (clients ?net)[i := c]\<rparr>) w'" "c_fd c = sfd"
      "deliver (Some ServerMng_HandleMessage) sfd (frames (pending (clients ?net ! i) @ take ?k bs)) (w_srv e) = Some w'"
    using serve_one [OF S i k] by blast
  obtain ms where ms: "sent w' = sent (w_srv e) @ ms" "\<forall>m \<in> set ms. fst m = sfd" using deliver_sent [OF L(2) _ c(4)] frames_complete by blast
  let ?net' = "?net\<lparr>clients := (clients ?net)[i := c]\<rparr>"
  have "kept s ?net' = kept s ?net" "connected s ?net' = connected s ?net" "replies s w' = replies s (w_srv e)" if "s \<noteq> sfd" for s
  proof -
    show "kept s ?net' = kept s ?net" using that c(3) i(2) by (simp add: kept_def find_update_other)
    show "connected s ?net' = connected s ?net"
      using that c(3) i L(1) unfolding connected_def by (auto simp: nth_list_update)
    show "replies s w' = replies s (w_srv e)" using replies_other [OF _ ms(1)] ms(2) that by auto
  qed
  moreover have "connected sfd ?net'" using i c(3) L(1) by (auto simp: connected_def)
  ultimately have "apart sfd e0 (e\<lparr>w_net := ?net', w_srv := w', w_time := Suc (w_time e)\<rparr>)" using A c(2) by (simp add: apart_def)
  then show ?thesis using c(1) False by (simp add: net_send_def Let_def)
qed

lemma world_apart: "wire_inv (world frag sfd d) (apart sfd e0)" "desk_inv (world frag sfd d) (apart sfd e0)"
proof -
  show "wire_inv (world frag sfd d) (apart sfd e0)"
    unfolding wire_inv_def using send_apart [of sfd e0] by (auto simp: world_def net_recv_def apart_def Let_def)
  show "desk_inv (world frag sfd d) (apart sfd e0)"
    by (auto simp: desk_inv_def world_def on_desk_def apart_def split: prod.splits)
qed

lemma world_recv_bounded: "recv_bounded (world frag sfd d)"
  by (auto simp: recv_bounded_def world_def net_recv_def Let_def)

lemma hall_okD:
  assumes "hall_ok H Ses S" "i < length (h_peers H)"
  shows "in_sync (p_fd (h_peers H ! i)) (p_mng (h_peers H ! i)) (Ses ! i) (view H (h_peers H ! i)) S" "i < length Ses"
    "\<And>j. j < length (h_peers H) \<Longrightarrow> j \<noteq> i \<Longrightarrow> p_fd (h_peers H ! j) \<noteq> p_fd (h_peers H ! i)"
  using assms by (auto simp: hall_ok_def distinct_conv_nth)

lemma in_sync_apart:
  assumes I: "in_sync s m Se e S" and A: "apart sfd e0 e'" "s \<noteq> sfd" and e0: "w_net e = w_net e0" "w_srv e = w_srv e0"
    and S': "srv_rel (w_srv e') S'" "chat_inv S'" "agree s Se S'"
  shows "in_sync s m Se (e\<lparr>w_net := w_net e', w_srv := w_srv e'\<rparr>) S'"
proof -
  have "kept s (w_net e') = kept s (w_net e)" "connected s (w_net e') = connected s (w_net e)" "replies s (w_srv e') = replies s (w_srv e)"
      "srv.serving (w_net e') (w_srv e')"
    using A e0 by (auto simp: apart_def)
  moreover have "frames [] = []" using framing_stop [of "[]"] by simp
  ultimately show ?thesis using I S' by (simp add: in_sync_def online_def on_the_way_def)
qed

lemma served_others:
  assumes "served b fd op st S S'" "fd \<noteq> s" "s \<noteq> - 1" "agree s Se S"
  shows "agree s Se S'"
  using assms agree_other by (auto simp: served_def split: if_splits)

text \<open>After an operation of one client, all are in step again.\<close>

lemma hall_after:
  assumes H: "hall_ok H Ses S" "i < length (h_peers H)" and ip: "CHAT_MAX_IP_STR_LEN \<le> length ip"
    and o: "client_op (world frag (p_fd (h_peers H ! i)) d) ip port op (Some (p_mng (h_peers H ! i))) (view H (h_peers H ! i)) = Some (st, Some m', e')"
    and I': "in_sync (p_fd (h_peers H ! i)) m' Se' e' S'" and st: "served b (p_fd (h_peers H ! i)) op st S S'"
  shows "hall_ok (put_back H i m' e') (Ses[i := Se']) S'"
proof -
  let ?p = "h_peers H ! i" and ?H = "put_back H i m' e'"
  note I = hall_okD(1) [OF H]
  have "apart (p_fd ?p) (view H ?p) (view H ?p)" using I by (simp add: in_sync_def online_def apart_def)
  moreover have "cm_rel (p_mng ?p) (Ses ! i)" using I by (simp add: in_sync_def)
  ultimately have A: "apart (p_fd ?p) (view H ?p) e'"
    using client_op_total [OF world_recv_bounded [of frag "p_fd ?p" d] _ ip, of "p_mng ?p" "Ses ! i" port op "view H ?p"] o world_apart by fastforce
  have P: "h_peers ?H = (h_peers H)[i := ?p\<lparr>p_mng := m', p_read := w_read e', p_time := w_time e', p_desk := w_desk e'\<rparr>]" by (simp add: put_back_def)
  have "in_sync (p_fd (h_peers ?H ! j)) (p_mng (h_peers ?H ! j)) (Ses[i := Se'] ! j) (view ?H (h_peers ?H ! j)) S'" if j: "j < length (h_peers H)" for j
  proof (cases "j = i")
    case True
    have "view ?H (h_peers ?H ! i) = e'" using H(2) P by (simp add: view_def put_back_def)
    then show ?thesis using True I' P H(2) hall_okD(2) [OF H] by simp
  next
    case False
    let ?q = "h_peers H ! j"
    note J = hall_okD(1) [OF H(1) j]
    have q: "h_peers ?H ! j = ?q" "Ses[i := Se'] ! j = Ses ! j" using False P by simp_all
    have v: "view ?H ?q = (view H ?q)\<lparr>w_net := w_net e', w_srv := w_srv e'\<rparr>" by (simp add: view_def put_back_def)
    have ne: "p_fd ?q \<noteq> p_fd ?p" "p_fd ?q \<noteq> - 1"
      using hall_okD(3) [OF H j False] J by (auto simp: in_sync_def online_def connected_def)
    have S': "srv_rel (w_srv e') S'" "chat_inv S'" using I' by (auto simp: in_sync_def)
    have "agree (p_fd ?q) (Ses ! j) S'" using served_others [OF st, of "p_fd ?q" "Ses ! j"] ne J by (auto simp: in_sync_def)
    then show ?thesis unfolding q v using in_sync_apart [OF J A ne(1) _ _ S'] by (simp add: view_def)
  qed
  moreover have "map p_fd (h_peers ?H) = map p_fd (h_peers H)" using P H(2) by (simp add: map_update list_update_same_conv)
  ultimately show ?thesis using H(1) P by (simp add: hall_ok_def)
qed

lemma act_step:
  assumes "hall_ok H Ses S" "i < length (h_peers H)" "wf_op op" "CHAT_MAX_IP_STR_LEN \<le> length ip"
  shows "\<exists>st H' Se' S'. act frag d ip port i op H = Some (st, H') \<and> hall_ok H' (Ses[i := Se']) S' \<and> session_step op st (Ses ! i) Se' \<and>
    served (srv_ok (h_srv H)) (p_fd (h_peers H ! i)) op st S S' \<and> map p_fd (h_peers H') = map p_fd (h_peers H) \<and> srv_ok (h_srv H') = srv_ok (h_srv H)"
proof -
  let ?p = "h_peers H ! i"
  obtain st m' e' Se' S' where o: "client_op (world frag (p_fd ?p) d) ip port op (Some (p_mng ?p)) (view H ?p) = Some (st, Some m', e')"
      "in_sync (p_fd ?p) m' Se' e' S'" "session_step op st (Ses ! i) Se'" "served (srv_ok (h_srv H)) (p_fd ?p) op st S S'"
      "srv_ok (w_srv e') = srv_ok (h_srv H)"
    using in_sync_op [OF hall_okD(1) [OF assms(1,2)] assms(3,4), of frag d port] by (auto simp: view_def)
  have "map p_fd (h_peers (put_back H i m' e')) = map p_fd (h_peers H)" using assms(2) by (simp add: put_back_def map_update list_update_same_conv)
  moreover have "srv_ok (h_srv (put_back H i m' e')) = srv_ok (h_srv H)" using o(5) by (simp add: put_back_def)
  ultimately show ?thesis using o(1,3,4) hall_after [OF assms(1,2,4) o(1,2,4)] assms(2) by (auto simp: act_def rd_def)
qed

lemma play_steps:
  assumes "hall_ok H Ses S" "\<forall>(i, op) \<in> set evs. i < length (h_peers H) \<and> wf_op op" "CHAT_MAX_IP_STR_LEN \<le> length ip" "h_peers H \<noteq> []"
    and "\<And>b k op st S S'. (k, op) \<in> set evs \<Longrightarrow> served b (p_fd (h_peers H ! k)) op st S S' \<Longrightarrow> chat_inv S \<Longrightarrow> chat_inv S' \<Longrightarrow> Q S \<Longrightarrow> Q S'"
    and "Q S"
  shows "\<exists>sts H' Ses' S'. play frag d ip port evs H = Some (sts, H') \<and> hall_ok H' Ses' S' \<and> Q S' \<and> map p_fd (h_peers H') = map p_fd (h_peers H) \<and>
    length sts = length evs"
  using assms
proof (induction evs arbitrary: H Ses S)
  case (Cons ev evs)
  obtain i op where ev: "ev = (i, op)" by fastforce
  have i: "i < length (h_peers H)" "wf_op op" using Cons.prems(2) ev by auto
  obtain st H1 Se1 S1 where a: "act frag d ip port i op H = Some (st, H1)" "hall_ok H1 (Ses[i := Se1]) S1"
      "served (srv_ok (h_srv H)) (p_fd (h_peers H ! i)) op st S S1" "map p_fd (h_peers H1) = map p_fd (h_peers H)"
    using act_step [OF Cons.prems(1) i Cons.prems(3), of frag d port] by blast
  have n: "length (h_peers H1) = length (h_peers H)" using a(4) by (rule map_eq_imp_length_eq)
  have fd: "p_fd (h_peers H1 ! k) = p_fd (h_peers H ! k)" if "k < length (h_peers H)" for k using a(4) n that by (metis nth_map)
  have inv: "chat_inv S" "chat_inv S1" using hall_okD(1) [OF Cons.prems(1) i(1)] hall_okD(1) [OF a(2)] i(1) n by (auto simp: in_sync_def)
  have "Q S1" by (rule Cons.prems(5) [of i op, OF _ a(3) inv Cons.prems(6)]) (simp add: ev)
  then have "\<exists>sts H' Ses' S'. play frag d ip port evs H1 = Some (sts, H') \<and> hall_ok H' Ses' S' \<and> Q S' \<and>
      map p_fd (h_peers H') = map p_fd (h_peers H1) \<and> length sts = length evs"
  proof (intro Cons.IH [OF a(2) _ Cons.prems(3)])
    show "\<forall>(i, op) \<in> set evs. i < length (h_peers H1) \<and> wf_op op" using Cons.prems(2) n by auto
    show "h_peers H1 \<noteq> []" using n i(1) by auto
    fix b k op st S S'
    assume x: "(k, op) \<in> set evs" "served b (p_fd (h_peers H1 ! k)) op st S S'" "chat_inv S" "chat_inv S'" "Q S"
    have "k < length (h_peers H)" using Cons.prems(2) x(1) by auto
    then show "Q S'" using Cons.prems(5) [of k op b st S S'] x fd by simp
  qed
  then obtain sts H' Ses' S' where p: "play frag d ip port evs H1 = Some (sts, H')" "hall_ok H' Ses' S'" "Q S'"
      "map p_fd (h_peers H') = map p_fd (h_peers H)" "length sts = length evs"
    using a(4) by (elim exE conjE) simp
  then have "play frag d ip port (ev # evs) H = Some (st # sts, H')" using a(1) ev by simp
  then show ?case using p(2-5) by (metis length_Cons)
qed auto

section \<open>Membership\<close>

definition member_on :: "int \<Rightarrow> cstring \<Rightarrow> McastPair \<Rightarrow> Chat \<Rightarrow> bool" where
  "member_on s g a S \<longleftrightarrow> (\<exists>k x i. accts S k = Some x \<and> a_fd x = s \<and> g \<in> set (a_groups x) \<and> grps S g = Some i \<and> i_pair i = a)"

text \<open>As long as a group has a member it keeps its address.\<close>

lemma drop_member_pair: "drop_member h G g = Some j \<Longrightarrow> \<exists>i. G g = Some i \<and> i_pair j = i_pair i"
  by (auto simp: drop_member_def split: option.splits if_splits)

lemma leave_groups_pair: "leave_groups gs G g = Some j \<Longrightarrow> \<exists>i. G g = Some i \<and> i_pair j = i_pair i"
proof (induction gs arbitrary: G)
  case (Cons h gs)
  then have "\<exists>i. drop_member h G g = Some i \<and> i_pair j = i_pair i" by (simp add: leave_groups_def)
  then show ?case using drop_member_pair by fastforce
qed (simp add: leave_groups_def)

lemma member_step:
  assumes st: "chat_step b fd rq S rep S'" and inv: "chat_inv S" "chat_inv S'" and k: "accts S k = Some x" "a_fd x \<noteq> fd" "g \<in> set (a_groups x)"
  shows "accts S' k = Some x"
proof -
  have "a_fd x \<noteq> - 1" using chat_inv_accounts(2) [OF inv(1) k(1)] k(3) by auto
  with st k show ?thesis by (cases rule: chat_step.cases) auto
qed

lemma pair_step:
  assumes st: "chat_step b fd rq S rep S'" and g: "grps S g = Some i" "grps S' g = Some i'"
  shows "i_pair i' = i_pair i"
  using st g by (cases rule: chat_step.cases) (auto dest: drop_member_pair leave_groups_pair split: if_splits)

lemma member_stays:
  assumes "served b fd op st S S'" "fd \<noteq> s" "chat_inv S" "chat_inv S'" "member_on s g a S"
  shows "member_on s g a S'"
proof (cases "op_frame op = None")
  case True
  then show ?thesis using assms(1,5) by (simp add: served_def)
next
  case False
  then obtain rep where step: "chat_step b fd (op_request op) S rep S'" using assms(1) by (auto simp: served_def)
  obtain k x i where m: "accts S k = Some x" "a_fd x = s" "g \<in> set (a_groups x)" "grps S g = Some i" "i_pair i = a"
    using assms(5) by (auto simp: member_on_def)
  have k: "accts S' k = Some x" using member_step [OF step assms(3,4) m(1) _ m(3)] m(2) assms(2) by simp
  obtain i' where i': "grps S' g = Some i'" by (rule chat_inv_groups [OF assms(4) k m(3)])
  then show ?thesis using k m pair_step [OF step m(4) i'] by (auto simp: member_on_def)
qed

lemma entered_member:
  assumes "served b fd (enter_op c g) ST_OK S S'"
  shows "\<exists>k x. accts S' k = Some x \<and> a_fd x = fd \<and> g \<in> set (a_groups x)"
  using assms by (auto simp: served_def enter_op_def split: if_splits elim!: step_create step_join)

lemma enter_step:
  assumes H: "hall_ok H Ses S" "i < length (h_peers H)" and g: "wf_cstring g" and ip: "CHAT_MAX_IP_STR_LEN \<le> length ip"
  obtains st a p H' Se' S' where "enter frag d ip port i c g H = Some (st, a, p, H')" "hall_ok H' (Ses[i := Se']) S'"
    "served (srv_ok (h_srv H)) (p_fd (h_peers H ! i)) (enter_op c g) st S S'" "map p_fd (h_peers H') = map p_fd (h_peers H)"
    "srv_ok (h_srv H') = srv_ok (h_srv H)"
    "st = ST_OK \<longrightarrow> (\<exists>x. member_on (p_fd (h_peers H ! i)) g (i_pair x) S' \<and> grps S' g = Some x \<and> a = Some (as_cstring (mp_ip (i_pair x))) \<and> p = mp_port (i_pair x))"
proof -
  let ?p = "h_peers H ! i"
  obtain st ip' port' m' e' Se' S' where o: "enter_group (world frag (p_fd ?p) d) c (Some (p_mng ?p)) (Some g) (Some ip) (Some port) (view H ?p) =
        Some (st, Some ip', Some port', Some m', e')"
      "in_sync (p_fd ?p) m' Se' e' S'" "served (srv_ok (h_srv H)) (p_fd ?p) (enter_op c g) st S S'" "srv_ok (w_srv e') = srv_ok (h_srv H)"
      "st = ST_OK \<longrightarrow> (\<exists>i. grps S' g = Some i \<and> cstr ip' = Some (as_cstring (mp_ip (i_pair i))) \<and> port' = mp_port (i_pair i))"
    using in_sync_enter [OF hall_okD(1) [OF H] g ip, of frag d c port] by (auto simp: view_def)
  have "client_op (world frag (p_fd ?p) d) ip port (enter_op c g) (Some (p_mng ?p)) (view H ?p) = Some (st, Some m', e')"
    unfolding enter_group_op o(1) by simp
  from hall_after [OF H ip this o(2,3)] have h: "hall_ok (put_back H i m' e') (Ses[i := Se']) S'" .
  have e: "enter frag d ip port i c g H = Some (st, cstr ip', port', put_back H i m' e')" using o(1) H(2) by (simp add: enter_def rd_def)
  have fd: "map p_fd (h_peers (put_back H i m' e')) = map p_fd (h_peers H)" using H(2) by (simp add: put_back_def map_update list_update_same_conv)
  have "st = ST_OK \<longrightarrow> (\<exists>x. member_on (p_fd ?p) g (i_pair x) S' \<and> grps S' g = Some x \<and> cstr ip' = Some (as_cstring (mp_ip (i_pair x))) \<and> port' = mp_port (i_pair x))"
    using o(3,5) entered_member [of _ "p_fd ?p" c g S S'] by (fastforce simp: member_on_def)
  moreover have "srv_ok (h_srv (put_back H i m' e')) = srv_ok (h_srv H)" using o(4) by (simp add: put_back_def)
  ultimately show thesis using that [OF e h o(3) fd] by blast
qed

lemma enter_result:
  assumes "hall_ok H Ses S" "i < length (h_peers H)" "wf_cstring g" "CHAT_MAX_IP_STR_LEN \<le> length ip" "enter frag d ip port i c g H = Some (st, a, p, H')"
  shows "\<exists>Se' S'. hall_ok H' (Ses[i := Se']) S' \<and> served (srv_ok (h_srv H)) (p_fd (h_peers H ! i)) (enter_op c g) st S S' \<and>
    map p_fd (h_peers H') = map p_fd (h_peers H) \<and> srv_ok (h_srv H') = srv_ok (h_srv H)"
  by (rule enter_step [OF assms(1-4), where frag = frag and d = d and port = port and c = c]) (use assms(5) in auto)

section \<open>Correctness\<close>

text \<open>
  C4: all clients stay in step. Any number of clients on one server run any operations in any order, with the bytes on each connection cut in any way. All of
  them return, and after each history every client agrees with the server: on the user of its connection, on the groups with windows, with nothing left on the
  way and no part of a message left in a buffer of the server.
\<close>

theorem clients_in_step:
  assumes "hall_ok H Ses S" "\<forall>(i, op) \<in> set evs. i < length (h_peers H) \<and> wf_op op" "CHAT_MAX_IP_STR_LEN \<le> length ip" "h_peers H \<noteq> []"
  shows "\<exists>sts H' Ses' S'. play frag d ip port evs H = Some (sts, H') \<and> length sts = length evs \<and> hall_ok H' Ses' S' \<and> chat_inv S' \<and> srv_rel (h_srv H') S' \<and>
    (\<forall>i < length (h_peers H'). agree (p_fd (h_peers H' ! i)) (Ses' ! i) S' \<and> kept (p_fd (h_peers H' ! i)) (h_net H') = [])"
proof -
  obtain sts H' Ses' S' where p: "play frag d ip port evs H = Some (sts, H')" "hall_ok H' Ses' S'" "map p_fd (h_peers H') = map p_fd (h_peers H)"
      "length sts = length evs"
    using play_steps [OF assms, of "\<lambda>_. True" frag d port] by blast
  have s: "in_sync (p_fd (h_peers H' ! i)) (p_mng (h_peers H' ! i)) (Ses' ! i) (view H' (h_peers H' ! i)) S'" if "i < length (h_peers H')" for i
    using hall_okD(1) [OF p(2) that] .
  have "0 < length (h_peers H')" using p(3) assms(4) by (metis length_greater_0_conv length_map)
  from s [OF this] have "chat_inv S'" "srv_rel (h_srv H') S'" by (simp_all add: in_sync_def view_def)
  then show ?thesis using p s by (auto simp: in_sync_def view_def)
qed

text \<open>
  C6: the members of a group share its address. A client creates or joins a group with status OK; then the others do anything, in any order, and one of them enters the
  same group with status OK. Both have been given the same address and port, which are those the server has for the group: what the windows of one send
  goes where the windows of the other listen.
\<close>

theorem members_share_address:
  assumes "hall_ok H Ses S" "i < length (h_peers H)" "j < length (h_peers H)" "i \<noteq> j" "wf_cstring g" "CHAT_MAX_IP_STR_LEN \<le> length ip"
    and "\<forall>(k, op) \<in> set evs. k < length (h_peers H) \<and> k \<noteq> i \<and> wf_op op"
  shows "\<exists>st a p H1 sts H2 st' a' p' H3 Ses3 S3. enter frag d ip port i c g H = Some (st, a, p, H1) \<and> play frag d ip port evs H1 = Some (sts, H2) \<and>
    enter frag d ip port j c' g H2 = Some (st', a', p', H3) \<and> hall_ok H3 Ses3 S3 \<and>
    (st = ST_OK \<longrightarrow> st' = ST_OK \<longrightarrow> a' = a \<and> p' = p \<and> (\<exists>x. grps S3 g = Some x \<and> a = Some (as_cstring (mp_ip (i_pair x))) \<and> p = mp_port (i_pair x)))"
proof -
  let ?fd = "p_fd (h_peers H ! i)"
  obtain st a p H1 Se1 S1 where e1: "enter frag d ip port i c g H = Some (st, a, p, H1)" "hall_ok H1 (Ses[i := Se1]) S1"
      "served (srv_ok (h_srv H)) ?fd (enter_op c g) st S S1" "map p_fd (h_peers H1) = map p_fd (h_peers H)"
      "srv_ok (h_srv H1) = srv_ok (h_srv H)"
      "st = ST_OK \<longrightarrow> (\<exists>x. member_on ?fd g (i_pair x) S1 \<and> grps S1 g = Some x \<and> a = Some (as_cstring (mp_ip (i_pair x))) \<and> p = mp_port (i_pair x))"
    by (rule enter_step [OF assms(1,2,5,6), where frag = frag and d = d and port = port and c = c])
  have n1: "length (h_peers H1) = length (h_peers H)" using e1(4) by (rule map_eq_imp_length_eq)
  have fd1: "p_fd (h_peers H1 ! k) = p_fd (h_peers H ! k)" if "k < length (h_peers H)" for k using e1(4) n1 that by (metis nth_map)
  let ?Q = "\<lambda>S. \<forall>y. member_on ?fd g y S1 \<longrightarrow> member_on ?fd g y S"
  have Q: "?Q S''" if "(k, op) \<in> set evs" "served b (p_fd (h_peers H1 ! k)) op st S' S''" "chat_inv S'" "chat_inv S''" "?Q S'" for b k op st S' S''
  proof -
    have k: "k < length (h_peers H)" "k \<noteq> i" using assms(7) that(1) by auto
    then have "p_fd (h_peers H1 ! k) \<noteq> ?fd" using hall_okD(3) [OF assms(1,2) k] fd1 by simp
    then show ?thesis using member_stays [OF that(2) _ that(3,4)] that(5) by blast
  qed
  have evs: "\<forall>(i, op) \<in> set evs. i < length (h_peers H1) \<and> wf_op op" "h_peers H1 \<noteq> []" using assms(2,7) n1 by auto
  have "\<exists>sts H2 Ses2 S2. play frag d ip port evs H1 = Some (sts, H2) \<and> hall_ok H2 Ses2 S2 \<and> ?Q S2 \<and> map p_fd (h_peers H2) = map p_fd (h_peers H1) \<and>
      length sts = length evs"
    by (rule play_steps [OF e1(2) evs(1) assms(6) evs(2)]) (fact Q, simp)
  then obtain sts H2 Ses2 S2 where p2: "play frag d ip port evs H1 = Some (sts, H2)" "hall_ok H2 Ses2 S2" "?Q S2" "map p_fd (h_peers H2) = map p_fd (h_peers H1)"
    by (elim exE conjE)
  have n2: "length (h_peers H2) = length (h_peers H)" using p2(4) n1 map_eq_imp_length_eq by metis
  then have j: "j < length (h_peers H2)" using assms(3) by simp
  obtain st' a' p' H3 Se3 S3 where e3: "enter frag d ip port j c' g H2 = Some (st', a', p', H3)" "hall_ok H3 (Ses2[j := Se3]) S3"
      "served (srv_ok (h_srv H2)) (p_fd (h_peers H2 ! j)) (enter_op c' g) st' S2 S3" "map p_fd (h_peers H3) = map p_fd (h_peers H2)"
      "srv_ok (h_srv H3) = srv_ok (h_srv H2)"
      "st' = ST_OK \<longrightarrow> (\<exists>x. member_on (p_fd (h_peers H2 ! j)) g (i_pair x) S3 \<and> grps S3 g = Some x \<and> a' = Some (as_cstring (mp_ip (i_pair x))) \<and> p' = mp_port (i_pair x))"
    by (rule enter_step [OF p2(2) j assms(5,6), where frag = frag and d = d and port = port and c = c'])
  have "a' = a \<and> p' = p \<and> (\<exists>x. grps S3 g = Some x \<and> a = Some (as_cstring (mp_ip (i_pair x))) \<and> p = mp_port (i_pair x))"
    if ok: "st = ST_OK" "st' = ST_OK"
  proof -
    obtain x :: GroupInfo where x: "member_on ?fd g (i_pair x) S2" "a = Some (as_cstring (mp_ip (i_pair x)))" "p = mp_port (i_pair x)" using e1(6) ok(1) p2(3) by blast
    have "p_fd (h_peers H2 ! j) = p_fd (h_peers H ! j)" using p2(4) e1(4) assms(3) n2 by (metis nth_map)
    then have fd: "p_fd (h_peers H2 ! j) \<noteq> ?fd" using hall_okD(3) [OF assms(1,2,3)] assms(4) by simp
    have n3: "j < length (h_peers H3)" using e3(4) j map_eq_imp_length_eq by metis
    have inv: "chat_inv S2" "chat_inv S3" using hall_okD(1) [OF p2(2) j] hall_okD(1) [OF e3(2) n3] by (auto simp: in_sync_def)
    have "member_on ?fd g (i_pair x) S3" by (rule member_stays [OF e3(3) fd inv x(1)])
    then show ?thesis using e3(6) ok(2) x(2,3) by (auto simp: member_on_def)
  qed
  then show ?thesis using e1(1) p2(1) e3(1,2) by blast
qed

section \<open>Example\<close>

text \<open>Two clients on a server that has just started.\<close>

definition two_clients :: "Server ServerNet" where
  "two_clients = add_client 1 6 one_client"

lemma two_clients_net: "net_inv two_clients" "connected 5 two_clients" "connected 6 two_clients" "kept 5 two_clients = []" "kept 6 two_clients = []"
  "onMsg two_clients = Some ServerMng_HandleMessage" "onDisc two_clients = Some ServerMng_OnDisconnect"
proof -
  have M: "1 < MAX_CLIENTS" "fd_ok 6" by (simp_all add: MAX_CLIENTS_def FD_SETSIZE_def fd_ok_def)
  have L: "listenFd one_client = 3" by (simp add: one_client_def add_client_def no_client_def new_net_def)
  have free: "c_fd (clients one_client ! 1) = - 1" using no_client_net(3) [of 1] M(1) by (simp add: one_client_def add_client_def)
  have "c_fd c \<in> {5, - 1}" if "c \<in> set (clients one_client)" for c
    using that by (auto simp: one_client_def add_client_def no_client_def new_net_def dest!: subsetD [OF set_update_subset_insert])
  then have "6 \<notin> set (open_fds (listenFd one_client) (clients one_client))" by (fastforce simp: open_fds_def L)
  note A = add_client_net [OF one_client_net(1) M(1) free M(2) this, folded two_clients_def]
  show "net_inv two_clients" "connected 5 two_clients" "connected 6 two_clients" "kept 5 two_clients = []" "kept 6 two_clients = []"
    using A(1-3) A(4,5) [of 5] one_client_net(2,3) by simp_all
qed (simp_all add: two_clients_def add_client_def one_client_net)

lemma two_in_step:
  obtains H S where "hall_ok (H :: int list Hall) [logged_out, logged_out] S" "map p_fd (h_peers H) = [5, 6]" "srv_ok (h_srv H)"
    "accts S = Map.empty" "grps S = Map.empty" "avail S \<noteq> []"
proof -
  let ?S = "start (map pool_pair [1..<256])"
  obtain w where w: "srv_rel w ?S" "chat_inv ?S" "srv_ok w" by (rule sample_server)
  obtain m where m: "cm_rel m logged_out" unfolding logged_out_def by (rule sample_client)
  let ?p = "\<lambda>fd. \<lparr>p_mng = m, p_fd = fd, p_read = length (replies fd w), p_time = 0, p_desk = []\<rparr> :: int list Peer"
  let ?H = "\<lparr>h_net = two_clients, h_srv = w, h_peers = [?p 5, ?p 6]\<rparr>"
  have s: "srv.serving two_clients w" using two_clients_net w(1,2) by (auto simp: srv.serving_def srv_inv_def)
  have "free_fd (accts ?S) fd" for fd by (simp add: free_fd_def start_def)
  then have "in_sync fd m logged_out (view ?H (?p fd)) ?S" if "fd \<in> {5, 6}" for fd
    using that fresh_in_sync [OF s w(1,2) _ _ _ m [unfolded logged_out_def], where sfd = fd and t = 0 and d = "[]"] two_clients_net
    by (auto simp: view_def logged_out_def)
  then have "hall_ok ?H [logged_out, logged_out] ?S" by (auto simp: hall_ok_def less_Suc_eq nth_Cons split: nat.splits)
  then show thesis by (rule that) (use w(3) in \<open>simp_all add: start_def\<close>)
qed

text \<open>Both register and log in.\<close>

lemma two_logged_in:
  obtains H Ses S where "hall_ok (H :: int list Hall) Ses S" "map p_fd (h_peers H) = [5, 6]" "srv_ok (h_srv H)" "grps S = Map.empty" "avail S \<noteq> []"
    "accts S = [[97] \<mapsto> \<lparr>a_pwd = [49], a_fd = 5, a_groups = []\<rparr>, [98] \<mapsto> \<lparr>a_pwd = [49], a_fd = 6, a_groups = []\<rparr>]"
proof -
  have ip: "CHAT_MAX_IP_STR_LEN \<le> length (replicate 16 (0 :: byte))" by (simp add: size_defs)
  have wf: "wf_op (DoRegister u [49])" "wf_op (DoLogin u [49])" "op_frame (DoRegister u [49]) \<noteq> None" "op_frame (DoLogin u [49]) \<noteq> None"
    if "u \<in> {[97], [98]}" for u
    using that by (auto simp: wf_op_def wf_cstring_def size_defs)
  have step: "\<exists>st (H' :: int list Hall) Ses' S' rep. hall_ok H' Ses' S' \<and> map p_fd (h_peers H') = [5, 6] \<and> srv_ok (h_srv H') \<and> chat_step True ([5, 6] ! i) (op_request op) S rep S'"
    if "hall_ok H Ses S" "map p_fd (h_peers H) = [5, 6]" "srv_ok (h_srv H)" "i < 2" "wf_op op" "op_frame op \<noteq> None" for H :: "int list Hall" and Ses S i op
  proof -
    have i: "i < length (h_peers H)" using that(2,4) by (metis length_Cons length_map list.size(3) numeral_2_eq_2)
    then have "p_fd (h_peers H ! i) = [5, 6] ! i" using that(2) by (metis nth_map)
    then show ?thesis using act_step [OF that(1) i that(5) ip, of "\<lambda>_. 0" desktop 0] that(2,3,6) by (fastforce simp: served_def)
  qed
  obtain H0 S0 where 0: "hall_ok (H0 :: int list Hall) [logged_out, logged_out] S0" "map p_fd (h_peers H0) = [5, 6]" "srv_ok (h_srv H0)"
    "accts S0 = Map.empty" "grps S0 = Map.empty" "avail S0 \<noteq> []" by (rule two_in_step)
  obtain H1 :: "int list Hall" and Ses1 S1 where 1: "hall_ok H1 Ses1 S1" "map p_fd (h_peers H1) = [5, 6]" "srv_ok (h_srv H1)"
      "grps S1 = Map.empty" "avail S1 \<noteq> []" "accts S1 = [[97] \<mapsto> \<lparr>a_pwd = [49], a_fd = - 1, a_groups = []\<rparr>]"
    using step [OF 0(1-3), of 0 "DoRegister [97] [49]"] wf [of "[97]"] 0(4-6) by (fastforce elim!: step_register)
  obtain H2 :: "int list Hall" and Ses2 S2 where 2: "hall_ok H2 Ses2 S2" "map p_fd (h_peers H2) = [5, 6]" "srv_ok (h_srv H2)"
      "grps S2 = Map.empty" "avail S2 \<noteq> []"
      "accts S2 = [[97] \<mapsto> \<lparr>a_pwd = [49], a_fd = - 1, a_groups = []\<rparr>, [98] \<mapsto> \<lparr>a_pwd = [49], a_fd = - 1, a_groups = []\<rparr>]"
    using step [OF 1(1-3), of 1 "DoRegister [98] [49]"] wf [of "[98]"] 1(4-6) by (fastforce elim!: step_register)
  have fd: "fd_ok 5" "fd_ok 6" by (simp_all add: fd_ok_def FD_SETSIZE_def)
  obtain H3 :: "int list Hall" and Ses3 S3 where 3: "hall_ok H3 Ses3 S3" "map p_fd (h_peers H3) = [5, 6]" "srv_ok (h_srv H3)"
      "grps S3 = Map.empty" "avail S3 \<noteq> []"
      "accts S3 = [[97] \<mapsto> \<lparr>a_pwd = [49], a_fd = 5, a_groups = []\<rparr>, [98] \<mapsto> \<lparr>a_pwd = [49], a_fd = - 1, a_groups = []\<rparr>]"
    using step [OF 2(1-3), of 0 "DoLogin [97] [49]"] wf [of "[97]"] 2(4-6) fd by (fastforce simp: free_fd_def split: if_splits elim!: step_login)
  obtain H4 :: "int list Hall" and Ses4 S4 where 4: "hall_ok H4 Ses4 S4" "map p_fd (h_peers H4) = [5, 6]" "srv_ok (h_srv H4)"
      "grps S4 = Map.empty" "avail S4 \<noteq> []"
      "accts S4 = [[97] \<mapsto> \<lparr>a_pwd = [49], a_fd = 5, a_groups = []\<rparr>, [98] \<mapsto> \<lparr>a_pwd = [49], a_fd = 6, a_groups = []\<rparr>]"
    using step [OF 3(1-3), of 1 "DoLogin [98] [49]"] wf [of "[98]"] 3(4-6) fd by (fastforce simp: free_fd_def split: if_splits elim!: step_login)
  show thesis by (rule that [OF 4])
qed

theorem clients_in_step_witness:
  "\<exists>H sts H' Ses' S'. play (\<lambda>t. t) desktop (replicate 16 0) 0 [(0, DoCreate [103]), (1, DoJoin [103]), (0, DoLogout)] (H :: int list Hall) = Some (sts, H') \<and>
     length sts = 3 \<and> hall_ok H' Ses' S' \<and> chat_inv S' \<and> srv_rel (h_srv H') S' \<and>
     (\<forall>i < length (h_peers H'). agree (p_fd (h_peers H' ! i)) (Ses' ! i) S' \<and> kept (p_fd (h_peers H' ! i)) (h_net H') = [])"
proof -
  obtain H Ses S where H: "hall_ok (H :: int list Hall) Ses S" "map p_fd (h_peers H) = [5, 6]" by (rule two_logged_in)
  have n: "length (h_peers H) = 2" using arg_cong [OF H(2), of length] by simp
  then have ne: "h_peers H \<noteq> []" by auto
  have ip: "CHAT_MAX_IP_STR_LEN \<le> length (replicate 16 (0 :: byte))" by (simp add: size_defs)
  have evs: "\<forall>(i, op) \<in> set [(0, DoCreate [103]), (1, DoJoin [103]), (0, DoLogout)]. i < length (h_peers H) \<and> wf_op op"
    unfolding n by (simp add: wf_op_def wf_cstring_def)
  have len: "length [(0, DoCreate [103]), (1, DoJoin [103]), (0, DoLogout)] = (3 :: nat)" by simp
  show ?thesis using clients_in_step [OF H(1) evs ip ne, of "\<lambda>t. t" desktop 0] unfolding len by blast
qed

theorem members_share_address_witness:
  "\<exists>H a p H1 H3. enter (\<lambda>_. 0) desktop (replicate 16 0) 0 0 True [103] (H :: int list Hall) = Some (ST_OK, Some a, p, H1) \<and>
     enter (\<lambda>_. 0) desktop (replicate 16 0) 0 1 False [103] H1 = Some (ST_OK, Some a, p, H3)"
proof -
  obtain H Ses S where H: "hall_ok (H :: int list Hall) Ses S" "map p_fd (h_peers H) = [5, 6]" "srv_ok (h_srv H)" "grps S = Map.empty" "avail S \<noteq> []"
      "accts S = [[97] \<mapsto> \<lparr>a_pwd = [49], a_fd = 5, a_groups = []\<rparr>, [98] \<mapsto> \<lparr>a_pwd = [49], a_fd = 6, a_groups = []\<rparr>]" by (rule two_logged_in)
  have n: "0 < length (h_peers H)" "1 < length (h_peers H)" using arg_cong [OF H(2), of length] by simp_all
  have fd: "p_fd (h_peers H ! 0) = 5" "p_fd (h_peers H ! 1) = 6" "fd_ok 5" "fd_ok 6"
    using arg_cong [OF H(2), of "\<lambda>xs. xs ! 0"] arg_cong [OF H(2), of "\<lambda>xs. xs ! 1"] n by (simp_all add: fd_ok_def FD_SETSIZE_def)
  have g: "wf_cstring [103]" "CHAT_MAX_IP_STR_LEN \<le> length (replicate 16 (0 :: byte))"
    by (simp_all add: wf_cstring_def size_defs)
  obtain st a p H1 st' a' p' H3 where e: "enter (\<lambda>_. 0) desktop (replicate 16 0) 0 0 True [103] H = Some (st, a, p, H1)"
      "enter (\<lambda>_. 0) desktop (replicate 16 0) 0 1 False [103] H1 = Some (st', a', p', H3)"
      "st = ST_OK \<longrightarrow> st' = ST_OK \<longrightarrow> a' = a \<and> p' = p \<and> a \<noteq> None"
    using members_share_address [OF H(1) n _ g(1,2), of "[]" "\<lambda>_. 0" desktop 0 True False] by auto
  obtain Se1 S1 where 1: "hall_ok H1 (Ses[0 := Se1]) S1" "served True 5 (enter_op True [103]) st S S1" "map p_fd (h_peers H1) = [5, 6]" "srv_ok (h_srv H1)"
    using enter_result [OF H(1) n(1) g(1,2) e(1)] fd(1) H(2,3) by auto
  have "st = ST_OK \<and> grps S1 [103] \<noteq> None \<and> accts S1 [98] = Some \<lparr>a_pwd = [49], a_fd = 6, a_groups = []\<rparr>"
    using 1(2) H(4-6) fd(3) by (auto simp: served_def enter_op_def size_defs free_fd_def split: if_splits elim!: step_create)
  moreover have "st' = ST_OK" if "grps S1 [103] \<noteq> None" "accts S1 [98] = Some \<lparr>a_pwd = [49], a_fd = 6, a_groups = []\<rparr>"
  proof -
    have n1: "1 < length (h_peers H1)" "p_fd (h_peers H1 ! 1) = 6"
      using arg_cong [OF 1(3), of length] arg_cong [OF 1(3), of "\<lambda>xs. xs ! 1"] by simp_all
    obtain S3 where "served True 6 (enter_op False [103]) st' S1 S3"
      using enter_result [OF 1(1) n1(1) g(1,2) e(2)] n1(2) 1(4) by auto
    moreover have "fd_unique (accts S1) 6" using hall_okD(1) [OF 1(1) n1(1)] srv_rel_fd_unique [of _ S1 6] by (auto simp: in_sync_def)
    then have "a_groups x = []" if "accts S1 k = Some x" "a_fd x = 6" for k x
      using that \<open>accts S1 [98] = _\<close> unfolding fd_unique_def by fastforce
    moreover have "\<not> free_fd (accts S1) 6" using that(2) unfolding free_fd_def by fastforce
    ultimately show ?thesis using that fd(4) by (fastforce simp: served_def enter_op_def size_defs split: if_splits elim!: step_join)
  qed
  ultimately have ok: "st = ST_OK" "st' = ST_OK" by auto
  then obtain b where "a = Some b" "a' = Some b" "p' = p" using e(3) by auto
  then show ?thesis using e(1,2) ok by blast
qed

end
