(* ===== verification/Mock_Server.thy ===== *)
theory Mock_Server
  imports Server_Mng Client_Net
begin

text \<open>
  The mock server, \<^verbatim>\<open>tests/mock_server.c\<close>, which answers registrations and logins from an array of users. Its comment calls its replies the
  specification that the real server has to match; the theorem at the end shows in which sense the server of \<^verbatim>\<open>Server_Mng\<close> does.

  \<open>serve_client\<close>, which serves one connection, is a partial function over the system calls of \<^verbatim>\<open>Client_Net\<close>. The accept loop of the main
  program never ends: the model gives the state after any number of its rounds.
\<close>

section \<open>Users\<close>

definition MAX_USERS :: nat where "MAX_USERS = 64"

record MockUser =
  mu_name :: cstring
  mu_pass :: cstring

text \<open>The global variables.\<close>

record Mock =
  g_users :: "MockUser list"
  g_user_count :: nat

function find_from :: "Mock \<Rightarrow> cstring \<Rightarrow> nat \<Rightarrow> nat option option" where
  "find_from M k i =
     (if i < g_user_count M
      then do {
        u \<leftarrow> rd (g_users M) i;
        if mu_name u = k then Some (Some i) else find_from M k (Suc i)
      }
      else Some None)"
  by pat_completeness auto
termination find_from
  by (relation "measure (\<lambda>(M, k, i). g_user_count M - i)") auto

declare find_from.simps [simp del]

definition find_user :: "Mock \<Rightarrow> cstring \<Rightarrow> nat option option" where
  "find_user M k = find_from M k 0"

definition handle_register :: "Mock \<Rightarrow> cstring \<Rightarrow> cstring \<Rightarrow> (ChatStatus \<times> Mock) option" where
  "handle_register M user pass = do {
     f \<leftarrow> find_user M user;
     if f \<noteq> None then Some (ST_ERR_USER_EXISTS, M)
     else if g_user_count M \<ge> MAX_USERS then Some (ST_ERR_SERVER_FULL, M)
     else do {
       us \<leftarrow> wr (g_users M) (g_user_count M) \<lparr>mu_name = strncpy CHAT_MAX_USERNAME_LEN user, mu_pass = strncpy CHAT_MAX_PASSWORD_LEN pass\<rparr>;
       Some (ST_OK, M\<lparr>g_users := us, g_user_count := g_user_count M + 1\<rparr>)
     }}"

definition handle_login :: "Mock \<Rightarrow> cstring \<Rightarrow> cstring \<Rightarrow> ChatStatus option" where
  "handle_login M user pass = do {
     f \<leftarrow> find_user M user;
     case f of
       None \<Rightarrow> Some ST_ERR_USER_NOT_FOUND
     | Some i \<Rightarrow> do {
         u \<leftarrow> rd (g_users M) i;
         if mu_pass u \<noteq> pass then Some ST_ERR_BAD_PASSWORD else Some ST_OK
       }}"

section \<open>Connections\<close>

definition mock_recv_exact :: "('e, 'z) Net_scheme \<Rightarrow> int \<Rightarrow> byte list \<Rightarrow> nat \<Rightarrow> nat \<Rightarrow> 'e \<Rightarrow> (int \<times> byte list \<times> 'e) option" where
  "mock_recv_exact net fd buf off need e = recv_loop net fd buf off need 0 e"

definition mock_send_all :: "('e, 'z) Net_scheme \<Rightarrow> int \<Rightarrow> byte list \<Rightarrow> nat \<Rightarrow> 'e \<Rightarrow> (int \<times> 'e) option" where
  "mock_send_all net fd buf len e = send_loop net fd buf len 0 e"

text \<open>The answer to the message of \<open>n\<close> bytes in \<open>buf\<close>, encoded into the same buffer.\<close>

definition mock_reply :: "Mock \<Rightarrow> byte list \<Rightarrow> byte \<Rightarrow> nat \<Rightarrow> (int \<times> byte list \<times> Mock) option" where
  "mock_reply M buf type n = do {
     (status, rep_op, M) \<leftarrow>
       (if type = op_byte OP_REG_REQ \<or> type = op_byte OP_LOGIN_REQ
        then do {
          (r, u, p) \<leftarrow> chat_decode_user_pass (Some buf) n (Some (replicate (CHAT_MAX_USERNAME_LEN + 1) 0)) (Some (replicate (CHAT_MAX_PASSWORD_LEN + 1) 0));
          (status, M) \<leftarrow>
            (if r \<noteq> 0 then Some (ST_ERR_PROTOCOL, M)
             else do {
               user \<leftarrow> cstr (the u);
               pass \<leftarrow> cstr (the p);
               if type = op_byte OP_REG_REQ then handle_register M user pass
               else do { st \<leftarrow> handle_login M user pass; Some (st, M) }
             });
          Some (status, if type = op_byte OP_REG_REQ then OP_REG_REP else OP_LOGIN_REP, M)
        }
        else Some (ST_ERR_PROTOCOL, OP_REG_REP, M));
     (n, b) \<leftarrow> chat_encode_status_rep (Some buf) rep_op status;
     Some (n, the b, M)
   }"

partial_function (option) serve_client :: "('e, 'z) Net_scheme \<Rightarrow> int \<Rightarrow> byte list \<Rightarrow> Mock \<Rightarrow> 'e \<Rightarrow> (Mock \<times> 'e) option" where
  "serve_client net cfd buf M e = do {
     (r, buf, e) \<leftarrow> mock_recv_exact net cfd buf 0 2 e;
     if r \<noteq> 0 then Some (M, e)
     else do {
       (r, type, len) \<leftarrow> chat_peek_header (Some buf) 2 (Some 0) (Some 0);
       if r \<noteq> 0 then Some (M, e)
       else do {
         (r, buf, e) \<leftarrow> (if the len > 0 then mock_recv_exact net cfd buf 2 (unat (the len)) e else Some (0, buf, e));
         if r \<noteq> 0 then Some (M, e)
         else do {
           (n, buf, M) \<leftarrow> mock_reply M buf (the type) (2 + unat (the len));
           if n < 0 then Some (M, e)
           else do {
             (r, e) \<leftarrow> mock_send_all net cfd buf (nat n) e;
             if r \<noteq> 0 then Some (M, e) else serve_client net cfd buf M e
           }}}}}"

section \<open>The main program\<close>

record 'e MockOs = "'e Net" +
  sys_reuseaddr :: "int \<Rightarrow> 'e \<Rightarrow> int \<times> 'e"
  sys_bind :: "int \<Rightarrow> u16 \<Rightarrow> 'e \<Rightarrow> int \<times> 'e"
  sys_listen :: "int \<Rightarrow> int \<Rightarrow> 'e \<Rightarrow> int \<times> 'e"
  sys_accept :: "int \<Rightarrow> 'e \<Rightarrow> int \<times> 'e"

text \<open>The first \<open>n\<close> rounds of the accept loop. The buffer of each call of \<open>serve_client\<close> holds whatever is on the stack, \<open>stack k\<close> in the round \<open>k\<close>.\<close>

primrec accept_rounds :: "('e, 'z) MockOs_scheme \<Rightarrow> (nat \<Rightarrow> byte list) \<Rightarrow> int \<Rightarrow> nat \<Rightarrow> Mock \<Rightarrow> 'e \<Rightarrow> (Mock \<times> 'e) option" where
  "accept_rounds os stack lfd 0 M e = Some (M, e)"
| "accept_rounds os stack lfd (Suc k) M e = do {
     (M, e) \<leftarrow> accept_rounds os stack lfd k M e;
     let (cfd, e) = sys_accept os lfd e;
     if cfd < 0 then Some (M, e)
     else do {
       (M, e) \<leftarrow> serve_client os cfd (stack k) M e;
       Some (M, sys_close os cfd e)
     }}"

text \<open>The globals, which C sets to zero.\<close>

definition empty_mock :: Mock where
  "empty_mock = \<lparr>g_users = replicate MAX_USERS \<lparr>mu_name = [], mu_pass = []\<rparr>, g_user_count = 0\<rparr>"

text \<open>The exit code if the program ends, \<open>None\<close> if it is still running after \<open>n\<close> rounds.\<close>

definition mock_main :: "('e, 'z) MockOs_scheme \<Rightarrow> (nat \<Rightarrow> byte list) \<Rightarrow> nat \<Rightarrow> 'e \<Rightarrow> (int option \<times> Mock \<times> 'e) option" where
  "mock_main os stack n e =
     (let (lfd, e) = sys_socket os e
      in if lfd < 0 then Some (Some 1, empty_mock, e)
      else let (_, e) = sys_reuseaddr os lfd e;
               (r, e) = sys_bind os lfd CHAT_TCP_PORT e
      in if r < 0 then Some (Some 1, empty_mock, sys_close os lfd e)
      else let (r, e) = sys_listen os lfd 4 e
      in if r < 0 then Some (Some 1, empty_mock, sys_close os lfd e)
      else do {
        (M, e) \<leftarrow> accept_rounds os stack lfd n empty_mock e;
        Some (None, M, e)
      })"

section \<open>The table of users\<close>

text \<open>The mock server knows the same users with the same passwords.\<close>

definition mock_table :: "Mock \<Rightarrow> (cstring \<times> cstring) list" where
  "mock_table M = map (\<lambda>u. (mu_name u, mu_pass u)) (take (g_user_count M) (g_users M))"

definition mock_ok :: "Mock \<Rightarrow> bool" where
  "mock_ok M \<longleftrightarrow> length (g_users M) = MAX_USERS \<and> g_user_count M \<le> MAX_USERS"

definition mock_rel :: "Mock \<Rightarrow> accounts \<Rightarrow> bool" where
  "mock_rel M A \<longleftrightarrow> mock_ok M \<and> (\<forall>k. map_of (mock_table M) k = map_option a_pwd (A k))"

lemma length_mock_table: "mock_ok M \<Longrightarrow> length (mock_table M) = g_user_count M"
  by (simp add: mock_ok_def mock_table_def)

lemma find_from_index:
  "mock_ok M \<Longrightarrow> i \<le> g_user_count M \<Longrightarrow> case map_of (drop i (mock_table M)) k of
      None \<Rightarrow> find_from M k i = Some None
    | Some p \<Rightarrow> \<exists>j < g_user_count M. find_from M k i = Some (Some j) \<and> mu_pass (g_users M ! j) = p"
proof (induction M k i rule: find_from.induct)
  case (1 M k i)
  show ?case
  proof (cases "i < g_user_count M")
    case True
    let ?u = "g_users M ! i"
    have r: "rd (g_users M) i = Some ?u" using True "1.prems"(1) by (simp add: rd_def mock_ok_def)
    have d: "drop i (mock_table M) = (mu_name ?u, mu_pass ?u) # drop (Suc i) (mock_table M)"
      using True length_mock_table [OF "1.prems"(1)] by (simp add: Cons_nth_drop_Suc [symmetric]) (simp add: mock_table_def)
    have e: "find_from M k i = (if mu_name ?u = k then Some (Some i) else find_from M k (Suc i))"
      using True r by (subst find_from.simps) simp
    show ?thesis
    proof (cases "mu_name ?u = k")
      case False
      then show ?thesis using "1.IH" [OF True r] "1.prems"(1) True d e by (auto split: option.splits)
    qed (use d e True in auto)
  next
    case False
    then have "drop i (mock_table M) = []" using length_mock_table [OF "1.prems"(1)] by simp
    then show ?thesis using False by (simp add: find_from.simps [of M k i])
  qed
qed

lemma find_user_table:
  assumes "mock_ok M"
  shows "map_of (mock_table M) k = None \<Longrightarrow> find_user M k = Some None"
    and "map_of (mock_table M) k = Some p \<Longrightarrow> \<exists>j < g_user_count M. find_user M k = Some (Some j) \<and> mu_pass (g_users M ! j) = p"
  using find_from_index [OF assms, of 0 k] by (simp_all add: find_user_def)

lemma register_table:
  assumes M: "mock_rel M A" and l: "length k \<le> CHAT_MAX_USERNAME_LEN" "length p \<le> CHAT_MAX_PASSWORD_LEN"
  shows "if A k \<noteq> None then handle_register M k p = Some (ST_ERR_USER_EXISTS, M)
    else if g_user_count M \<ge> MAX_USERS then handle_register M k p = Some (ST_ERR_SERVER_FULL, M)
    else \<exists>M'. handle_register M k p = Some (ST_OK, M') \<and> mock_rel M' (A(k := Some \<lparr>a_pwd = p, a_fd = - 1, a_groups = []\<rparr>))"
proof -
  have ok: "mock_ok M" and tab: "map_of (mock_table M) j = map_option a_pwd (A j)" for j using M by (auto simp: mock_rel_def)
  show ?thesis
  proof (cases "A k")
    case (Some x)
    then show ?thesis using find_user_table(2) [OF ok, of k "a_pwd x"] tab [of k] by (auto simp: handle_register_def)
  next
    case None
    then have f: "find_user M k = Some None" using find_user_table(1) [OF ok, of k] tab [of k] by simp
    show ?thesis
    proof (cases "g_user_count M \<ge> MAX_USERS")
      case False
      let ?M = "M\<lparr>g_users := (g_users M)[g_user_count M := \<lparr>mu_name = k, mu_pass = p\<rparr>], g_user_count := g_user_count M + 1\<rparr>"
      have h: "handle_register M k p = Some (ST_OK, ?M)"
        using f False ok l by (simp add: handle_register_def wr_def mock_ok_def)
      have t: "mock_table ?M = mock_table M @ [(k, p)]"
        using False ok by (simp add: mock_table_def mock_ok_def take_Suc_conv_app_nth)
      have "map_of (mock_table M @ [(k, p)]) j = map_option a_pwd ((A(k := Some \<lparr>a_pwd = p, a_fd = - 1, a_groups = []\<rparr>)) j)" for j
        using None tab [of j] by (cases "A j") (auto simp: map_of_append map_add_def split: option.splits)
      then have "mock_rel ?M (A(k := Some \<lparr>a_pwd = p, a_fd = - 1, a_groups = []\<rparr>))"
        using t ok False by (simp add: mock_rel_def mock_ok_def)
      then show ?thesis using None False h by auto
    qed (use None f in \<open>simp add: handle_register_def\<close>)
  qed
qed

lemma login_table:
  assumes "mock_rel M A"
  shows "handle_login M k p = Some (case A k of None \<Rightarrow> ST_ERR_USER_NOT_FOUND | Some x \<Rightarrow> if a_pwd x = p then ST_OK else ST_ERR_BAD_PASSWORD)"
proof -
  have ok: "mock_ok M" and tab: "map_of (mock_table M) k = map_option a_pwd (A k)" using assms by (auto simp: mock_rel_def)
  show ?thesis
  proof (cases "A k")
    case None
    then show ?thesis using find_user_table(1) [OF ok, of k] tab by (simp add: handle_login_def)
  next
    case (Some x)
    then obtain j where "j < g_user_count M" "find_user M k = Some (Some j)" "mu_pass (g_users M ! j) = a_pwd x"
      using find_user_table(2) [OF ok, of k "a_pwd x"] tab by auto
    then show ?thesis using Some ok by (auto simp: handle_login_def rd_def mock_ok_def)
  qed
qed

section \<open>The real server and the mock server\<close>

lemma mock_reply_decoded:
  assumes n: "n \<le> length b" and b: "CHAT_MAX_MSG_SIZE \<le> length b" and up: "parse_user_pass (take n b) = Some (u, p)"
  shows "handle_register M (as_cstring u) (as_cstring p) = Some (st, M') \<Longrightarrow>
      mock_reply M b (op_byte OP_REG_REQ) n = Some (3, built (frame OP_REG_REP [st_byte st]) b, M')"
    and "handle_login M (as_cstring u) (as_cstring p) = Some st \<Longrightarrow>
      mock_reply M b (op_byte OP_LOGIN_REQ) n = Some (3, built (frame OP_LOGIN_REP [st_byte st]) b, M)"
proof -
  let ?ou = "replicate (CHAT_MAX_USERNAME_LEN + 1) (0 :: byte)" and ?op = "replicate (CHAT_MAX_PASSWORD_LEN + 1) (0 :: byte)"
  have d: "chat_decode_user_pass (Some b) n (Some ?ou) (Some ?op) =
      Some (0, Some (u @ 0 # drop (Suc (length u)) ?ou), Some (p @ 0 # drop (Suc (length p)) ?op))"
    using decode_user_pass_ref [OF n, of ?ou ?op] up by simp
  note eqs = cstr_prefix encode_status_layout [OF b]
  show "handle_register M (as_cstring u) (as_cstring p) = Some (st, M') \<Longrightarrow>
      mock_reply M b (op_byte OP_REG_REQ) n = Some (3, built (frame OP_REG_REP [st_byte st]) b, M')"
    unfolding mock_reply_def d by (simp add: eqs)
  show "handle_login M (as_cstring u) (as_cstring p) = Some st \<Longrightarrow>
      mock_reply M b (op_byte OP_LOGIN_REQ) n = Some (3, built (frame OP_LOGIN_REP [st_byte st]) b, M)"
    unfolding mock_reply_def d by (simp add: eqs)
qed

lemma mock_reply_malformed:
  assumes n: "n \<le> length b" and b: "CHAT_MAX_MSG_SIZE \<le> length b" and up: "parse_user_pass (take n b) = None"
    and ty: "type \<in> {op_byte OP_REG_REQ, op_byte OP_LOGIN_REQ}"
  shows "\<exists>op. mock_reply M b type n = Some (3, built (frame op [st_byte ST_ERR_PROTOCOL]) b, M)"
proof -
  let ?ou = "replicate (CHAT_MAX_USERNAME_LEN + 1) (0 :: byte)" and ?op = "replicate (CHAT_MAX_PASSWORD_LEN + 1) (0 :: byte)"
  obtain ou' where d: "chat_decode_user_pass (Some b) n (Some ?ou) (Some ?op) = Some (- 1, Some ou', Some ?op)"
    using decode_user_pass_ref [OF n, of ?ou ?op] up by auto
  show ?thesis using ty unfolding mock_reply_def d by (auto simp: encode_status_layout [OF b])
qed

lemma parse_user_pass_lengths:
  assumes "parse_user_pass fr = Some (u, p)"
  shows "2 \<le> length fr" "length (as_cstring u) \<le> CHAT_MAX_USERNAME_LEN" "length (as_cstring p) \<le> CHAT_MAX_PASSWORD_LEN"
proof -
  have "2 \<le> length fr \<and> length u \<le> CHAT_MAX_USERNAME_LEN \<and> length p \<le> CHAT_MAX_PASSWORD_LEN"
    using assms by (auto simp: parse_user_pass_def frame_ok_def take_field_def split: if_splits list.splits bind_splits)
  then show "2 \<le> length fr" "length (as_cstring u) \<le> CHAT_MAX_USERNAME_LEN" "length (as_cstring p) \<le> CHAT_MAX_PASSWORD_LEN"
    using length_takeWhile_le [of "\<lambda>c. c \<noteq> 0" u] length_takeWhile_le [of "\<lambda>c. c \<noteq> 0" p] by auto
qed

lemma mock_rel_cong: "(\<And>k. map_option a_pwd (A' k) = map_option a_pwd (A k)) \<Longrightarrow> mock_rel M A' = mock_rel M A"
  by (simp add: mock_rel_def)

lemma register_matches:
  assumes "chat_step True fd (Register k p) S rep S'" "mock_rel M (accts S)" "g_user_count M < MAX_USERS"
    and "length k \<le> CHAT_MAX_USERNAME_LEN" "length p \<le> CHAT_MAX_PASSWORD_LEN"
  shows "\<exists>st M'. handle_register M k p = Some (st, M') \<and> rep = status_reply OP_REG_REP st \<and> mock_rel M' (accts S')"
  using assms(1) register_table [OF assms(2,4,5)] assms(2,3) by (cases rule: chat_step.cases) auto

lemma login_matches:
  assumes "chat_step True fd (Login k p) S rep S'" "mock_rel M (accts S)" "fd_ok fd" and off: "\<forall>k x. accts S k = Some x \<longrightarrow> a_fd x = - 1"
  shows "\<exists>st. handle_login M k p = Some st \<and> rep = status_reply OP_LOGIN_REP st \<and> mock_rel M (accts S')"
proof -
  have free: "free_fd (accts S) fd" using off assms(3) by (auto simp: free_fd_def fd_ok_def)
  show ?thesis
    using assms(1) login_table [OF assms(2), of k p] assms(2,3) free off mock_rel_cong [of "accts S'" "accts S" M]
    by (cases rule: chat_step.cases) auto
qed

section \<open>Serving a connection\<close>

text \<open>Every table represents the accounts in which nobody is logged in.\<close>

definition table_accounts :: "Mock \<Rightarrow> accounts" where
  "table_accounts M k = map_option (\<lambda>p. \<lparr>a_pwd = p, a_fd = - 1, a_groups = []\<rparr>) (map_of (mock_table M) k)"

lemma table_accounts_rel: "mock_ok M \<Longrightarrow> mock_rel M (table_accounts M)"
  by (simp add: mock_rel_def table_accounts_def option.map_comp comp_def option.map_ident)

text \<open>Users are only added, and keep their passwords.\<close>

definition extends :: "Mock \<Rightarrow> Mock \<Rightarrow> bool" where
  "extends M M' \<longleftrightarrow> mock_ok M' \<and> map_of (mock_table M) \<subseteq>\<^sub>m map_of (mock_table M')"

lemma extends_refl: "mock_ok M \<Longrightarrow> extends M M"
  by (simp add: extends_def)

lemma extends_trans: "extends M M' \<Longrightarrow> extends M' M'' \<Longrightarrow> extends M M''"
  using map_le_trans by (auto simp: extends_def)

lemma register_extends:
  assumes ok: "mock_ok M" and l: "length k \<le> CHAT_MAX_USERNAME_LEN" "length p \<le> CHAT_MAX_PASSWORD_LEN"
  shows "\<exists>st M'. handle_register M k p = Some (st, M') \<and> extends M M'"
proof -
  note R = register_table [OF table_accounts_rel [OF ok] l]
  show ?thesis
  proof (cases "table_accounts M k \<noteq> None \<or> g_user_count M \<ge> MAX_USERS")
    case True
    then show ?thesis using R extends_refl [OF ok] by (auto split: if_splits)
  next
    case False
    then obtain M' where M': "handle_register M k p = Some (ST_OK, M')" "mock_rel M' ((table_accounts M)(k := Some \<lparr>a_pwd = p, a_fd = - 1, a_groups = []\<rparr>))"
      using R by auto
    have "map_of (mock_table M') j = map_of (mock_table M) j" if "map_of (mock_table M) j \<noteq> None" for j
      using M'(2) False that by (auto simp: mock_rel_def table_accounts_def)
    then have "map_of (mock_table M) \<subseteq>\<^sub>m map_of (mock_table M')" by (simp add: map_le_def domIff)
    then show ?thesis using M' by (auto simp: extends_def mock_rel_def)
  qed
qed

lemma mock_reply_total:
  assumes ok: "mock_ok M" and n: "n \<le> length b" and b: "CHAT_MAX_MSG_SIZE \<le> length b"
  shows "\<exists>b' M'. mock_reply M b type n = Some (3, b', M') \<and> length b' = length b \<and> extends M M'"
proof -
  have len: "length (built (frame op [c]) b) = length b" for op c using b by (simp add: built_def frame_def size_defs)
  show ?thesis
  proof (cases "type \<in> {op_byte OP_REG_REQ, op_byte OP_LOGIN_REQ}")
    case False
    then show ?thesis using extends_refl [OF ok] len by (simp add: mock_reply_def encode_status_layout [OF b])
  next
    case ty: True
    show ?thesis
    proof (cases "parse_user_pass (take n b)")
      case None
      then show ?thesis using mock_reply_malformed [OF n b None ty, of M] extends_refl [OF ok] len by auto
    next
      case (Some up)
      obtain u p where up: "parse_user_pass (take n b) = Some (u, p)" using Some by (cases up) auto
      obtain st M' where r: "handle_register M (as_cstring u) (as_cstring p) = Some (st, M')" "extends M M'"
        using register_extends [OF ok parse_user_pass_lengths(2,3) [OF up]] by blast
      obtain st' where l: "handle_login M (as_cstring u) (as_cstring p) = Some st'" using login_table [OF table_accounts_rel [OF ok]] by blast
      show ?thesis
        using ty mock_reply_decoded(1) [OF n b up r(1)] mock_reply_decoded(2) [OF n b up l] r(2) extends_refl [OF ok] len by auto
    qed
  qed
qed

text \<open>
  A connection that ends: each byte that is received makes a measure of the world smaller, and sending does not make it larger.
\<close>

definition runs_dry :: "('e, 'z) Net_scheme \<Rightarrow> ('e \<Rightarrow> nat) \<Rightarrow> bool" where
  "runs_dry net f \<longleftrightarrow> (\<forall>fd k e r e'. sys_recv net fd k e = (r, e') \<longrightarrow> f e' \<le> f e \<and> (r \<noteq> None \<longrightarrow> r \<noteq> Some [] \<longrightarrow> f e' < f e)) \<and>
     (\<forall>fd bs e. f (snd (sys_send net fd bs e)) \<le> f e)"

lemma runs_dry_inv: "runs_dry net f \<Longrightarrow> wire_inv net (\<lambda>e. f e \<le> c)"
  unfolding runs_dry_def wire_inv_def by (metis le_trans prod.collapse)

lemma recv_shrinks:
  assumes f: "runs_dry net f" and r: "recv_loop net fd buf off need 0 e = Some (0, buf', e')" and need: "0 < need"
  shows "f e' < f e"
proof -
  obtain x e1 where s: "sys_recv net fd (need - 0) e = (x, e1)" by fastforce
  obtain bs where bs: "x = Some bs" "bs \<noteq> []"
    using r s need by (subst (asm) recv_loop.simps) (auto split: option.splits if_splits)
  have "f e1 < f e" using f s bs unfolding runs_dry_def by blast
  moreover obtain b1 where "recv_loop net fd b1 off need (0 + length bs) e1 = Some (0, buf', e')"
    using r s need bs by (subst (asm) recv_loop.simps) (auto split: bind_splits)
  then have "f e' \<le> f e1" using recv_loop_inv [of net fd b1 off need "0 + length bs" e1 _ "\<lambda>x. f x \<le> f e1"] runs_dry_inv [OF f] by auto
  ultimately show ?thesis by simp
qed

text \<open>The payload of a message.\<close>

lemma recv_payload:
  assumes net: "recv_bounded net" "runs_dry net f" and l: "2 + unat (n :: byte) \<le> CHAT_MAX_MSG_SIZE" and b: "length b = CHAT_MAX_MSG_SIZE"
    and P: "wire_inv net P" "P e"
  shows "\<exists>r b' e'. (if n > 0 then mock_recv_exact net cfd b 2 (unat n) e else Some (0, b, e)) = Some (r, b', e') \<and>
    length b' = CHAT_MAX_MSG_SIZE \<and> f e' \<le> f e \<and> P e'"
proof (cases "n > 0")
  case True
  obtain r b' e' where x: "recv_loop net cfd b 2 (unat n) 0 e = Some (r, b', e')" "length b' = CHAT_MAX_MSG_SIZE"
    using recv_loop_total [OF net(1), of 2 "unat n" b cfd 0 e] l b by auto
  have "f e' \<le> f e" "P e'" using recv_loop_inv [OF x(1), of "\<lambda>x. f x \<le> f e"] recv_loop_inv [OF x(1), of P] runs_dry_inv [OF net(2)] P by auto
  then show ?thesis using x True by (simp add: mock_recv_exact_def)
qed (use b P in simp)

text \<open>Serving a client ends when the connection does and stays within the buffer and the array. It keeps what \<open>send\<close> and \<open>recv\<close> keep.\<close>

lemma serve_client_returns:
  assumes net: "recv_bounded net" "runs_dry net f" and P: "wire_inv net P"
  shows "mock_ok M \<Longrightarrow> length buf = CHAT_MAX_MSG_SIZE \<Longrightarrow> P e \<Longrightarrow> \<exists>M' e'. serve_client net cfd buf M e = Some (M', e') \<and> extends M M' \<and> P e'"
proof (induction "f e" arbitrary: M buf e rule: less_induct)
  case less
  have L: "0 + 2 \<le> length buf" using less.prems(2) by (simp add: size_defs)
  obtain r b1 e1 where h: "recv_loop net cfd buf 0 2 0 e = Some (r, b1, e1)" "length b1 = CHAT_MAX_MSG_SIZE"
    using recv_loop_total [OF net(1) L, of cfd 0 e] less.prems(2) by auto
  have P1: "P e1" using recv_loop_inv [OF h(1), of P] P less.prems(3) by simp
  show ?case
  proof (cases "r = 0")
    case False
    then show ?thesis using h extends_refl [OF less.prems(1)] P1 by (subst serve_client.simps) (simp add: mock_recv_exact_def)
  next
    case True
    have e1: "f e1 < f e" using recv_shrinks [OF net(2)] h(1) True by simp
    have pk: "chat_peek_header (Some b1) 2 (Some 0) (Some 0) = Some (0, Some (b1 ! 0), Some (b1 ! 1))"
      using h(2) by (simp add: chat_peek_header_def rd_def size_defs)
    let ?l = "unat (b1 ! 1)"
    have l: "2 + ?l \<le> CHAT_MAX_MSG_SIZE" using unat_byte_le [of "b1 ! 1"] by (simp add: size_defs)
    obtain r2 b2 e2 where p: "(if b1 ! 1 > 0 then mock_recv_exact net cfd b1 2 ?l e1 else Some (0, b1, e1)) = Some (r2, b2, e2)"
        "length b2 = CHAT_MAX_MSG_SIZE" "f e2 \<le> f e1 \<and> P e2"
      using recv_payload [OF net l h(2) P P1] by blast
    obtain b3 M3 where m: "mock_reply M b2 (b1 ! 0) (2 + ?l) = Some (3, b3, M3)" "length b3 = CHAT_MAX_MSG_SIZE" "extends M M3"
      using mock_reply_total [OF less.prems(1), of "2 + ?l" b2 "b1 ! 0"] l p(2) by auto
    have L3: "nat 3 \<le> length b3" using m(2) by (simp add: size_defs)
    obtain r4 e4 where s: "mock_send_all net cfd b3 (nat 3) e2 = Some (r4, e4)"
      using send_loop_total [OF L3, of net cfd 0 e2] by (auto simp: mock_send_all_def)
    have e4: "f e4 \<le> f e2 \<and> P e4"
      using send_loop_inv [OF s [unfolded mock_send_all_def], of "\<lambda>x. f x \<le> f e2"] send_loop_inv [OF s [unfolded mock_send_all_def], of P]
        runs_dry_inv [OF net(2)] P p(3) by simp
    then have lt: "f e4 < f e" using p(3) e1 by simp
    have eq: "serve_client net cfd buf M e = (if r2 \<noteq> 0 then Some (M, e2) else if r4 \<noteq> 0 then Some (M3, e4) else serve_client net cfd b3 M3 e4)"
      by (simp only: serve_client.simps [of net cfd buf M e] mock_recv_exact_def [of net cfd buf] h(1) True pk p(1) m(1) s
          Option.bind.bind_lunit prod.case option.sel simp_thms if_False if_True) simp
    have M3: "mock_ok M3" using m(3) by (simp add: extends_def)
    obtain M' e' where "serve_client net cfd b3 M3 e4 = Some (M', e')" "extends M3 M'" "P e'"
      using less.hyps [OF lt M3 m(2)] e4 by blast
    then show ?thesis using eq extends_trans [OF m(3)] extends_refl [OF less.prems(1)] m(3) p(3) e4 by auto
  qed
qed

section \<open>The accept loop\<close>

text \<open>
  What the documentation of the calls says about descriptors: \<open>socket\<close> and \<open>accept\<close> fail or give one that was not open, \<open>close\<close> closes its argument, nothing
  else opens or closes one.
\<close>

definition mock_fds :: "('e, 'z) MockOs_scheme \<Rightarrow> ('e \<Rightarrow> int set) \<Rightarrow> bool" where
  "mock_fds os fds \<longleftrightarrow>
     (\<forall>e fd e'. sys_socket os e = (fd, e') \<longrightarrow> (if fd < 0 then fds e' = fds e else fd \<notin> fds e \<and> fds e' = insert fd (fds e))) \<and>
     (\<forall>l e fd e'. sys_accept os l e = (fd, e') \<longrightarrow> (if fd < 0 then fds e' = fds e else fd \<notin> fds e \<and> fds e' = insert fd (fds e))) \<and>
     (\<forall>fd e. fds (sys_close os fd e) = fds e - {fd}) \<and>
     (\<forall>fd e. fds (snd (sys_reuseaddr os fd e)) = fds e) \<and> (\<forall>fd port e. fds (snd (sys_bind os fd port e)) = fds e) \<and>
     (\<forall>fd n e. fds (snd (sys_listen os fd n e)) = fds e) \<and>
     (\<forall>fd bs e. fds (snd (sys_send os fd bs e)) = fds e) \<and> (\<forall>fd n e. fds (snd (sys_recv os fd n e)) = fds e)"

lemma mock_fdsD:
  assumes "mock_fds os fds"
  shows "sys_socket os e = (fd, e') \<Longrightarrow> if fd < 0 then fds e' = fds e else fd \<notin> fds e \<and> fds e' = insert fd (fds e)"
    "sys_accept os l e = (fd, e') \<Longrightarrow> if fd < 0 then fds e' = fds e else fd \<notin> fds e \<and> fds e' = insert fd (fds e)"
    "fds (sys_close os fd e) = fds e - {fd}" "fds (snd (sys_reuseaddr os fd e)) = fds e" "fds (snd (sys_bind os fd port e)) = fds e"
    "fds (snd (sys_listen os fd n e)) = fds e"
  using assms unfolding mock_fds_def by simp_all

lemma mock_fds_inv: "mock_fds os fds \<Longrightarrow> wire_inv os (\<lambda>e. fds e = F)"
  by (simp add: mock_fds_def wire_inv_def)

lemma accept_rounds_serve:
  assumes os: "recv_bounded os" "runs_dry os f" "mock_fds os fds" and st: "\<And>k. length (stack k) = CHAT_MAX_MSG_SIZE" and M: "mock_ok M"
  shows "\<exists>M' e'. accept_rounds os stack lfd n M e = Some (M', e') \<and> extends M M' \<and> fds e' = fds e"
proof (induction n)
  case 0
  show ?case using extends_refl [OF M] by simp
next
  case (Suc n)
  then obtain M1 e1 where r: "accept_rounds os stack lfd n M e = Some (M1, e1)" "extends M M1" "fds e1 = fds e" by blast
  obtain cfd e2 where a: "sys_accept os lfd e1 = (cfd, e2)" by fastforce
  note A = mock_fdsD(2) [OF os(3) a]
  have M1: "mock_ok M1" using r(2) by (simp add: extends_def)
  obtain M2 e3 where s: "serve_client os cfd (stack n) M1 e2 = Some (M2, e3)" "extends M1 M2" "fds e3 = fds e2"
    using serve_client_returns [OF os(1,2) mock_fds_inv [OF os(3), of "fds e2"] M1 st refl] by blast
  show ?case
    using r a A s(1,3) extends_trans [OF r(2) s(2)] mock_fdsD(3) [OF os(3), of cfd e3] by (auto split: if_splits)
qed

text \<open>The calls with which the listening socket is set up succeed.\<close>

definition mock_listens :: "('e, 'z) MockOs_scheme \<Rightarrow> 'e \<Rightarrow> bool" where
  "mock_listens os e =
     (let (lfd, e) = sys_socket os e; (_, e) = sys_reuseaddr os lfd e; (r, e) = sys_bind os lfd CHAT_TCP_PORT e
      in 0 \<le> lfd \<and> 0 \<le> r \<and> 0 \<le> fst (sys_listen os lfd 4 e))"

text \<open>
  C17: the mock server keeps serving. If its listening socket can be set up it never ends: after any number of rounds, whatever the clients send and however
  calls fail, it has stayed within its buffer and its array, and exactly the listening socket is open besides what was open before. The users of \<open>n\<close> rounds are still
  there after \<open>m\<close> more, with their passwords. If the set-up fails the exit code is 1 and no descriptor is left open.
\<close>

theorem mock_keeps_serving:
  assumes "recv_bounded os" "runs_dry os f" "mock_fds os fds" "\<And>k. length (stack k) = CHAT_MAX_MSG_SIZE"
  shows "if mock_listens os e
    then \<exists>M e1 M' e2. mock_main os stack n e = Some (None, M, e1) \<and> mock_main os stack (n + m) e = Some (None, M', e2) \<and> extends M M' \<and>
      fds e2 = insert (fst (sys_socket os e)) (fds e) \<and> fst (sys_socket os e) \<notin> fds e
    else \<exists>e'. mock_main os stack n e = Some (Some 1, empty_mock, e') \<and> fds e' = fds e"
proof -
  obtain lfd e1 where s: "sys_socket os e = (lfd, e1)" by fastforce
  obtain r e2 where o: "sys_reuseaddr os lfd e1 = (r, e2)" by fastforce
  obtain rb e3 where b: "sys_bind os lfd CHAT_TCP_PORT e2 = (rb, e3)" by fastforce
  obtain rl e4 where l: "sys_listen os lfd 4 e3 = (rl, e4)" by fastforce
  note D = mock_fdsD(1) [OF assms(3) s] mock_fdsD(3) [OF assms(3), of lfd]
  have F: "fds e2 = fds e1" "fds e3 = fds e2" "fds e4 = fds e3"
    using mock_fdsD(4) [OF assms(3), of lfd e1] mock_fdsD(5) [OF assms(3), of lfd CHAT_TCP_PORT e2] mock_fdsD(6) [OF assms(3), of lfd 4 e3] o b l by simp_all
  have L: "mock_listens os e \<longleftrightarrow> 0 \<le> lfd \<and> 0 \<le> rb \<and> 0 \<le> rl" using s o b l by (simp add: mock_listens_def)
  show ?thesis
  proof (cases "mock_listens os e")
    case True
    have run: "mock_main os stack n e = map_option (\<lambda>(M, e). (None, M, e)) (accept_rounds os stack lfd n empty_mock e4)" for n
      using True L s o b l by (cases "accept_rounds os stack lfd n empty_mock e4") (simp_all add: mock_main_def case_prod_unfold)
    have em: "mock_ok empty_mock" by (simp add: mock_ok_def empty_mock_def)
    obtain M e5 where n: "accept_rounds os stack lfd n empty_mock e4 = Some (M, e5)" "mock_ok M" "fds e5 = fds e4"
      using accept_rounds_serve [where stack = stack, OF assms(1-4) em, of lfd n e4] by (auto simp: extends_def)
    have split: "accept_rounds os stack lfd (n + m) empty_mock e4 = accept_rounds os (\<lambda>k. stack (n + k)) lfd m M e5" for m
      using n(1) by (induction m) (simp_all add: add.commute)
    obtain M' e6 where "accept_rounds os (\<lambda>k. stack (n + k)) lfd m M e5 = Some (M', e6)" "extends M M'" "fds e6 = fds e5"
      using accept_rounds_serve [OF assms(1-3) _ n(2), of "\<lambda>k. stack (n + k)" lfd m e5] assms(4) by auto
    then show ?thesis using True run split n(1,3) F D L s by auto
  next
    case False
    then show ?thesis using L s o b l F D by (auto simp: mock_main_def split: if_splits)
  qed
qed

section \<open>The same replies\<close>


section \<open>Example\<close>


text \<open>A world in which every connection is accepted and reads from the bytes in the first component; the second component holds the open descriptors.\<close>

definition one_caller :: "(byte list \<times> int list) MockOs" where
  "one_caller = \<lparr>sys_socket = (\<lambda>(bs, fds). (fold max fds 2 + 1, bs, (fold max fds 2 + 1) # fds)), sys_inet_pton = (\<lambda>_. 1),
     sys_connect = (\<lambda>_ _ _ e. (- 1, e)), sys_send = (\<lambda>_ d e. (int (length d), e)),
     sys_recv = (\<lambda>_ n (bs, fds). (Some (take n bs), drop n bs, fds)), sys_close = (\<lambda>fd (bs, fds). (bs, removeAll fd fds)),
     sys_reuseaddr = (\<lambda>_ e. (0, e)), sys_bind = (\<lambda>_ _ e. (0, e)), sys_listen = (\<lambda>_ _ e. (0, e)),
     sys_accept = (\<lambda>_ (bs, fds). (fold max fds 2 + 1, bs, (fold max fds 2 + 1) # fds))\<rparr>"

lemma one_caller_laws: "recv_bounded one_caller" "runs_dry one_caller (\<lambda>e. length (fst e))" "mock_fds one_caller (\<lambda>e. set (snd e))"
  by (auto simp: recv_bounded_def runs_dry_def mock_fds_def one_caller_def fresh_fd)

theorem mock_keeps_serving_witness:
  "\<exists>M e1 M' e2. mock_main one_caller (\<lambda>_. replicate CHAT_MAX_MSG_SIZE 0) 1 (sample_register, [0]) = Some (None, M, e1) \<and>
     mock_main one_caller (\<lambda>_. replicate CHAT_MAX_MSG_SIZE 0) (1 + 5) (sample_register, [0]) = Some (None, M', e2) \<and> extends M M' \<and> set (snd e2) = {0, 3}"
proof -
  have "mock_listens one_caller (sample_register, [0])" "fst (sys_socket one_caller (sample_register, [0])) = 3"
    by (simp_all add: mock_listens_def one_caller_def)
  then show ?thesis
    using mock_keeps_serving [OF one_caller_laws, of "\<lambda>_. replicate CHAT_MAX_MSG_SIZE 0" "(sample_register, [0])" 1 5] by auto
qed

end
